(* ===== verification/Prelude.thy ===== *)
theory Prelude
  imports Main "HOL-Library.Word"
begin

text \<open>
  What the components share: the library's lemma collections, the part of the C library and of
  the C integer conversions that the scanners under \<^verbatim>\<open>codegraph-kernel/grammars/\<close> use
  (character classes of the "C" locale, narrowing to \<open>char\<close> and \<open>int16_t\<close>, \<open>memcpy\<close> of fixed
  width integers into a byte buffer), the character constants of the C sources by name, and a
  few facts on lists, loops and bytes.

  Code points are the values of \<open>TSLexer.lookahead\<close>, an \<open>int32_t\<close>; they are modelled as \<open>int\<close>,
  since no scanner does arithmetic on them beyond the narrowing conversions written out here.
  No component installs a locale (\<^verbatim>\<open>scala/scanner.c\<close> says so where it spells the classes out), so
  the wide character classes are those of the "C" locale: ASCII only.
\<close>

unbundle bit_operations_syntax

named_theorems runs_rules \<open>a scanner function only moves the cursor forward\<close>
named_theorems peek_rules \<open>a function only looks ahead\<close>
named_theorems scan_simps \<open>equations of the cursor operations\<close>

type_synonym code_point = int
type_synonym byte = "8 word"

section \<open>Characters\<close>

abbreviation (input) c_tab :: int where "c_tab \<equiv> 9"
abbreviation (input) c_nl :: int where "c_nl \<equiv> 10"
abbreviation (input) c_vtab :: int where "c_vtab \<equiv> 11"
abbreviation (input) c_cr :: int where "c_cr \<equiv> 13"
abbreviation (input) c_space :: int where "c_space \<equiv> 32"
abbreviation (input) c_bang :: int where "c_bang \<equiv> 33"
abbreviation (input) c_dquote :: int where "c_dquote \<equiv> 34"
abbreviation (input) c_hash :: int where "c_hash \<equiv> 35"
abbreviation (input) c_dollar :: int where "c_dollar \<equiv> 36"
abbreviation (input) c_percent :: int where "c_percent \<equiv> 37"
abbreviation (input) c_amp :: int where "c_amp \<equiv> 38"
abbreviation (input) c_squote :: int where "c_squote \<equiv> 39"
abbreviation (input) c_lparen :: int where "c_lparen \<equiv> 40"
abbreviation (input) c_rparen :: int where "c_rparen \<equiv> 41"
abbreviation (input) c_star :: int where "c_star \<equiv> 42"
abbreviation (input) c_plus :: int where "c_plus \<equiv> 43"
abbreviation (input) c_comma :: int where "c_comma \<equiv> 44"
abbreviation (input) c_minus :: int where "c_minus \<equiv> 45"
abbreviation (input) c_dot :: int where "c_dot \<equiv> 46"
abbreviation (input) c_slash :: int where "c_slash \<equiv> 47"
abbreviation (input) c_colon :: int where "c_colon \<equiv> 58"
abbreviation (input) c_semi :: int where "c_semi \<equiv> 59"
abbreviation (input) c_lt :: int where "c_lt \<equiv> 60"
abbreviation (input) c_eq :: int where "c_eq \<equiv> 61"
abbreviation (input) c_gt :: int where "c_gt \<equiv> 62"
abbreviation (input) c_quest :: int where "c_quest \<equiv> 63"
abbreviation (input) c_at :: int where "c_at \<equiv> 64"
abbreviation (input) c_upper_E :: int where "c_upper_E \<equiv> 69"
abbreviation (input) c_upper_U :: int where "c_upper_U \<equiv> 85"
abbreviation (input) c_lbrack :: int where "c_lbrack \<equiv> 91"
abbreviation (input) c_bslash :: int where "c_bslash \<equiv> 92"
abbreviation (input) c_rbrack :: int where "c_rbrack \<equiv> 93"
abbreviation (input) c_caret :: int where "c_caret \<equiv> 94"
abbreviation (input) c_underscore :: int where "c_underscore \<equiv> 95"
abbreviation (input) c_backtick :: int where "c_backtick \<equiv> 96"
abbreviation (input) c_a :: int where "c_a \<equiv> 97"
abbreviation (input) c_c :: int where "c_c \<equiv> 99"
abbreviation (input) c_d :: int where "c_d \<equiv> 100"
abbreviation (input) c_e :: int where "c_e \<equiv> 101"
abbreviation (input) c_f :: int where "c_f \<equiv> 102"
abbreviation (input) c_i :: int where "c_i \<equiv> 105"
abbreviation (input) c_k :: int where "c_k \<equiv> 107"
abbreviation (input) c_l :: int where "c_l \<equiv> 108"
abbreviation (input) c_m :: int where "c_m \<equiv> 109"
abbreviation (input) c_n :: int where "c_n \<equiv> 110"
abbreviation (input) c_o :: int where "c_o \<equiv> 111"
abbreviation (input) c_r :: int where "c_r \<equiv> 114"
abbreviation (input) c_s :: int where "c_s \<equiv> 115"
abbreviation (input) c_t :: int where "c_t \<equiv> 116"
abbreviation (input) c_u :: int where "c_u \<equiv> 117"
abbreviation (input) c_w :: int where "c_w \<equiv> 119"
abbreviation (input) c_x :: int where "c_x \<equiv> 120"
abbreviation (input) c_y :: int where "c_y \<equiv> 121"
abbreviation (input) c_lbrace :: int where "c_lbrace \<equiv> 123"
abbreviation (input) c_bar :: int where "c_bar \<equiv> 124"
abbreviation (input) c_rbrace :: int where "c_rbrace \<equiv> 125"
abbreviation (input) c_tilde :: int where "c_tilde \<equiv> 126"

text \<open>The code points of a C string literal.\<close>

definition codes :: "string \<Rightarrow> code_point list" where
  "codes s = List.map of_char s"

lemma codes_Nil [simp]: "codes [] = []"
  by (simp add: codes_def)

lemma codes_Cons [simp]: "codes (c # s) = of_char c # codes s"
  by (simp add: codes_def)

lemma length_codes [simp]: "length (codes s) = length s"
  by (simp add: codes_def)

lemma codes_eq_iff: "codes s = codes t \<longleftrightarrow> s = t"
proof (induction s arbitrary: t)
  case Nil
  then show ?case by (cases t) simp_all
next
  case (Cons c s)
  then show ?case by (cases t) simp_all
qed

subsection \<open>The "C" locale of wctype.h\<close>

definition iswspace :: "code_point \<Rightarrow> bool" where
  "iswspace c \<longleftrightarrow> c = 32 \<or> (9 \<le> c \<and> c \<le> 13)"

definition iswdigit :: "code_point \<Rightarrow> bool" where
  "iswdigit c \<longleftrightarrow> 48 \<le> c \<and> c \<le> 57"

definition iswalpha :: "code_point \<Rightarrow> bool" where
  "iswalpha c \<longleftrightarrow> (65 \<le> c \<and> c \<le> 90) \<or> (97 \<le> c \<and> c \<le> 122)"

definition iswalnum :: "code_point \<Rightarrow> bool" where
  "iswalnum c \<longleftrightarrow> iswalpha c \<or> iswdigit c"

definition iswxdigit :: "code_point \<Rightarrow> bool" where
  "iswxdigit c \<longleftrightarrow> iswdigit c \<or> (65 \<le> c \<and> c \<le> 70) \<or> (97 \<le> c \<and> c \<le> 102)"

definition towlower :: "code_point \<Rightarrow> code_point" where
  "towlower c = (if 65 \<le> c \<and> c \<le> 90 then c + 32 else c)"

definition towupper :: "code_point \<Rightarrow> code_point" where
  "towupper c = (if 97 \<le> c \<and> c \<le> 122 then c - 32 else c)"

lemma ctype_zero [simp]:
  "\<not> iswspace 0" "\<not> iswdigit 0" "\<not> iswalpha 0" "\<not> iswalnum 0" "\<not> iswxdigit 0"
  by (simp_all add: iswspace_def iswdigit_def iswalpha_def iswalnum_def iswxdigit_def)

lemma iswspace_iff: "iswspace c \<longleftrightarrow> c \<in> {9, 10, 11, 12, 13, 32}"
  by (auto simp: iswspace_def)

lemma towlower_towupper: "iswalpha c \<Longrightarrow> towlower (towupper c) = towlower c"
  by (auto simp: iswalpha_def towlower_def towupper_def)

section \<open>C integer conversions\<close>

text \<open>
  A value converted to a narrower signed type keeps its low bits. \<open>char\<close> is signed here, as it
  is for the x86-64 and the Apple and Windows arm64 targets of the kernel.
\<close>

definition to_char :: "int \<Rightarrow> byte" where
  "to_char c = word_of_int c"

definition char_val :: "byte \<Rightarrow> int" where
  "char_val b = sint b"

definition to_int16 :: "int \<Rightarrow> int" where
  "to_int16 x = (x + 32768) mod 65536 - 32768"

lemma to_int16_id: "-32768 \<le> x \<Longrightarrow> x < 32768 \<Longrightarrow> to_int16 x = x"
  by (simp add: to_int16_def)

lemma to_int16_range: "-32768 \<le> to_int16 x \<and> to_int16 x < 32768"
  by (simp add: to_int16_def)

lemma char_val_to_char: "-128 \<le> c \<Longrightarrow> c < 128 \<Longrightarrow> char_val (to_char c) = c"
  by (simp add: char_val_def to_char_def sint_sbintrunc' signed_take_bit_int_eq_self)

section \<open>memcpy of fixed width integers\<close>

text \<open>The targets are little endian.\<close>

definition bytes_of_u32 :: "32 word \<Rightarrow> byte list" where
  "bytes_of_u32 w = [ucast w, ucast (drop_bit 8 w), ucast (drop_bit 16 w), ucast (drop_bit 24 w)]"

fun u32_of_bytes :: "byte list \<Rightarrow> 32 word" where
  "u32_of_bytes (a # b # c # d # _) =
     ucast a OR push_bit 8 (ucast b) OR push_bit 16 (ucast c) OR push_bit 24 (ucast d)"
| "u32_of_bytes _ = 0"

lemma length_bytes_of_u32 [simp]: "length (bytes_of_u32 w) = 4"
  by (simp add: bytes_of_u32_def)

lemma u32_of_bytes_of_u32 [simp]: "u32_of_bytes (bytes_of_u32 w @ rest) = w"
proof (rule bit_word_eqI)
  fix n assume "n < LENGTH(32)"
  then consider "n < 8" | "8 \<le> n \<and> n < 16" | "16 \<le> n \<and> n < 24" | "24 \<le> n \<and> n < 32"
    by fastforce
  then show "bit (u32_of_bytes (bytes_of_u32 w @ rest)) n = bit w n"
    by cases (auto simp: bytes_of_u32_def bit_or_iff bit_push_bit_iff bit_ucast_iff
        bit_drop_bit_eq dest: bit_imp_le_length)
qed

definition bytes_of_i16 :: "int \<Rightarrow> byte list" where
  "bytes_of_i16 x = [word_of_int x, word_of_int (x div 256)]"

fun i16_of_bytes :: "byte list \<Rightarrow> int" where
  "i16_of_bytes (a # b # _) = to_int16 (uint a + 256 * uint b)"
| "i16_of_bytes _ = 0"

lemma length_bytes_of_i16 [simp]: "length (bytes_of_i16 x) = 2"
  by (simp add: bytes_of_i16_def)

lemma i16_of_bytes_of_i16 [simp]:
  assumes "-32768 \<le> x" and "x < 32768"
  shows "i16_of_bytes (bytes_of_i16 x @ rest) = x"
proof -
  have "x mod 256 + 256 * (x div 256 mod 256) = x mod 65536"
    using mod_mult2_eq' [of x 256 256] by (simp add: zmod_zmult2_eq)
  then have "i16_of_bytes (bytes_of_i16 x @ rest) = to_int16 (x mod 65536)"
    by (simp add: bytes_of_i16_def uint_word_of_int)
  also have "\<dots> = to_int16 x"
    by (simp add: to_int16_def mod_simps)
  finally show ?thesis using assms by (simp add: to_int16_id)
qed

section \<open>Lists\<close>

lemma dropWhile_drop: "dropWhile P xs = drop (length (takeWhile P xs)) xs"
  by (rule dropWhile_eq_drop)

lemma butlast_append_last: "xs \<noteq> [] \<Longrightarrow> butlast xs @ [last xs] = xs"
  by simp

end
