(* ===== verification/Lexer.thy ===== *)
theory Lexer
  imports Prelude
begin

text \<open>
  The cursor a scanner works on: \<^verbatim>\<open>struct TSLexer\<close> of \<^verbatim>\<open>tree_sitter/parser.h\<close>. The runtime behind
  its function pointers is not part of the repository, so it is a parameter: a cursor carries the
  answers the runtime gives, one \<open>cell\<close> for each input position from the current one on (the
  code point \<open>lookahead\<close> shows there, the column \<open>get_column\<close> reports there, whether an included
  range starts there) and one for the end of the input. What is built in is the documented
  contract of the interface: \<open>advance\<close> goes to the next position and does nothing at the end of
  the input, where \<open>eof\<close> holds and \<open>lookahead\<close> is 0; skipped characters move the start of the
  token; \<open>mark_end\<close> fixes its end; the input is finite. A NUL character inside the input is a
  cell whose code point is 0. The columns and the range starts are arbitrary.

  The locale \<open>cursor\<close> states this contract without the representation, and the facts that follow
  from it alone are proved there.
\<close>

record cell =
  cp :: code_point
  column :: nat
  range_start :: bool

record 'k lexer =
  ahead :: "cell list"
  eof_cell :: cell
  pos :: nat
  tok_start :: nat
  tok_end :: "nat option"
  result_symbol :: "'k option"

section \<open>Operations\<close>

definition lookahead :: "'k lexer \<Rightarrow> code_point" where
  "lookahead l = (case ahead l of [] \<Rightarrow> 0 | c # _ \<Rightarrow> cp c)"

definition get_column :: "'k lexer \<Rightarrow> nat" where
  "get_column l = (case ahead l of [] \<Rightarrow> column (eof_cell l) | c # _ \<Rightarrow> column c)"

definition is_at_included_range_start :: "'k lexer \<Rightarrow> bool" where
  "is_at_included_range_start l =
     (case ahead l of [] \<Rightarrow> range_start (eof_cell l) | c # _ \<Rightarrow> range_start c)"

definition eof :: "'k lexer \<Rightarrow> bool" where
  "eof l \<longleftrightarrow> ahead l = []"

text \<open>\<open>lexer->advance(lexer, skip)\<close>\<close>

definition lex_advance :: "bool \<Rightarrow> 'k lexer \<Rightarrow> 'k lexer" where
  "lex_advance skp l = (case ahead l of
       [] \<Rightarrow> l
     | _ # cs \<Rightarrow> l\<lparr>ahead := cs, pos := Suc (pos l),
                   tok_start := (if skp then Suc (pos l) else tok_start l)\<rparr>)"

definition mark_end :: "'k lexer \<Rightarrow> 'k lexer" where
  "mark_end l = l\<lparr>tok_end := Some (pos l)\<rparr>"

definition set_result :: "'k \<Rightarrow> 'k lexer \<Rightarrow> 'k lexer" where
  "set_result k l = l\<lparr>result_symbol := Some k\<rparr>"

text \<open>The helpers every scanner defines for itself.\<close>

abbreviation advance :: "'k lexer \<Rightarrow> 'k lexer" where
  "advance \<equiv> lex_advance False"

abbreviation skip :: "'k lexer \<Rightarrow> 'k lexer" where
  "skip \<equiv> lex_advance True"

abbreviation text_ahead :: "'k lexer \<Rightarrow> code_point list" where
  "text_ahead l \<equiv> List.map cp (ahead l)"

abbreviation remaining :: "'k lexer \<Rightarrow> nat" where
  "remaining l \<equiv> length (ahead l)"

text \<open>\<open>n\<close> calls of \<open>advance\<close>, and the cursor at the start of a token.\<close>

definition advance_n :: "bool \<Rightarrow> nat \<Rightarrow> 'k lexer \<Rightarrow> 'k lexer" where
  "advance_n skp n l = (lex_advance skp ^^ n) l"

definition start_lexer :: "cell list \<Rightarrow> cell \<Rightarrow> 'k lexer" where
  "start_lexer cs e = \<lparr>ahead = cs, eof_cell = e, pos = 0, tok_start = 0, tok_end = None,
                       result_symbol = None\<rparr>"

text \<open>
  A text as the cells of an input whose columns count the characters since the last line feed,
  as the runtime documents them.
\<close>

fun cells_of :: "nat \<Rightarrow> code_point list \<Rightarrow> cell list" where
  "cells_of col [] = []"
| "cells_of col (c # cs) =
     \<lparr>cp = c, column = col, range_start = False\<rparr> # cells_of (if c = c_nl then 0 else Suc col) cs"

fun end_column :: "nat \<Rightarrow> code_point list \<Rightarrow> nat" where
  "end_column col [] = col"
| "end_column col (c # cs) = end_column (if c = c_nl then 0 else Suc col) cs"

definition end_cell :: cell where
  "end_cell = \<lparr>cp = 0, column = 0, range_start = False\<rparr>"

definition lexer_on :: "code_point list \<Rightarrow> 'k lexer" where
  "lexer_on cs =
     start_lexer (cells_of 0 cs) \<lparr>cp = 0, column = end_column 0 cs, range_start = False\<rparr>"

lemma map_cp_cells_of [simp]: "List.map cp (cells_of col cs) = cs"
  by (induction cs arbitrary: col) simp_all

lemma length_cells_of [simp]: "length (cells_of col cs) = length cs"
  by (induction cs arbitrary: col) simp_all

lemma text_ahead_lexer_on [simp]: "text_ahead (lexer_on cs) = cs"
  by (simp add: lexer_on_def start_lexer_def)

lemma lexer_on_simps [simp]:
  "pos (lexer_on cs) = 0" "tok_start (lexer_on cs) = 0" "tok_end (lexer_on cs) = None"
  "result_symbol (lexer_on cs) = None"
  by (simp_all add: lexer_on_def start_lexer_def)

section \<open>Loops over a character class\<close>

text \<open>
  \<open>while (P(lexer->lookahead)) lexer->advance(lexer, skip);\<close> for a class \<open>P\<close> that does not hold
  of 0, and \<open>while (!eof && P(lookahead)) ...\<close> for any \<open>P\<close>: \<open>advance_while_unfold\<close> and
  \<open>advance_while_eof_unfold\<close> below are the loops' own equations.
\<close>

function advance_while :: "(code_point \<Rightarrow> bool) \<Rightarrow> bool \<Rightarrow> 'k lexer \<Rightarrow> 'k lexer" where
  "advance_while P skp l =
     (if \<not> eof l \<and> P (lookahead l) then advance_while P skp (lex_advance skp l) else l)"
  by pat_completeness auto
termination
  by (relation "measure (\<lambda>(_, _, l). remaining l)")
    (auto simp: eof_def lex_advance_def split: list.splits)

declare advance_while.simps [simp del]

section \<open>Equations of the operations\<close>

lemma lookahead_eof: "eof l \<Longrightarrow> lookahead l = 0"
  by (simp add: lookahead_def eof_def)

lemma lookahead_nonzero: "lookahead l \<noteq> 0 \<Longrightarrow> \<not> eof l"
  by (auto simp: lookahead_eof)

lemma advance_eof [simp]: "eof l \<Longrightarrow> lex_advance b l = l"
  by (simp add: lex_advance_def eof_def)

lemma ahead_advance [simp]: "ahead (lex_advance b l) = tl (ahead l)"
  by (simp add: lex_advance_def split: list.splits)

lemma lexer_frame [simp]:
  "ahead (mark_end l) = ahead l" "ahead (set_result k l) = ahead l"
  "pos (mark_end l) = pos l" "pos (set_result k l) = pos l"
  "tok_start (mark_end l) = tok_start l" "tok_start (set_result k l) = tok_start l"
  "tok_end (mark_end l) = Some (pos l)" "tok_end (set_result k l) = tok_end l"
  "tok_end (lex_advance b l) = tok_end l"
  "result_symbol (mark_end l) = result_symbol l" "result_symbol (set_result k l) = Some k"
  "result_symbol (lex_advance b l) = result_symbol l"
  "eof_cell (mark_end l) = eof_cell l" "eof_cell (set_result k l) = eof_cell l"
  "eof_cell (lex_advance b l) = eof_cell l"
  by (simp_all add: mark_end_def set_result_def lex_advance_def split: list.splits)

lemma look_frame [simp]:
  "lookahead (mark_end l) = lookahead l" "lookahead (set_result k l) = lookahead l"
  "eof (mark_end l) = eof l" "eof (set_result k l) = eof l"
  "get_column (mark_end l) = get_column l" "get_column (set_result k l) = get_column l"
  by (simp_all add: lookahead_def eof_def get_column_def split: list.splits)

lemma remaining_advance_less [simp]:
  "\<not> eof l \<Longrightarrow> length (ahead l) - Suc n < length (ahead l)"
  by (simp add: eof_def)

lemma advance_less_look [simp]:
  "lookahead l \<noteq> 0 \<Longrightarrow> length (ahead l) - Suc n < length (ahead l)"
  by (simp add: lookahead_nonzero)

lemma advance_while_unfold:
  "\<not> P 0 \<Longrightarrow>
   advance_while P b l = (if P (lookahead l) then advance_while P b (lex_advance b l) else l)"
  by (subst advance_while.simps) (auto simp: lookahead_eof)

lemma advance_while_eof_unfold:
  "advance_while P b l =
     (if \<not> eof l \<and> P (lookahead l) then advance_while P b (lex_advance b l) else l)"
  by (rule advance_while.simps)

lemma advance_while_step:
  "\<not> eof l \<Longrightarrow> P (lookahead l) \<Longrightarrow> advance_while P b l = advance_while P b (lex_advance b l)"
  by (simp add: advance_while.simps [of P b l])

lemma advance_while_stop: "\<not> P (lookahead l) \<Longrightarrow> advance_while P b l = l"
  by (simp add: advance_while.simps [of P b l])

lemma ahead_advance_while:
  "ahead (advance_while P b l) = dropWhile (P \<circ> cp) (ahead l)"
proof (induction P b l rule: advance_while.induct)
  case (1 P b l)
  then show ?case
    by (subst advance_while.simps) (cases "ahead l"; simp add: eof_def lookahead_def o_def)
qed

lemma advance_while_stops: "eof (advance_while P b l) \<or> \<not> P (lookahead (advance_while P b l))"
proof (induction P b l rule: advance_while.induct)
  case (1 P b l)
  then show ?case
    by (subst (1 2) advance_while.simps) (simp split: if_splits)
qed

lemma look_advance_while: "\<not> P (lookahead (advance_while P b l)) \<or> lookahead (advance_while P b l) = 0"
  using advance_while_stops lookahead_eof by blast

lemma advance_while_frame [simp]:
  "tok_end (advance_while P b l) = tok_end l"
  "result_symbol (advance_while P b l) = result_symbol l"
  "eof_cell (advance_while P b l) = eof_cell l"
  by (induction P b l rule: advance_while.induct; subst advance_while.simps; simp)+

lemma remaining_advance_while [simp]: "length (ahead (advance_while P b l)) \<le> length (ahead l)"
  by (simp add: ahead_advance_while length_dropWhile_le)

lemma advance_after_run:
  assumes "lookahead (advance_while P b l) \<noteq> 0"
  shows "remaining (lex_advance b' (advance_while P b l)) < remaining l"
proof -
  have "remaining (lex_advance b' (advance_while P b l)) < remaining (advance_while P b l)"
    using assms by simp
  then show ?thesis using remaining_advance_while [of P b l] by (rule less_le_trans)
qed


subsection \<open>Several steps at once\<close>

lemma advance_n_0 [simp]: "advance_n b 0 l = l"
  by (simp add: advance_n_def)

lemma advance_n_Suc: "advance_n b (Suc n) l = advance_n b n (lex_advance b l)"
  by (simp add: advance_n_def funpow_swap1)

lemma advance_n_1 [simp]: "advance_n b (Suc 0) l = lex_advance b l"
  by (simp add: advance_n_def)

lemma advance_n_add: "advance_n b n (advance_n b m l) = advance_n b (m + n) l"
  by (induction m arbitrary: l) (simp_all add: advance_n_Suc)

lemma lex_advance_advance_n: "lex_advance b (advance_n b n l) = advance_n b (Suc n) l"
  by (simp add: advance_n_def)

lemma ahead_advance_n [simp]: "ahead (advance_n b n l) = drop n (ahead l)"
  by (induction n arbitrary: l) (simp_all add: advance_n_Suc drop_Suc)

lemma pos_advance: "pos (lex_advance b l) = pos l + (if eof l then 0 else 1)"
  by (simp add: lex_advance_def eof_def split: list.splits)

lemma pos_advance_n: "n \<le> remaining l \<Longrightarrow> pos (advance_n b n l) = pos l + n"
proof (induction n arbitrary: l)
  case (Suc n)
  then show ?case by (auto simp: advance_n_Suc pos_advance eof_def)
qed simp

lemma advance_n_frame [simp]:
  "tok_end (advance_n b n l) = tok_end l"
  "result_symbol (advance_n b n l) = result_symbol l"
  "eof_cell (advance_n b n l) = eof_cell l"
  by (induction n arbitrary: l; simp add: advance_n_Suc)+

lemma tok_start_advance [simp]: "tok_start (advance l) = tok_start l"
  by (simp add: lex_advance_def split: list.splits)

lemma tok_start_advance_n [simp]: "tok_start (advance_n False n l) = tok_start l"
  by (induction n arbitrary: l) (simp_all add: advance_n_Suc)

lemma lookahead_text: "lookahead l = (case text_ahead l of [] \<Rightarrow> 0 | c # _ \<Rightarrow> c)"
  by (cases "ahead l") (simp_all add: lookahead_def)

text \<open>The lookahead as a function of the text, for references that work on the text alone.\<close>

definition hd0 :: "code_point list \<Rightarrow> code_point" where
  "hd0 cs = (case cs of [] \<Rightarrow> 0 | c # _ \<Rightarrow> c)"

lemma lookahead_hd0: "lookahead l = hd0 (text_ahead l)"
  by (simp add: lookahead_text hd0_def)

lemma hd0_simps [simp]: "hd0 [] = 0" "hd0 (c # cs) = c"
  by (simp_all add: hd0_def)

text \<open>What stands at one of the first positions is among the first characters.\<close>

lemma hd0_drop_within:
  assumes "k \<le> n" and "hd0 (drop k cs) = c" and "c \<noteq> 0"
  shows "c \<in> set (take (Suc n) cs)"
proof -
  have k: "k < length cs" using assms(2,3) by (cases "k < length cs") auto
  then have "drop k cs = cs ! k # drop (Suc k) cs" by (simp add: Cons_nth_drop_Suc)
  with assms(2) have "cs ! k = c" by simp
  moreover have "take (Suc n) cs ! k = cs ! k" "k < length (take (Suc n) cs)" using k assms(1) by simp_all
  ultimately show ?thesis by (metis nth_mem)
qed

lemma lookahead_Cons: "text_ahead l = c # cs \<Longrightarrow> lookahead l = c"
  by (simp add: lookahead_text)

lemma eof_text: "eof l \<longleftrightarrow> text_ahead l = []"
  by (simp add: eof_def)

lemma lookahead_advance_n:
  "lookahead (advance_n b n l) = (case drop n (text_ahead l) of [] \<Rightarrow> 0 | c # _ \<Rightarrow> c)"
  by (simp add: lookahead_text drop_map)

lemma text_ahead_look: "\<not> eof l \<Longrightarrow> text_ahead l = lookahead l # text_ahead (lex_advance b l)"
  by (cases "ahead l") (simp_all add: eof_def lookahead_def)

lemma text_ahead_nonzero:
  "lookahead l \<noteq> 0 \<Longrightarrow> text_ahead l = lookahead l # text_ahead (lex_advance b l)"
  using lookahead_nonzero text_ahead_look by blast

lemma advance_while_advance_n:
  "advance_while P b l = advance_n b (length (takeWhile P (text_ahead l))) l"
proof (induction P b l rule: advance_while.induct)
  case (1 P b l)
  then show ?case
    by (subst advance_while.simps)
      (cases "ahead l"; simp add: advance_n_Suc lookahead_def eof_def)
qed

text \<open>A class that does not hold of 0: either the run goes on, or it is empty.\<close>

lemma class_run_cases [consumes 1, case_names more stop]:
  assumes "\<not> P 0"
  obtains (more) "P (lookahead l)" "\<not> eof l"
      "takeWhile P (text_ahead l) = lookahead l # takeWhile P (text_ahead (lex_advance b l))"
      "advance_while P b l = advance_while P b (lex_advance b l)"
    | (stop) "\<not> P (lookahead l)" "takeWhile P (text_ahead l) = []" "advance_while P b l = l"
proof (cases "P (lookahead l)")
  case True
  then have "lookahead l \<noteq> 0" using assms by auto
  then have t: "text_ahead l = lookahead l # text_ahead (lex_advance b l)" and "\<not> eof l"
    using text_ahead_nonzero lookahead_nonzero by blast+
  have "takeWhile P (text_ahead l) = lookahead l # takeWhile P (text_ahead (lex_advance b l))"
    by (subst t) (simp add: True)
  with True \<open>\<not> eof l\<close> show thesis using more advance_while_step by blast
next
  case False
  then have "takeWhile P (text_ahead l) = []"
    by (cases "ahead l") (simp_all add: lookahead_def)
  with False show thesis using stop advance_while_stop by blast
qed

lemma pos_advance_while: "pos (advance_while P b l) = pos l + length (takeWhile P (text_ahead l))"
proof -
  have "length (takeWhile P (text_ahead l)) \<le> remaining l"
    using length_takeWhile_le [of P "text_ahead l"] by simp
  then show ?thesis unfolding advance_while_advance_n by (rule pos_advance_n)
qed

lemma text_ahead_while: "text_ahead (advance_while P b l) = dropWhile P (text_ahead l)"
  by (simp add: ahead_advance_while dropWhile_map comp_def)

text \<open>The loop over a run of \<open>P\<close> characters that the input spells out.\<close>

lemma advance_while_run:
  assumes "text_ahead l = ws @ cs" and "list_all P ws" and "cs = [] \<or> \<not> P (hd cs)"
  shows "advance_while P b l = advance_n b (length ws) l"
proof -
  have "takeWhile P (ws @ cs) = ws"
    using assms(2,3) by (cases cs) (simp_all add: takeWhile_append2 list_all_iff)
  then show ?thesis unfolding advance_while_advance_n assms(1) by simp
qed

lemma text_ahead_advance_n: "text_ahead l = xs @ ys \<Longrightarrow> text_ahead (advance_n b (length xs) l) = ys"
  by (simp add: drop_map [symmetric])

lemma pos_advance_n_text: "text_ahead l = xs @ ys \<Longrightarrow> pos (advance_n b (length xs) l) = pos l + length xs"
  by (drule arg_cong [where f = length]) (simp add: pos_advance_n)

lemma text_ahead_ConsD:
  assumes "text_ahead l = c # cs"
  shows "text_ahead (lex_advance b l) = cs" "lookahead l = c" "\<not> eof l"
    "pos (lex_advance b l) = Suc (pos l)"
proof -
  show e: "\<not> eof l" using assms by (auto simp: eof_def)
  show "text_ahead (lex_advance b l) = cs" "lookahead l = c"
    using assms by (simp_all add: map_tl lookahead_text)
  show "pos (lex_advance b l) = Suc (pos l)" using e by (simp add: pos_advance)
qed

lemma text_ahead_drop: "text_ahead (advance_n b n l) = drop n (text_ahead l)"
  by (simp add: drop_map)

text \<open>A later \<open>mark_end\<close> overwrites an earlier one.\<close>

lemma lex_advance_tok_end: "lex_advance b (l\<lparr>tok_end := x\<rparr>) = (lex_advance b l)\<lparr>tok_end := x\<rparr>"
  by (simp add: lex_advance_def split: list.splits)

lemma advance_n_tok_end: "advance_n b n (l\<lparr>tok_end := x\<rparr>) = (advance_n b n l)\<lparr>tok_end := x\<rparr>"
  by (induction n arbitrary: l) (simp_all add: advance_n_Suc lex_advance_tok_end)

lemma mark_end_advance_n [simp]:
  "mark_end (advance_n b n (mark_end l)) = mark_end (advance_n b n l)"
proof -
  have "mark_end (advance_n b n (mark_end l)) = mark_end ((advance_n b n l)\<lparr>tok_end := Some (pos l)\<rparr>)"
    by (simp add: mark_end_def [of l] advance_n_tok_end)
  then show ?thesis by (simp add: mark_end_def)
qed

section \<open>Tokens\<close>

text \<open>
  The end of the token a successful scan leaves (the cursor itself, when \<open>mark_end\<close> was not
  called), and the cursor from which the parser asks for a token at offset \<open>n\<close> of an input.
\<close>

definition token_end :: "'k lexer \<Rightarrow> nat" where
  "token_end l = (case tok_end l of None \<Rightarrow> pos l | Some e \<Rightarrow> e)"

lemma token_end_simps [simp]:
  "token_end (set_result k l) = token_end l" "token_end (mark_end l) = pos l"
  "token_end (lex_advance b (mark_end l)) = pos l" "token_end (advance_n b n (mark_end l)) = pos l"
  by (simp_all add: token_end_def split: option.splits)

definition lexer_at :: "cell list \<Rightarrow> cell \<Rightarrow> nat \<Rightarrow> 'k lexer" where
  "lexer_at cs e n = \<lparr>ahead = drop n cs, eof_cell = e, pos = n, tok_start = n, tok_end = None,
                      result_symbol = None\<rparr>"

lemma lexer_at_simps [simp]:
  "ahead (lexer_at cs e n) = drop n cs" "pos (lexer_at cs e n) = n"
  "tok_start (lexer_at cs e n) = n" "tok_end (lexer_at cs e n) = None"
  "eof_cell (lexer_at cs e n) = e" "result_symbol (lexer_at cs e n) = None"
  by (simp_all add: lexer_at_def)

section \<open>The cursor only moves forward\<close>

text \<open>
  \<open>runs l l'\<close>: \<open>l'\<close> is reached from \<open>l\<close> by operations of the interface alone. The input read so
  far and the input ahead still make up the same input, and a token that starts and ends before
  the cursor does so afterwards. It is what the parser relies on whatever a scanner does.
\<close>

definition lex_ok :: "'k lexer \<Rightarrow> bool" where
  "lex_ok l \<longleftrightarrow> tok_start l \<le> pos l \<and> (case tok_end l of None \<Rightarrow> True | Some e \<Rightarrow> e \<le> pos l)"

definition runs :: "'k lexer \<Rightarrow> 'k lexer \<Rightarrow> bool" where
  "runs l l' \<longleftrightarrow>
     pos l \<le> pos l' \<and> pos l' - pos l \<le> remaining l \<and> ahead l' = drop (pos l' - pos l) (ahead l) \<and>
     eof_cell l' = eof_cell l \<and> (lex_ok l \<longrightarrow> lex_ok l')"

lemma runs_refl [simp, runs_rules]: "runs l l"
  by (simp add: runs_def)

lemma runs_trans: "runs a b \<Longrightarrow> runs b c \<Longrightarrow> runs a c"
  by (auto simp: runs_def)

lemma runs_advance1: "runs l (lex_advance b l)"
  by (auto simp: runs_def lex_advance_def lex_ok_def split: list.splits option.splits)

lemma runs_advance [simp, runs_rules]: "runs l0 l \<Longrightarrow> runs l0 (lex_advance b l)"
  by (blast intro: runs_trans runs_advance1)

lemma runs_mark_end [simp, runs_rules]: "runs l0 l \<Longrightarrow> runs l0 (mark_end l)"
  by (auto simp: runs_def mark_end_def lex_ok_def split: option.splits)

lemma runs_set_result [simp, runs_rules]: "runs l0 l \<Longrightarrow> runs l0 (set_result k l)"
  by (auto simp: runs_def set_result_def lex_ok_def split: option.splits)

lemma runs_advance_while [simp, runs_rules]: "runs l0 l \<Longrightarrow> runs l0 (advance_while P b l)"
proof (induction P b l rule: advance_while.induct)
  case (1 P b l)
  then show ?case by (subst advance_while.simps) (simp add: runs_advance)
qed

lemma runs_advance_n: "runs l0 l \<Longrightarrow> runs l0 (advance_n b n l)"
  by (induction n) (simp_all add: advance_n_def runs_advance)

lemma runs_remaining: "runs l l' \<Longrightarrow> remaining l' \<le> remaining l"
  by (auto simp: runs_def)

lemma runs_conserves: "runs l l' \<Longrightarrow> pos l' + remaining l' = pos l + remaining l"
  by (auto simp: runs_def)

lemma runs_lex_ok: "runs l l' \<Longrightarrow> lex_ok l \<Longrightarrow> lex_ok l'"
  by (simp add: runs_def)

lemma lex_ok_start [simp]: "lex_ok (start_lexer cs e)"
  by (simp add: lex_ok_def start_lexer_def)

subsection \<open>Results of scanner functions\<close>

text \<open>
  A scanner function returns a value and the cursor it leaves (\<open>fwd\<close>), a whole scan the answer, the
  scanner's state and the cursor (\<open>fwd3\<close>). The rules follow the structure of a definition, so that
  \<open>auto intro!: runs_rules\<close> walks through a function once, without unfolding what it calls.
\<close>

definition fwd :: "'k lexer \<Rightarrow> 'a \<times> 'k lexer \<Rightarrow> bool" where
  "fwd l0 r \<longleftrightarrow> runs l0 (snd r)"

definition fwd3 :: "'k lexer \<Rightarrow> 'a \<times> 's \<times> 'k lexer \<Rightarrow> bool" where
  "fwd3 l0 r \<longleftrightarrow> runs l0 (snd (snd r))"

lemma fwd_Pair [runs_rules]: "runs l0 l \<Longrightarrow> fwd l0 (a, l)"
  by (simp add: fwd_def)

lemma fwd3_Pair [runs_rules]: "runs l0 l \<Longrightarrow> fwd3 l0 (a, s, l)"
  by (simp add: fwd3_def)

lemma fwd_if [runs_rules]:
  "(c \<Longrightarrow> fwd l0 x) \<Longrightarrow> (\<not> c \<Longrightarrow> fwd l0 y) \<Longrightarrow> fwd l0 (if c then x else y)"
  "(c \<Longrightarrow> fwd3 l0 u) \<Longrightarrow> (\<not> c \<Longrightarrow> fwd3 l0 v) \<Longrightarrow> fwd3 l0 (if c then u else v)"
  by simp_all

lemma runs_if [runs_rules]:
  "(c \<Longrightarrow> runs l0 x) \<Longrightarrow> (\<not> c \<Longrightarrow> runs l0 y) \<Longrightarrow> runs l0 (if c then x else y)"
  by simp

lemma fwd_case_prod [runs_rules]:
  "fwd l0 p \<Longrightarrow> (\<And>a l. runs l0 l \<Longrightarrow> fwd l0 (f a l)) \<Longrightarrow> fwd l0 (case p of (a, l) \<Rightarrow> f a l)"
  "fwd l0 p \<Longrightarrow> (\<And>a l. runs l0 l \<Longrightarrow> fwd3 l0 (g a l)) \<Longrightarrow> fwd3 l0 (case p of (a, l) \<Rightarrow> g a l)"
  "fwd3 l0 q \<Longrightarrow> (\<And>a s l. runs l0 l \<Longrightarrow> fwd3 l0 (h a s l)) \<Longrightarrow>
    fwd3 l0 (case q of (a, s, l) \<Rightarrow> h a s l)"
  "fwd l0 p \<Longrightarrow> (\<And>a l. runs l0 l \<Longrightarrow> runs l0 (k a l)) \<Longrightarrow> runs l0 (case p of (a, l) \<Rightarrow> k a l)"
  by (auto simp: fwd_def fwd3_def split: prod.splits)

lemma fwd_let_prod [runs_rules]:
  "fwd l0 p \<Longrightarrow> (\<And>a l. runs l0 l \<Longrightarrow> fwd l0 (f a l)) \<Longrightarrow> fwd l0 (let (a, l) = p in f a l)"
  "fwd l0 p \<Longrightarrow> (\<And>a l. runs l0 l \<Longrightarrow> fwd3 l0 (g a l)) \<Longrightarrow> fwd3 l0 (let (a, l) = p in g a l)"
  "fwd3 l0 q \<Longrightarrow> (\<And>a s l. runs l0 l \<Longrightarrow> fwd3 l0 (h a s l)) \<Longrightarrow>
    fwd3 l0 (let (a, s, l) = q in h a s l)"
  by (auto simp: fwd_def fwd3_def split: prod.splits)

lemma fwd_let [runs_rules]:
  "runs l0 m \<Longrightarrow> (\<And>l. runs l0 l \<Longrightarrow> fwd l0 (f l)) \<Longrightarrow> fwd l0 (let l = m in f l)"
  "runs l0 m \<Longrightarrow> (\<And>l. runs l0 l \<Longrightarrow> fwd3 l0 (g l)) \<Longrightarrow> fwd3 l0 (let l = m in g l)"
  "runs l0 m \<Longrightarrow> (\<And>l. runs l0 l \<Longrightarrow> runs l0 (k l)) \<Longrightarrow> runs l0 (let l = m in k l)"
  by simp_all

lemma fwd_let_value [runs_rules]:
  "(\<And>x. fwd l0 (f1 x)) \<Longrightarrow> fwd l0 (let x = (b :: bool) in f1 x)"
  "(\<And>x. fwd3 l0 (g1 x)) \<Longrightarrow> fwd3 l0 (let x = (b :: bool) in g1 x)"
  "(\<And>x. fwd l0 (f2 x)) \<Longrightarrow> fwd l0 (let x = (i :: int) in f2 x)"
  "(\<And>x. fwd3 l0 (g2 x)) \<Longrightarrow> fwd3 l0 (let x = (i :: int) in g2 x)"
  "(\<And>x. fwd l0 (f3 x)) \<Longrightarrow> fwd l0 (let x = (n :: nat) in f3 x)"
  "(\<And>x. fwd3 l0 (g3 x)) \<Longrightarrow> fwd3 l0 (let x = (n :: nat) in g3 x)"
  by simp_all

text \<open>Results of code that may abort the process: \<open>None\<close>.\<close>

definition fwd_opt :: "'k lexer \<Rightarrow> ('a \<times> 's \<times> 'k lexer) option \<Rightarrow> bool" where
  "fwd_opt l0 r \<longleftrightarrow> (\<forall>x. r = Some x \<longrightarrow> fwd3 l0 x)"

lemma fwd_opt_rules [runs_rules]:
  "fwd_opt l0 None"
  "fwd3 l0 x \<Longrightarrow> fwd_opt l0 (Some x)"
  "runs l0 l \<Longrightarrow> fwd_opt l0 (map_option (\<lambda>y. (b, f y, l)) z)"
  "(c \<Longrightarrow> fwd_opt l0 p) \<Longrightarrow> (\<not> c \<Longrightarrow> fwd_opt l0 q) \<Longrightarrow> fwd_opt l0 (if c then p else q)"
  "fwd l0 r \<Longrightarrow> (\<And>a l. runs l0 l \<Longrightarrow> fwd_opt l0 (g a l)) \<Longrightarrow> fwd_opt l0 (let (a, l) = r in g a l)"
  "runs l0 m \<Longrightarrow> (\<And>l. runs l0 l \<Longrightarrow> fwd_opt l0 (h l)) \<Longrightarrow> fwd_opt l0 (let l = m in h l)"
  "fwd_opt l0 p \<Longrightarrow> (\<And>a s l. runs l0 l \<Longrightarrow> fwd_opt l0 (k a s l)) \<Longrightarrow>
    fwd_opt l0 (case p of None \<Rightarrow> None | Some (a, s, l) \<Rightarrow> k a s l)"
  by (fastforce simp: fwd_opt_def fwd_def fwd3_def split: option.splits prod.splits)+

text \<open>The same facts as equations, for results that are known.\<close>

lemma fwd_simps:
  "fwd l0 (a, l) = runs l0 l" "fwd3 l0 (a, s, l) = runs l0 l" "fwd_opt l0 None = True"
  "fwd_opt l0 (Some x) = fwd3 l0 x"
  by (simp_all add: fwd_def fwd3_def fwd_opt_def)

lemma fwd_optD: "fwd_opt l0 (Some (a, s, l)) \<Longrightarrow> runs l0 l"
  by (simp add: fwd_opt_def fwd3_def)

lemma fwdD: "fwd l0 (a, l) \<Longrightarrow> runs l0 l"
  by (simp add: fwd_def)

lemma fwd3D: "fwd3 l0 (a, s, l) \<Longrightarrow> runs l0 l"
  by (simp add: fwd3_def)

lemma fwd_remaining: "fwd l0 r \<Longrightarrow> remaining (snd r) \<le> remaining l0"
  by (simp add: fwd_def runs_remaining)

subsection \<open>Looking ahead\<close>

text \<open>
  \<open>peeks l0 l\<close>: \<open>l\<close> is \<open>l0\<close> some calls of \<open>advance\<close> later. Such a step leaves the result symbol and the
  bounds of the token alone. A function that only looks ahead (\<open>pk\<close>) may therefore stand between
  \<open>mark_end\<close> and the end of a scan.
\<close>

definition peeks :: "'k lexer \<Rightarrow> 'k lexer \<Rightarrow> bool" where
  "peeks l0 l \<longleftrightarrow> (\<exists>n. l = advance_n False n l0)"

definition pk :: "'k lexer \<Rightarrow> 'a \<times> 'k lexer \<Rightarrow> bool" where
  "pk l0 r \<longleftrightarrow> peeks l0 (snd r)"

lemma peeks_refl [simp, peek_rules]: "peeks l l"
  unfolding peeks_def by (rule exI [of _ 0]) simp

lemma peeks_trans: "peeks a b \<Longrightarrow> peeks b c \<Longrightarrow> peeks a c"
  by (auto simp: peeks_def advance_n_add)

lemma peeks_advance_n: "peeks l (advance_n False n l)"
  by (auto simp: peeks_def)

lemma peeks_advance [simp, peek_rules]: "peeks l0 l \<Longrightarrow> peeks l0 (advance l)"
  using peeks_trans peeks_advance_n [of l 1] by fastforce

lemma peeks_advance_while [simp, peek_rules]: "peeks l0 l \<Longrightarrow> peeks l0 (advance_while P False l)"
  unfolding advance_while_advance_n by (blast intro: peeks_trans peeks_advance_n)

lemma peeks_frame:
  "peeks l0 l \<Longrightarrow> result_symbol l = result_symbol l0" "peeks l0 l \<Longrightarrow> tok_end l = tok_end l0"
  "peeks l0 l \<Longrightarrow> tok_start l = tok_start l0"
  by (auto simp: peeks_def)

lemma peeks_runs: "peeks l0 l \<Longrightarrow> runs l0 l"
  by (auto simp: peeks_def intro: runs_advance_n)

lemma peeks_remaining: "peeks l0 l \<Longrightarrow> remaining l \<le> remaining l0"
  by (rule runs_remaining) (rule peeks_runs)

lemma pk_Pair [peek_rules]: "peeks l0 l \<Longrightarrow> pk l0 (a, l)"
  by (simp add: pk_def)

lemma pkD: "pk l0 (a, l) \<Longrightarrow> peeks l0 l"
  by (simp add: pk_def)

lemma pk_remaining: "pk l0 r \<Longrightarrow> remaining (snd r) \<le> remaining l0"
  by (simp add: pk_def peeks_remaining)

lemma pk_if [peek_rules]:
  "(c \<Longrightarrow> pk l0 x) \<Longrightarrow> (\<not> c \<Longrightarrow> pk l0 y) \<Longrightarrow> pk l0 (if c then x else y)"
  "(c \<Longrightarrow> peeks l0 u) \<Longrightarrow> (\<not> c \<Longrightarrow> peeks l0 v) \<Longrightarrow> peeks l0 (if c then u else v)"
  by simp_all

lemma pk_prod [peek_rules]:
  "pk l0 p \<Longrightarrow> (\<And>a l. peeks l0 l \<Longrightarrow> pk l0 (f a l)) \<Longrightarrow> pk l0 (case p of (a, l) \<Rightarrow> f a l)"
  "pk l0 p \<Longrightarrow> (\<And>a l. peeks l0 l \<Longrightarrow> pk l0 (f a l)) \<Longrightarrow> pk l0 (let (a, l) = p in f a l)"
  by (auto simp: pk_def split: prod.splits)

lemma pk_let [peek_rules]:
  "peeks l0 m \<Longrightarrow> (\<And>l. peeks l0 l \<Longrightarrow> pk l0 (f l)) \<Longrightarrow> pk l0 (let l = m in f l)"
  "(\<And>x. pk l0 (g x)) \<Longrightarrow> pk l0 (let x = (i :: int) in g x)"
  by simp_all

text \<open>Looking ahead is moving forward.\<close>

lemma fwd_pk: "pk l r \<Longrightarrow> runs l0 l \<Longrightarrow> fwd l0 r"
  by (auto simp: pk_def fwd_def intro: runs_trans peeks_runs)

lemma runs_peeks: "peeks l m \<Longrightarrow> runs l0 l \<Longrightarrow> runs l0 m"
  by (blast intro: runs_trans peeks_runs)

section \<open>The interface without its representation\<close>

text \<open>
  What a scanner may assume of \<open>TSLexer\<close>: a lookahead that is 0 at the end of the input, an
  \<open>advance\<close> that makes progress everywhere else, and progress that cannot go on for ever. From
  this alone every loop that advances while the lookahead is not 0 ends; \<open>look_steps\<close> bounds it.
\<close>

locale cursor =
  fixes look :: "'l \<Rightarrow> code_point"
    and adv :: "'l \<Rightarrow> 'l"
    and at_end :: "'l \<Rightarrow> bool"
    and left :: "'l \<Rightarrow> nat"
  assumes look_at_end: "at_end l \<Longrightarrow> look l = 0"
    and adv_at_end: "at_end l \<Longrightarrow> adv l = l"
    and adv_progress: "\<not> at_end l \<Longrightarrow> left (adv l) < left l"
begin

lemma look_nonzero_progress: "look l \<noteq> 0 \<Longrightarrow> left (adv l) < left l"
  using look_at_end adv_progress by blast

lemma left_adv_le: "left (adv l) \<le> left l"
  by (cases "at_end l") (simp_all add: adv_at_end adv_progress less_imp_le)

lemma left_steps_le: "left ((adv ^^ n) l) \<le> left l"
  by (induction n) (auto intro: order_trans left_adv_le)

lemma look_steps:
  assumes "\<And>k. k < n \<Longrightarrow> look ((adv ^^ k) l) \<noteq> 0"
  shows "n \<le> left l"
proof -
  have "left ((adv ^^ n) l) + n \<le> left l"
    using assms
  proof (induction n)
    case (Suc n)
    then have "left ((adv ^^ n) l) + n \<le> left l" and "look ((adv ^^ n) l) \<noteq> 0"
      by simp_all
    then show ?case using look_nonzero_progress [of "(adv ^^ n) l"] by simp
  qed simp
  then show ?thesis by simp
qed

lemma loop_ends: "\<exists>n \<le> left l. look ((adv ^^ n) l) = 0"
proof (rule ccontr)
  assume "\<not> (\<exists>n \<le> left l. look ((adv ^^ n) l) = 0)"
  then have "\<And>k. k < Suc (left l) \<Longrightarrow> look ((adv ^^ k) l) \<noteq> 0"
    by (simp add: less_Suc_eq_le)
  then show False using look_steps [of "Suc (left l)" l] by simp
qed

end

interpretation ts: cursor lookahead "lex_advance b" eof remaining for b
  by unfold_locales (simp_all add: lookahead_eof)

end
