(* ===== verification/Scanner_Interface.thy ===== *)
theory Scanner_Interface
  imports Lexer
begin

text \<open>
  The interface an external scanner offers to the parser: \<open>create\<close>, \<open>serialize\<close>, \<open>deserialize\<close> and
  \<open>scan\<close> (the five functions \<^verbatim>\<open>tree_sitter_<language>_external_scanner_*\<close>; \<open>destroy\<close> only frees
  memory). The parser keeps the state of a scanner as the bytes \<open>serialize\<close> wrote for the last
  external token, restores it with \<open>deserialize\<close> before each scan, and drops what a failed scan
  did. \<open>session_saved\<close> below is this protocol and \<open>session_direct\<close> what it promises: the scans of one
  state, as if nothing were stored. Each component interprets the locale whose laws it meets.
\<close>

section \<open>What a scan answers\<close>

text \<open>
  \<open>reports valid r\<close>: when the answer is yes, the result symbol is a token the parser said is valid.
  \<open>keeps s r\<close>: when the answer is no, the scanner's state is still \<open>s\<close>. The rules follow the shape of
  the scanners' code, a sequence of attempts each of which returns early when it succeeds; what is
  known of an attempt is kept for its own early return only, so the cases do not multiply.
\<close>

named_theorems answer_rules \<open>structural rules for reports and keeps\<close>

definition reports :: "('k \<Rightarrow> bool) \<Rightarrow> bool \<times> 'k lexer \<Rightarrow> bool" where
  "reports valid r \<longleftrightarrow> (fst r \<longrightarrow> (\<exists>k. result_symbol (snd r) = Some k \<and> valid k))"

definition reports3 :: "('k \<Rightarrow> bool) \<Rightarrow> bool \<times> 's \<times> 'k lexer \<Rightarrow> bool" where
  "reports3 valid r \<longleftrightarrow> (fst r \<longrightarrow> (\<exists>k. result_symbol (snd (snd r)) = Some k \<and> valid k))"

definition keeps :: "'s \<Rightarrow> bool \<times> 's \<times> 'k lexer \<Rightarrow> bool" where
  "keeps s r \<longleftrightarrow> (\<not> fst r \<longrightarrow> fst (snd r) = s)"

lemma answer_leaf [answer_rules]:
  "reports V (False, l)" "reports3 V (False, s, l)" "keeps s (True, t, l)" "keeps s (b, s, l)"
  "V k \<Longrightarrow> reports V (b, set_result k l)" "V k \<Longrightarrow> reports3 V (b, s, set_result k l)"
  by (simp_all add: reports_def reports3_def keeps_def)

lemma answer_if [answer_rules]:
  "(c \<Longrightarrow> reports V x) \<Longrightarrow> (\<not> c \<Longrightarrow> reports V y) \<Longrightarrow> reports V (if c then x else y)"
  "(c \<Longrightarrow> reports3 V u) \<Longrightarrow> (\<not> c \<Longrightarrow> reports3 V v) \<Longrightarrow> reports3 V (if c then u else v)"
  "(c \<Longrightarrow> keeps s u) \<Longrightarrow> (\<not> c \<Longrightarrow> keeps s v) \<Longrightarrow> keeps s (if c then u else v)"
  by simp_all

lemma answer_let [answer_rules]:
  "(\<And>l. reports V (f l)) \<Longrightarrow> reports V (let l = (e :: 'k lexer) in f l)"
  "(\<And>l. reports3 V (g l)) \<Longrightarrow> reports3 V (let l = (e :: 'k lexer) in g l)"
  "(\<And>l. keeps s (g l)) \<Longrightarrow> keeps s (let l = (e :: 'k lexer) in g l)"
  by simp_all

lemma answer_early [answer_rules]:
  "(\<And>l. p = (True, l) \<Longrightarrow> reports V (A l)) \<Longrightarrow> (\<And>l. reports V (B l)) \<Longrightarrow>
    reports V (let (b, l) = p in if b then A l else B l)"
  "(\<And>l. p = (True, l) \<Longrightarrow> reports3 V (C l)) \<Longrightarrow> (\<And>l. reports3 V (D l)) \<Longrightarrow>
    reports3 V (let (b, l) = p in if b then C l else D l)"
  "(\<And>l. keeps s (C l)) \<Longrightarrow> (\<And>l. keeps s (D l)) \<Longrightarrow>
    keeps s (let (b, l) = p in if b then C l else D l)"
  "(\<And>s' l. q = (True, s', l) \<Longrightarrow> reports3 V (E s' l)) \<Longrightarrow> (\<And>s' l. reports3 V (F s' l)) \<Longrightarrow>
    reports3 V (let (b, s', l) = q in if b then E s' l else F s' l)"
  "keeps s q \<Longrightarrow> (\<And>s' l. keeps s (E s' l)) \<Longrightarrow> (\<And>l. keeps s (F s l)) \<Longrightarrow>
    keeps s (let (b, s', l) = q in if b then E s' l else F s' l)"
  by (auto simp: reports_def reports3_def keeps_def split: prod.splits)

definition reports_opt :: "('k \<Rightarrow> bool) \<Rightarrow> (bool \<times> 's \<times> 'k lexer) option \<Rightarrow> bool" where
  "reports_opt valid r \<longleftrightarrow> (\<forall>x. r = Some x \<longrightarrow> reports3 valid x)"

lemma reports_opt_rules [answer_rules]:
  "reports_opt V None"
  "reports3 V x \<Longrightarrow> reports_opt V (Some x)"
  "(\<And>y. reports3 V (b, f y, l)) \<Longrightarrow> reports_opt V (map_option (\<lambda>y. (b, f y, l)) z)"
  "(c \<Longrightarrow> reports_opt V p) \<Longrightarrow> (\<not> c \<Longrightarrow> reports_opt V q) \<Longrightarrow> reports_opt V (if c then p else q)"
  "(\<And>l. reports_opt V (h l)) \<Longrightarrow> reports_opt V (let l = (e :: 'k lexer) in h l)"
  "(\<And>l. r = (True, l) \<Longrightarrow> reports_opt V (A l)) \<Longrightarrow> (\<And>l. reports_opt V (B l)) \<Longrightarrow>
    reports_opt V (let (b, l) = r in if b then A l else B l)"
  "(\<And>s l. p = Some (True, s, l) \<Longrightarrow> reports_opt V (C s l)) \<Longrightarrow> (\<And>s l. reports_opt V (D s l)) \<Longrightarrow>
    reports_opt V (case p of None \<Rightarrow> None | Some (b, s, l) \<Rightarrow> if b then C s l else D s l)"
  by (fastforce simp: reports_opt_def reports3_def split: option.splits prod.splits)+

text \<open>The same walk through a function, with the value of each local cursor kept.\<close>

lemma answer_let_eq:
  "(\<And>l. l = e \<Longrightarrow> reports V (f l)) \<Longrightarrow> reports V (let l = (e :: 'k lexer) in f l)"
  "(\<And>l. l = e \<Longrightarrow> reports3 V (g l)) \<Longrightarrow> reports3 V (let l = (e :: 'k lexer) in g l)"
  "(\<And>l. l = e \<Longrightarrow> reports_opt V (h l)) \<Longrightarrow> reports_opt V (let l = (e :: 'k lexer) in h l)"
  by simp_all

lemmas answer_eq_rules =
  answer_leaf answer_if answer_let_eq answer_early reports_opt_rules(1-4,6,7)

text \<open>A call whose answer is returned as it is.\<close>

lemma answer_return [answer_rules]:
  "reports V p \<Longrightarrow> reports_opt V (let (b, l) = p in Some (b, s, l))"
  "reports V p \<Longrightarrow> reports3 V (let (b, l) = p in (b, s, l))"
  by (simp_all add: reports_opt_def reports3_def reports_def split_beta)

lemma reports_opt_eqI:
  "p = Some (True, s, l) \<Longrightarrow> reports_opt V p \<Longrightarrow> reports3 V (True, s, l)"
  by (simp add: reports_opt_def)

lemma reports_eqI: "p = (True, l) \<Longrightarrow> reports V p \<Longrightarrow> reports V (True, l)"
  by simp

lemma reports_eqI3: "p = (True, l) \<Longrightarrow> reports V p \<Longrightarrow> reports3 V (True, s, l)"
  by (simp add: reports_def reports3_def)

lemma reports3_eqI: "q = (True, s, l) \<Longrightarrow> reports3 V q \<Longrightarrow> reports3 V (True, s, l)"
  by simp

lemma reportsD: "reports V (True, l) \<Longrightarrow> \<exists>k. result_symbol l = Some k \<and> V k"
  by (simp add: reports_def)

lemma reports3D: "reports3 V (True, s, l) \<Longrightarrow> \<exists>k. result_symbol l = Some k \<and> V k"
  by (simp add: reports3_def)

lemma keepsD: "keeps s (False, s', l) \<Longrightarrow> s' = s"
  by (simp add: keeps_def)

section \<open>Sessions\<close>

text \<open>\<^verbatim>\<open>TREE_SITTER_SERIALIZATION_BUFFER_SIZE\<close>\<close>

definition serialization_buffer_size :: nat where
  "serialization_buffer_size = 1024"

type_synonym ('s, 'k) scan_fun = "'s \<Rightarrow> 'k lexer \<Rightarrow> ('k \<Rightarrow> bool) \<Rightarrow> (bool \<times> 's \<times> 'k lexer) option"

type_synonym 'k request = "'k lexer \<times> ('k \<Rightarrow> bool)"

text \<open>A scan that aborts the process (\<open>None\<close>) ends the session.\<close>

fun session_saved ::
  "('s, 'k) scan_fun \<Rightarrow> ('s \<Rightarrow> byte list) \<Rightarrow> ('s \<Rightarrow> byte list \<Rightarrow> 's) \<Rightarrow> 's \<Rightarrow> byte list \<Rightarrow>
   'k request list \<Rightarrow> (bool \<times> 'k lexer) list option" where
  "session_saved scan ser deser payload saved [] = Some []"
| "session_saved scan ser deser payload saved ((l, v) # rs) =
     (case scan (deser payload saved) l v of
        None \<Rightarrow> None
      | Some (ok, s', l') \<Rightarrow>
          map_option (Cons (ok, l'))
            (session_saved scan ser deser s' (if ok then ser s' else saved) rs))"

fun session_direct ::
  "('s, 'k) scan_fun \<Rightarrow> 's \<Rightarrow> 'k request list \<Rightarrow> (bool \<times> 'k lexer) list option" where
  "session_direct scan s [] = Some []"
| "session_direct scan s ((l, v) # rs) =
     (case scan s l v of
        None \<Rightarrow> None
      | Some (ok, s', l') \<Rightarrow>
          map_option (Cons (ok, l')) (session_direct scan (if ok then s' else s) rs))"

section \<open>Storing and restoring a state\<close>

locale scanner_codec =
  fixes create :: 's
    and storable :: "'s \<Rightarrow> bool"
    and serialize :: "'s \<Rightarrow> byte list"
    and deserialize :: "'s \<Rightarrow> byte list \<Rightarrow> 's"
  assumes storable_create: "storable create"
    and serialize_fits: "storable s \<Longrightarrow> length (serialize s) \<le> serialization_buffer_size"
    and restore: "storable s \<Longrightarrow> deserialize t (serialize s) = s"
begin

lemma serialize_inj: "storable s \<Longrightarrow> storable t \<Longrightarrow> serialize s = serialize t \<Longrightarrow> s = t"
  using restore by metis

lemma restore_twice:
  "storable s \<Longrightarrow> deserialize u (serialize (deserialize t (serialize s))) = s"
  by (simp add: restore)

end

section \<open>A scanner whose states may outgrow the buffer\<close>

text \<open>
  \<open>session_fits\<close>: every state the session passes through can be stored. A scanner whose state has no
  bound keeps the protocol's promise for such sessions.
\<close>

fun session_fits :: "('s \<Rightarrow> bool) \<Rightarrow> ('s, 'k) scan_fun \<Rightarrow> 's \<Rightarrow> 'k request list \<Rightarrow> bool" where
  "session_fits storable scan s [] = storable s"
| "session_fits storable scan s ((l, v) # rs) =
     (storable s \<and>
      (case scan s l v of None \<Rightarrow> True
       | Some (ok, s', l') \<Rightarrow> session_fits storable scan (if ok then s' else s) rs))"

locale storing_scanner = scanner_codec create storable serialize deserialize
  for create :: 's and storable :: "'s \<Rightarrow> bool"
    and serialize :: "'s \<Rightarrow> byte list" and deserialize :: "'s \<Rightarrow> byte list \<Rightarrow> 's" +
  fixes scan :: "('s, 'k) scan_fun"
  assumes scan_runs: "scan s l v = Some (ok, s', l') \<Longrightarrow> runs l l'"
begin

lemma session_fits_storable: "session_fits storable scan s rs \<Longrightarrow> storable s"
  by (cases rs) auto

lemma session_saved_fits:
  "session_fits storable scan s rs \<Longrightarrow>
    session_saved scan serialize deserialize t (serialize s) rs = session_direct scan s rs"
proof (induction rs arbitrary: s t)
  case (Cons r rs)
  obtain l v where "r = (l, v)" by (cases r)
  with Cons show ?case
    by (auto simp: restore split: option.splits)
qed simp

lemma session_lexers_run:
  "session_direct scan s rs = Some outs \<Longrightarrow> list_all2 (\<lambda>(l, _) (_, l'). runs l l') rs outs"
proof (induction rs arbitrary: s outs)
  case (Cons r rs)
  obtain l v where "r = (l, v)" by (cases r)
  with Cons show ?case
    by (auto simp: scan_runs split: option.splits)
qed simp

end

section \<open>A scanner whose scans keep its state storable\<close>

locale external_scanner = storing_scanner create storable serialize deserialize scan
  for create :: 's and storable :: "'s \<Rightarrow> bool"
    and serialize :: "'s \<Rightarrow> byte list" and deserialize :: "'s \<Rightarrow> byte list \<Rightarrow> 's"
    and scan :: "('s, 'k) scan_fun" +
  assumes scan_storable: "storable s \<Longrightarrow> scan s l v = Some (ok, s', l') \<Longrightarrow> storable s'"
begin

lemma session_always_fits: "storable s \<Longrightarrow> session_fits storable scan s rs"
proof (induction rs arbitrary: s)
  case (Cons r rs)
  obtain l v where "r = (l, v)" by (cases r)
  with Cons show ?case by (auto simp: scan_storable split: option.splits)
qed simp

lemma session_saved_direct:
  "storable s \<Longrightarrow> session_saved scan serialize deserialize t (serialize s) rs = session_direct scan s rs"
  by (simp add: session_saved_fits session_always_fits)

end

section \<open>A scanner that an empty buffer resets\<close>

locale resetting_scanner = external_scanner create storable serialize deserialize scan
  for create :: 's and storable :: "'s \<Rightarrow> bool"
    and serialize :: "'s \<Rightarrow> byte list" and deserialize :: "'s \<Rightarrow> byte list \<Rightarrow> 's"
    and scan :: "('s, 'k) scan_fun" +
  assumes reset: "deserialize t [] = create"
begin

text \<open>A parse starts from the state of \<open>create\<close>, whatever the parser object scanned before.\<close>

lemma session_fresh:
  "session_saved scan serialize deserialize payload [] rs = session_direct scan create rs"
proof (induction rs arbitrary: payload)
  case (Cons r rs)
  obtain l v where "r = (l, v)" by (cases r)
  with Cons show ?case
    by (auto simp: reset session_saved_direct scan_storable [OF storable_create] split: option.splits)
qed simp

end

end
