(* ===== verification/Lua.thy ===== *)
theory Lua
  imports Scanner_Interface
begin

text \<open>
  \<^verbatim>\<open>codegraph-kernel/grammars/lua/scanner.c\<close>: the long brackets of Lua, \<open>[=*[ ... ]=*]\<close>, as block
  strings and block comments. The state is the level of the bracket that is open
  (\<open>level_count\<close>, a \<open>uint8_t\<close>) and a character that ends a comment (\<open>ending_char\<close>, which no
  function of the file ever sets to anything but 0).
\<close>

section \<open>State\<close>

datatype lua_token =
    BLOCK_COMMENT_START | BLOCK_COMMENT_CONTENT | BLOCK_COMMENT_END
  | BLOCK_STRING_START | BLOCK_STRING_CONTENT | BLOCK_STRING_END

record lua_scanner =
  ending_char :: byte
  level_count :: byte

definition reset_state :: "lua_scanner \<Rightarrow> lua_scanner" where
  "reset_state s = s\<lparr>ending_char := 0, level_count := 0\<rparr>"

definition lua_create :: lua_scanner where
  "lua_create = \<lparr>ending_char = 0, level_count = 0\<rparr>"

definition lua_serialize :: "lua_scanner \<Rightarrow> byte list" where
  "lua_serialize s = [ending_char s, level_count s]"

fun lua_deserialize :: "lua_scanner \<Rightarrow> byte list \<Rightarrow> lua_scanner" where
  "lua_deserialize s [] = s"
| "lua_deserialize s [a] = s\<lparr>ending_char := a\<rparr>"
| "lua_deserialize s (a # b # _) = s\<lparr>ending_char := a, level_count := b\<rparr>"

section \<open>Scanning\<close>

definition consume_char :: "code_point \<Rightarrow> 'k lexer \<Rightarrow> bool \<times> 'k lexer" where
  "consume_char c l = (if lookahead l \<noteq> c then (False, l) else (True, advance l))"

text \<open>The loop's count is a \<open>uint8_t\<close>: it wraps. The character is never 0.\<close>

function consume_and_count :: "code_point \<Rightarrow> byte \<Rightarrow> 'k lexer \<Rightarrow> byte \<times> 'k lexer" where
  "consume_and_count c n l =
     (if \<not> eof l \<and> lookahead l = c then consume_and_count c (n + 1) (advance l) else (n, l))"
  by pat_completeness auto
termination by (relation "measure (\<lambda>(_, _, l). remaining l)") auto

declare consume_and_count.simps [simp del]

definition consume_and_count_char :: "code_point \<Rightarrow> 'k lexer \<Rightarrow> byte \<times> 'k lexer" where
  "consume_and_count_char c l = consume_and_count c 0 l"

definition skip_whitespaces :: "'k lexer \<Rightarrow> 'k lexer" where
  "skip_whitespaces l = advance_while iswspace True l"

definition scan_block_start ::
  "lua_scanner \<Rightarrow> 'k lexer \<Rightarrow> bool \<times> lua_scanner \<times> 'k lexer" where
  "scan_block_start s l =
     (let (b, l) = consume_char c_lbrack l in
      if b then
        let (level, l) = consume_and_count_char c_eq l;
            (b, l) = consume_char c_lbrack l in
        if b then (True, s\<lparr>level_count := level\<rparr>, l) else (False, s, l)
      else (False, s, l))"

definition scan_block_end :: "lua_scanner \<Rightarrow> 'k lexer \<Rightarrow> bool \<times> 'k lexer" where
  "scan_block_end s l =
     (let (b, l) = consume_char c_rbrack l in
      if b then
        let (level, l) = consume_and_count_char c_eq l in
        if level_count s = level then consume_char c_rbrack l else (False, l)
      else (False, l))"

lemma fwd_consume_char [runs_rules]: "runs l0 l \<Longrightarrow> fwd l0 (consume_char c l)"
  by (auto simp: consume_char_def intro!: runs_rules)

lemma fwd_consume_and_count: "runs l0 l \<Longrightarrow> fwd l0 (consume_and_count c n l)"
proof (induction c n l rule: consume_and_count.induct)
  case (1 c n l)
  then show ?case by (subst consume_and_count.simps) (auto intro!: runs_rules)
qed

lemma fwd_consume_and_count_char [runs_rules]:
  "runs l0 l \<Longrightarrow> fwd l0 (consume_and_count_char c l)"
  by (simp add: consume_and_count_char_def fwd_consume_and_count)

lemma runs_skip_whitespaces [runs_rules]: "runs l0 l \<Longrightarrow> runs l0 (skip_whitespaces l)"
  by (simp add: skip_whitespaces_def runs_advance_while)

lemma fwd3_scan_block_start [runs_rules]: "runs l0 l \<Longrightarrow> fwd3 l0 (scan_block_start s l)"
  unfolding scan_block_start_def by (intro runs_rules)

lemma fwd_scan_block_end [runs_rules]: "runs l0 l \<Longrightarrow> fwd l0 (scan_block_end s l)"
  unfolding scan_block_end_def by (intro runs_rules)

lemma scan_block_end_progress:
  assumes "lookahead l = c_rbrack"
  shows "remaining (snd (scan_block_end s l)) < remaining l"
proof -
  from assms have l: "\<not> eof l" by (intro lookahead_nonzero) simp
  have "fwd (advance l) (scan_block_end s l)"
    using assms by (auto simp: scan_block_end_def consume_char_def intro!: runs_rules)
  then show ?thesis
    using l by (auto dest!: fwd_remaining intro: le_less_trans remaining_advance_less)
qed

function scan_block_content :: "lua_scanner \<Rightarrow> 'k lexer \<Rightarrow> bool \<times> 'k lexer" where
  "scan_block_content s l =
     (if lookahead l \<noteq> 0 then
        if lookahead l = c_rbrack then
          let (b, l') = scan_block_end s (mark_end l) in
          if b then (True, l') else scan_block_content s l'
        else scan_block_content s (advance l)
      else (False, l))"
  by pat_completeness auto
termination
proof (relation "measure (\<lambda>(_, l). remaining l)", goal_cases)
  case (2 s l x b l')
  then show ?case using scan_block_end_progress [of "mark_end l" s] by (auto simp: prod_eq_iff)
qed auto

declare scan_block_content.simps [simp del]

definition scan_comment_start ::
  "lua_scanner \<Rightarrow> lua_token lexer \<Rightarrow> bool \<times> lua_scanner \<times> lua_token lexer" where
  "scan_comment_start s l =
     (let (b, l) = consume_char c_minus l in
      if b then
        let (b, l) = consume_char c_minus l in
        if b then
          let l = mark_end l;
              (b, s, l) = scan_block_start s l in
          if b then (True, s, set_result BLOCK_COMMENT_START (mark_end l)) else (False, s, l)
        else (False, s, l)
      else (False, s, l))"

text \<open>The second loop of \<open>scan_comment_content\<close>, for a comment that ends with \<open>ending_char\<close>.\<close>

function scan_to_ending_char ::
  "lua_scanner \<Rightarrow> lua_token lexer \<Rightarrow> bool \<times> lua_scanner \<times> lua_token lexer" where
  "scan_to_ending_char s l =
     (if lookahead l \<noteq> 0 then
        if lookahead l = char_val (ending_char s)
        then (True, reset_state s, set_result BLOCK_COMMENT_CONTENT l)
        else scan_to_ending_char s (advance l)
      else (False, s, l))"
  by pat_completeness auto
termination by (relation "measure (\<lambda>(_, l). remaining l)") auto

declare scan_to_ending_char.simps [simp del]

definition scan_comment_content ::
  "lua_scanner \<Rightarrow> lua_token lexer \<Rightarrow> bool \<times> lua_scanner \<times> lua_token lexer" where
  "scan_comment_content s l =
     (if ending_char s = 0 then
        let (b, l) = scan_block_content s l in
        if b then (True, s, set_result BLOCK_COMMENT_CONTENT l) else (False, s, l)
      else scan_to_ending_char s l)"

definition lua_scan ::
  "lua_scanner \<Rightarrow> lua_token lexer \<Rightarrow> (lua_token \<Rightarrow> bool) \<Rightarrow>
   bool \<times> lua_scanner \<times> lua_token lexer" where
  "lua_scan s l valid =
     (let (b, l) = (if valid BLOCK_STRING_END then scan_block_end s l else (False, l)) in
      if b then (True, reset_state s, set_result BLOCK_STRING_END l) else
      let (b, l) = (if valid BLOCK_STRING_CONTENT then scan_block_content s l else (False, l)) in
      if b then (True, s, set_result BLOCK_STRING_CONTENT l) else
      let (b, l) = (if valid BLOCK_COMMENT_END \<and> ending_char s = 0
                    then scan_block_end s l else (False, l)) in
      if b then (True, reset_state s, set_result BLOCK_COMMENT_END l) else
      let (b, s, l) = (if valid BLOCK_COMMENT_CONTENT
                       then scan_comment_content s l else (False, s, l)) in
      if b then (True, s, l) else
      let l = skip_whitespaces l;
          (b, s, l) = (if valid BLOCK_STRING_START then scan_block_start s l else (False, s, l)) in
      if b then (True, s, set_result BLOCK_STRING_START l) else
      if valid BLOCK_COMMENT_START then
        let (b, s, l) = scan_comment_start s l in
        if b then (True, s, l) else (False, s, l)
      else (False, s, l))"

section \<open>The cursor, the result symbol, the state\<close>

lemma fwd_scan_block_content [runs_rules]: "runs l0 l \<Longrightarrow> fwd l0 (scan_block_content s l)"
proof (induction s l rule: scan_block_content.induct)
  case (1 s l)
  then show ?case
    by (subst scan_block_content.simps)
      (auto simp: fwd_def split: prod.splits dest!: fwd_scan_block_end [OF runs_mark_end, of l0 l s])
qed

lemma fwd3_scan_comment_start [runs_rules]: "runs l0 l \<Longrightarrow> fwd3 l0 (scan_comment_start s l)"
  unfolding scan_comment_start_def by (intro runs_rules)

lemma fwd3_scan_to_ending_char: "runs l0 l \<Longrightarrow> fwd3 l0 (scan_to_ending_char s l)"
proof (induction s l rule: scan_to_ending_char.induct)
  case (1 s l)
  then show ?case by (subst scan_to_ending_char.simps) (auto intro!: runs_rules)
qed

lemma fwd3_scan_comment_content [runs_rules]: "runs l0 l \<Longrightarrow> fwd3 l0 (scan_comment_content s l)"
  unfolding scan_comment_content_def by (intro runs_rules fwd3_scan_to_ending_char)

lemma fwd3_lua_scan [runs_rules]: "runs l0 l \<Longrightarrow> fwd3 l0 (lua_scan s l valid)"
  unfolding lua_scan_def by (intro runs_rules)

section \<open>Long brackets\<close>

text \<open>
  Over the text ahead: the run of \<open>=\<close> that follows a bracket, whether a text opens or closes a
  bracket (of a level, as a \<open>uint8_t\<close>), and the offset of the first closing bracket before the
  end of the text or a NUL.
\<close>

definition eq_run :: "code_point list \<Rightarrow> nat" where
  "eq_run cs = length (takeWhile (\<lambda>c. c = c_eq) cs)"

definition opens :: "code_point list \<Rightarrow> bool" where
  "opens cs \<longleftrightarrow> (case cs of [] \<Rightarrow> False | c # r \<Rightarrow>
     c = c_lbrack \<and> (case drop (eq_run r) r of [] \<Rightarrow> False | d # _ \<Rightarrow> d = c_lbrack))"

definition closes :: "byte \<Rightarrow> code_point list \<Rightarrow> bool" where
  "closes level cs \<longleftrightarrow> (case cs of [] \<Rightarrow> False | c # r \<Rightarrow>
     c = c_rbrack \<and> of_nat (eq_run r) = level \<and>
     (case drop (eq_run r) r of [] \<Rightarrow> False | d # _ \<Rightarrow> d = c_rbrack))"

fun first_close :: "byte \<Rightarrow> code_point list \<Rightarrow> nat option" where
  "first_close level [] = None"
| "first_close level (c # cs) =
     (if c = 0 then None
      else if closes level (c # cs) then Some 0
      else map_option Suc (first_close level cs))"

lemma eq_run_le: "eq_run cs \<le> length cs"
  by (simp add: eq_run_def length_takeWhile_le)

lemma consume_and_count_eq:
  "consume_and_count c n l =
     (n + of_nat (length (takeWhile (\<lambda>x. x = c) (text_ahead l))),
      advance_n False (length (takeWhile (\<lambda>x. x = c) (text_ahead l))) l)"
proof (induction c n l rule: consume_and_count.induct)
  case (1 c n l)
  then show ?case
    by (subst consume_and_count.simps)
      (cases "ahead l"; simp add: advance_n_Suc lookahead_def eof_def)
qed

lemma consume_and_count_char_eq:
  "consume_and_count_char c_eq l =
     (of_nat (eq_run (text_ahead l)), advance_n False (eq_run (text_ahead l)) l)"
  by (simp add: consume_and_count_char_def consume_and_count_eq eq_run_def)

lemma scan_block_start_eq:
  "scan_block_start s l =
     (if opens (text_ahead l)
      then (True, s\<lparr>level_count := of_nat (eq_run (tl (text_ahead l)))\<rparr>,
            advance_n False (eq_run (tl (text_ahead l)) + 2) l)
      else if lookahead l = c_lbrack
      then (False, s, advance_n False (eq_run (tl (text_ahead l)) + 1) l)
      else (False, s, l))"
  by (cases "ahead l")
    (auto simp: scan_block_start_def consume_char_def consume_and_count_char_eq opens_def
      lookahead_def lex_advance_advance_n advance_n_Suc drop_map lookahead_advance_n map_tl
      split: list.splits)

lemma scan_block_end_eq:
  "scan_block_end s l =
     (if closes (level_count s) (text_ahead l)
      then (True, advance_n False (eq_run (tl (text_ahead l)) + 2) l)
      else if lookahead l = c_rbrack
      then (False, advance_n False (eq_run (tl (text_ahead l)) + 1) l)
      else (False, l))"
  by (cases "ahead l")
    (auto simp: scan_block_end_def consume_char_def consume_and_count_char_eq closes_def
      lookahead_def lex_advance_advance_n advance_n_Suc drop_map lookahead_advance_n map_tl
      split: list.splits)

lemma closes_eq_run: "\<not> closes level (c_eq # cs)"
  by (simp add: closes_def)

text \<open>What a failed attempt consumed cannot hold the start of a closing bracket.\<close>

lemma first_close_eqs:
  "n \<le> eq_run cs \<Longrightarrow> first_close level cs = map_option ((+) n) (first_close level (drop n cs))"
proof (induction n arbitrary: cs)
  case (Suc n)
  then obtain cs' where cs: "cs = c_eq # cs'" and "n \<le> eq_run cs'"
    by (cases cs) (auto simp: eq_run_def split: if_splits)
  then show ?case
    by (simp add: Suc.IH closes_eq_run option.map_comp comp_def)
qed (simp add: option.map_ident_strong)

lemma scan_block_content_first_close:
  "case first_close (level_count s) (text_ahead l) of
     None \<Rightarrow> \<not> fst (scan_block_content s l)
   | Some i \<Rightarrow> scan_block_content s l =
       (True, advance_n False (eq_run (tl (drop i (text_ahead l))) + 2) (mark_end (advance_n False i l)))"
proof (induction s l rule: scan_block_content.induct)
  case (1 s l)
  show ?case
  proof (cases "lookahead l = 0")
    case True
    then show ?thesis
      by (cases "ahead l") (simp_all add: scan_block_content.simps [of s l] lookahead_def)
  next
    case nonzero: False
    then obtain c cs where ahd: "text_ahead l = c # cs" and c: "lookahead l = c" "c \<noteq> 0"
      by (metis text_ahead_nonzero)
    show ?thesis
    proof (cases "c = c_rbrack \<and> \<not> closes (level_count s) (c # cs)")
      case True
      then have c93: "c = c_rbrack" and nc: "\<not> closes (level_count s) (c_rbrack # cs)"
        by auto
      define e where "e = eq_run cs"
      let ?l = "advance_n False (e + 1) (mark_end l)"
      have end_False: "scan_block_end s (mark_end l) = (False, ?l)"
        using c93 nc ahd c by (auto simp: scan_block_end_eq e_def)
      then have "scan_block_content s l = scan_block_content s ?l"
        using c93 c by (subst scan_block_content.simps) simp
      moreover have "text_ahead ?l = drop e cs"
        using ahd by (simp add: drop_map [symmetric])
      moreover have "first_close (level_count s) (c # cs) =
          map_option (\<lambda>i. Suc (e + i)) (first_close (level_count s) (drop e cs))"
        using c93 nc c first_close_eqs [of e cs "level_count s"]
        by (simp add: e_def option.map_comp comp_def)
      ultimately show ?thesis
        using "1.IH"(1) [OF nonzero, of "(False, ?l)" False ?l] c93 c ahd end_False
        by (auto simp: advance_n_add add.commute split: option.splits)
    next
      case False
      then show ?thesis
      proof (cases "c = c_rbrack")
        case True
        with False ahd c have "scan_block_end s (mark_end l) =
            (True, advance_n False (eq_run cs + 2) (mark_end l))"
          by (simp add: scan_block_end_eq)
        with False True c ahd show ?thesis
          by (subst scan_block_content.simps) simp
      next
        case noend: False
        then have "\<not> closes (level_count s) (c # cs)" by (simp add: closes_def)
        moreover have "scan_block_content s l = scan_block_content s (advance l)"
          using noend c by (subst scan_block_content.simps) simp
        moreover have "text_ahead (advance l) = cs"
          using ahd by (simp add: map_tl)
        ultimately show ?thesis
          using "1.IH"(2) [OF nonzero] noend c ahd
          by (auto simp: advance_n_Suc split: option.splits)
      qed
    qed
  qed
qed

text \<open>\<open>first_close\<close> is the least offset of a closing bracket, and nothing before it is a NUL.\<close>

lemma first_close_SomeD:
  "first_close level cs = Some i \<Longrightarrow>
     i < length cs \<and> closes level (drop i cs) \<and> (\<forall>j<i. \<not> closes level (drop j cs)) \<and>
     0 \<notin> set (take i cs)"
proof (induction level cs arbitrary: i rule: first_close.induct)
  case (2 level c cs)
  show ?case
  proof (cases i)
    case 0
    with 2 show ?thesis by (auto split: if_splits)
  next
    case (Suc k)
    with "2.prems" have c: "c \<noteq> 0" "\<not> closes level (c # cs)" and "first_close level cs = Some k"
      by (auto split: if_splits)
    with "2.IH" have "k < length cs \<and> closes level (drop k cs) \<and>
        (\<forall>j<k. \<not> closes level (drop j cs)) \<and> 0 \<notin> set (take k cs)"
      by blast
    with c Suc show ?thesis by (auto simp: less_Suc_eq_0_disj)
  qed
qed simp

lemma first_close_SomeI:
  "i < length cs \<Longrightarrow> closes level (drop i cs) \<Longrightarrow> (\<And>j. j < i \<Longrightarrow> \<not> closes level (drop j cs)) \<Longrightarrow>
     0 \<notin> set (take i cs) \<Longrightarrow> first_close level cs = Some i"
proof (induction level cs arbitrary: i rule: first_close.induct)
  case (2 level c cs)
  show ?case
  proof (cases i)
    case 0
    with "2.prems" show ?thesis by (auto simp: closes_def)
  next
    case (Suc k)
    from "2.prems"(3) [of 0] Suc have nc: "\<not> closes level (c # cs)" by simp
    from "2.prems"(4) Suc have c: "c \<noteq> 0" by auto
    have "first_close level cs = Some k"
    proof (rule "2.IH" [OF c nc])
      show "\<not> closes level (drop j cs)" if "j < k" for j
        using "2.prems"(3) [of "Suc j"] that Suc by simp
    qed (use "2.prems" Suc in auto)
    with c nc Suc show ?thesis by simp
  qed
qed simp

text \<open>A bracket with \<open>m\<close> equality signs.\<close>

abbreviation bracket :: "code_point \<Rightarrow> nat \<Rightarrow> code_point list" where
  "bracket c m \<equiv> c # replicate m c_eq @ [c]"

lemma eq_run_replicate [simp]: "c \<noteq> c_eq \<Longrightarrow> eq_run (replicate m c_eq @ c # rest) = m"
  by (simp add: eq_run_def takeWhile_append)

lemma opens_bracket [simp]: "opens (c_lbrack # replicate m c_eq @ c_lbrack # rest)"
  by (simp add: opens_def)

lemma closes_bracket [simp]:
  "closes level (c_rbrack # replicate m c_eq @ c_rbrack # rest) \<longleftrightarrow> of_nat m = level"
  by (simp add: closes_def)

lemma skip_whitespaces_none: "\<not> iswspace (lookahead l) \<Longrightarrow> skip_whitespaces l = l"
  by (simp add: skip_whitespaces_def advance_while_unfold)

section \<open>The parser's view\<close>

definition lua_scan_fun :: "(lua_scanner, lua_token) scan_fun" where
  "lua_scan_fun s l valid = Some (lua_scan s l valid)"

lemma keeps_scan_block_start [answer_rules]: "keeps s (scan_block_start s l)"
  by (simp add: scan_block_start_eq keeps_def)

lemma keeps_scan_comment_start [answer_rules]: "keeps s (scan_comment_start s l)"
  unfolding scan_comment_start_def by (intro answer_rules)

lemma keeps_scan_to_ending_char [answer_rules]: "keeps s (scan_to_ending_char s l)"
proof (induction s l rule: scan_to_ending_char.induct)
  case (1 s l)
  then show ?case by (subst scan_to_ending_char.simps) (auto intro: answer_rules)
qed

lemma keeps_scan_comment_content [answer_rules]: "keeps s (scan_comment_content s l)"
  unfolding scan_comment_content_def by (intro answer_rules)

lemma reports_scan_comment_start:
  "V BLOCK_COMMENT_START \<Longrightarrow> reports3 V (scan_comment_start s l)"
  unfolding scan_comment_start_def by (intro answer_rules) simp

lemma reports_scan_to_ending_char:
  "V BLOCK_COMMENT_CONTENT \<Longrightarrow> reports3 V (scan_to_ending_char s l)"
proof (induction s l rule: scan_to_ending_char.induct)
  case (1 s l)
  then show ?case by (subst scan_to_ending_char.simps) (auto intro: answer_rules)
qed

lemma reports_scan_comment_content:
  "V BLOCK_COMMENT_CONTENT \<Longrightarrow> reports3 V (scan_comment_content s l)"
  unfolding scan_comment_content_def
  by (intro answer_rules reports_scan_to_ending_char) simp

lemma keeps_lua_scan: "keeps s (lua_scan s l valid)"
  unfolding lua_scan_def by (intro answer_rules)

lemma reports_lua_scan: "reports3 valid (lua_scan s l valid)"
  unfolding lua_scan_def
  by (intro answer_rules)
    (auto split: if_splits
      intro: reports3_eqI reports_scan_comment_start reports_scan_comment_content)

interpretation lua: external_scanner lua_create "\<lambda>_. True" lua_serialize lua_deserialize lua_scan_fun
proof unfold_locales
  fix s l valid ok s' l'
  assume "lua_scan_fun s l valid = Some (ok, s', l')"
  then have "lua_scan s l valid = (ok, s', l')" by (simp add: lua_scan_fun_def)
  then show "runs l l'"
    using fwd3_lua_scan [OF runs_refl, of l s valid] by (simp add: fwd3D)
qed (simp_all add: lua_serialize_def serialization_buffer_size_def)

lemma lua_start_bracket:
  assumes "text_ahead l = bracket c_lbrack m @ rest"
  shows "lua_scan s l (\<lambda>k. k = BLOCK_STRING_START) =
    (True, s\<lparr>level_count := of_nat m\<rparr>, set_result BLOCK_STRING_START (advance_n False (m + 2) l))"
proof -
  have "skip_whitespaces l = l"
    using assms by (intro skip_whitespaces_none) (simp add: lookahead_text iswspace_def)
  moreover have "scan_block_start s l =
      (True, s\<lparr>level_count := of_nat m\<rparr>, advance_n False (m + 2) l)"
    unfolding scan_block_start_eq assms by simp
  ultimately show ?thesis by (simp add: lua_scan_def)
qed

lemma lua_end_bracket:
  assumes "text_ahead l = bracket c_rbrack m @ rest" and "level_count s = of_nat m"
  shows "lua_scan s l (\<lambda>k. k = BLOCK_STRING_END) =
    (True, reset_state s, set_result BLOCK_STRING_END (advance_n False (m + 2) l))"
proof -
  have "scan_block_end s l = (True, advance_n False (m + 2) l)"
    unfolding scan_block_end_eq assms by simp
  then show ?thesis by (simp add: lua_scan_def)
qed

section \<open>Properties\<close>

text \<open>C5. A long bracket string, from its opening bracket with \<open>m\<close> equality signs over a body in
  which no closing bracket of the same level starts, is scanned as exactly three tokens: the opening
  bracket, which sets the level, the body, whose token ends where the closing bracket starts, and
  the closing bracket, which resets the state.\<close>

theorem lua_long_bracket_tokens:
  assumes input: "List.map cp cs = bracket c_lbrack m @ body @ bracket c_rbrack m @ rest"
    and body: "first_close (of_nat m) (body @ bracket c_rbrack m @ rest) = Some (length body)"
  shows "\<exists>l1 l2 l3.
    lua_scan lua_create (lexer_at cs e 0) (\<lambda>k. k = BLOCK_STRING_START) =
      (True, lua_create\<lparr>level_count := of_nat m\<rparr>, l1) \<and>
    result_symbol l1 = Some BLOCK_STRING_START \<and> token_end l1 = m + 2 \<and>
    lua_scan (lua_create\<lparr>level_count := of_nat m\<rparr>) (lexer_at cs e (m + 2))
      (\<lambda>k. k = BLOCK_STRING_CONTENT) = (True, lua_create\<lparr>level_count := of_nat m\<rparr>, l2) \<and>
    result_symbol l2 = Some BLOCK_STRING_CONTENT \<and> token_end l2 = m + 2 + length body \<and>
    lua_scan (lua_create\<lparr>level_count := of_nat m\<rparr>) (lexer_at cs e (m + 2 + length body))
      (\<lambda>k. k = BLOCK_STRING_END) = (True, lua_create, l3) \<and>
    result_symbol l3 = Some BLOCK_STRING_END \<and> token_end l3 = m + 2 + length body + m + 2"
proof -
  let ?s1 = "lua_create\<lparr>level_count := of_nat m\<rparr>"
  let ?a = "m + 2"
  let ?b = "?a + length body"
  define l1 :: "lua_token lexer" where "l1 = advance_n False ?a (lexer_at cs e 0)"
  define l2 :: "lua_token lexer" where
    "l2 = advance_n False ?a (mark_end (advance_n False (length body) (lexer_at cs e ?a)))"
  define l3 :: "lua_token lexer" where "l3 = advance_n False ?a (lexer_at cs e ?b)"
  have len: "length cs = ?b + ?a + length rest"
    using arg_cong [OF input, of length] by simp
  have text2: "text_ahead (lexer_at cs e ?a) = body @ bracket c_rbrack m @ rest"
    and text3: "text_ahead (lexer_at cs e ?b) = bracket c_rbrack m @ rest"
    using input by (simp_all add: drop_map [symmetric])
  have 1: "lua_scan lua_create (lexer_at cs e 0) (\<lambda>k. k = BLOCK_STRING_START) =
      (True, ?s1, set_result BLOCK_STRING_START l1)"
    unfolding l1_def by (rule lua_start_bracket) (simp add: input)
  have "scan_block_content ?s1 (lexer_at cs e ?a) = (True, l2)"
    using scan_block_content_first_close [of ?s1 "lexer_at cs e ?a"] body
    unfolding text2 l2_def by simp
  then have 2: "lua_scan ?s1 (lexer_at cs e ?a) (\<lambda>k. k = BLOCK_STRING_CONTENT) =
      (True, ?s1, set_result BLOCK_STRING_CONTENT l2)"
    by (simp add: lua_scan_def)
  have 3: "lua_scan ?s1 (lexer_at cs e ?b) (\<lambda>k. k = BLOCK_STRING_END) =
      (True, lua_create, set_result BLOCK_STRING_END l3)"
    unfolding l3_def using lua_end_bracket [OF text3, of ?s1]
    by (simp add: reset_state_def lua_create_def)
  have "token_end l1 = ?a" "token_end l2 = ?b" "token_end l3 = ?b + m + 2"
    using len by (simp_all add: token_end_def l1_def l2_def l3_def pos_advance_n)
  with 1 2 3 show ?thesis
    by (intro exI [of _ "set_result BLOCK_STRING_START l1"]
        exI [of _ "set_result BLOCK_STRING_CONTENT l2"]
        exI [of _ "set_result BLOCK_STRING_END l3"]) simp
qed

theorem lua_long_bracket_tokens_witness:
  "\<exists>l1 l2 l3.
    lua_scan lua_create (lexer_at (cells_of 0 (codes ''[=[a]]=b]=]'')) end_cell 0)
      (\<lambda>k. k = BLOCK_STRING_START) = (True, lua_create\<lparr>level_count := of_nat 1\<rparr>, l1) \<and>
    result_symbol l1 = Some BLOCK_STRING_START \<and> token_end l1 = 1 + 2 \<and>
    lua_scan (lua_create\<lparr>level_count := of_nat 1\<rparr>)
      (lexer_at (cells_of 0 (codes ''[=[a]]=b]=]'')) end_cell (1 + 2))
      (\<lambda>k. k = BLOCK_STRING_CONTENT) = (True, lua_create\<lparr>level_count := of_nat 1\<rparr>, l2) \<and>
    result_symbol l2 = Some BLOCK_STRING_CONTENT \<and> token_end l2 = 1 + 2 + length (codes ''a]]=b'') \<and>
    lua_scan (lua_create\<lparr>level_count := of_nat 1\<rparr>)
      (lexer_at (cells_of 0 (codes ''[=[a]]=b]=]'')) end_cell (1 + 2 + length (codes ''a]]=b'')))
      (\<lambda>k. k = BLOCK_STRING_END) = (True, lua_create, l3) \<and>
    result_symbol l3 = Some BLOCK_STRING_END \<and> token_end l3 = 1 + 2 + length (codes ''a]]=b'') + 1 + 2"
  by (rule lua_long_bracket_tokens [where rest = "[]"]) (simp_all add: closes_def eq_run_def)

text \<open>C21. The level is a \<open>uint8_t\<close>: a bracket opened with \<open>m + 256\<close> equality signs sets the same level
as one with \<open>m\<close>, and a closing bracket with \<open>m\<close> equality signs closes it, which the Lua manual does
not allow.\<close>

theorem lua_level_wraps:
  assumes input: "List.map cp cs = bracket c_lbrack (m + 256) @ bracket c_rbrack m @ rest"
  shows "\<exists>l1 l2.
    lua_scan lua_create (lexer_at cs e 0) (\<lambda>k. k = BLOCK_STRING_START) =
      (True, lua_create\<lparr>level_count := of_nat m\<rparr>, l1) \<and>
    lua_scan (lua_create\<lparr>level_count := of_nat m\<rparr>) (lexer_at cs e (m + 258))
      (\<lambda>k. k = BLOCK_STRING_END) = (True, lua_create, l2)"
proof -
  have wrap: "of_nat (m + 256) = (of_nat m :: byte)"
    by (simp add: word_eq_iff_unsigned)
  have text2: "text_ahead (lexer_at cs e (m + 258)) = bracket c_rbrack m @ rest"
    using input by (simp add: drop_map [symmetric] drop_Cons')
  show ?thesis
    using lua_start_bracket [of "lexer_at cs e 0" "m + 256" "bracket c_rbrack m @ rest" lua_create]
      lua_end_bracket [OF text2, of "lua_create\<lparr>level_count := of_nat m\<rparr>"] input
    by (simp add: wrap reset_state_def lua_create_def)
qed

theorem lua_level_wraps_witness:
  "\<exists>l1 l2.
    lua_scan lua_create
      (lexer_at (cells_of 0 (bracket c_lbrack (0 + 256) @ bracket c_rbrack 0 @ [])) end_cell 0)
      (\<lambda>k. k = BLOCK_STRING_START) = (True, lua_create\<lparr>level_count := of_nat 0\<rparr>, l1) \<and>
    lua_scan (lua_create\<lparr>level_count := of_nat 0\<rparr>)
      (lexer_at (cells_of 0 (bracket c_lbrack (0 + 256) @ bracket c_rbrack 0 @ [])) end_cell (0 + 258))
      (\<lambda>k. k = BLOCK_STRING_END) = (True, lua_create, l2)"
proof -
  let ?input = "bracket c_lbrack (0 + 256) @ bracket c_rbrack 0 @ []"
  have "List.map cp (cells_of 0 ?input) = ?input" by (rule map_cp_cells_of)
  then show ?thesis by (rule lua_level_wraps [where m = 0 and rest = "[]"])
qed

text \<open>C22. A successful scan reports a token that the parser said is valid, and a failed scan leaves the
scanner's state as it was.\<close>

theorem lua_scan_symbol:
  assumes "lua_scan s l valid = (ok, s', l')"
  shows "if ok then \<exists>k. result_symbol l' = Some k \<and> valid k else s' = s"
  using reports_lua_scan [of valid s l] keeps_lua_scan [of s l valid] assms
  by (auto simp: reports3_def keeps_def)

theorem lua_scan_symbol_witness:
  "if True then \<exists>k. result_symbol
       (set_result BLOCK_STRING_START (advance_n False (1 + 2) (lexer_on (codes ''[=[''))))
       = Some k \<and> k = BLOCK_STRING_START
   else lua_create\<lparr>level_count := of_nat 1\<rparr> = lua_create"
  by (rule lua_scan_symbol [of lua_create "lexer_on (codes ''[=['')" "\<lambda>k. k = BLOCK_STRING_START"])
    (rule lua_start_bracket [where rest = "[]"],
      simp add: lexer_on_def start_lexer_def)

text \<open>C15. Scanning with the state stored and restored around every token, from a new scanner and an empty
buffer, gives what scanning with one live state gives.\<close>

theorem lua_session:
  "session_saved lua_scan_fun lua_serialize lua_deserialize lua_create [] rs =
   session_direct lua_scan_fun lua_create rs"
proof (induction rs)
  case (Cons r rs)
  obtain l v where r: "r = (l, v)" by (cases r)
  obtain ok s' l' where scan: "lua_scan lua_create l v = (ok, s', l')"
    by (cases "lua_scan lua_create l v") auto
  then have step: "lua_scan_fun lua_create l v = Some (ok, s', l')"
    by (simp add: lua_scan_fun_def)
  show ?case
  proof (cases ok)
    case True
    with r step lua.session_saved_direct [of s' s' rs] show ?thesis by simp
  next
    case False
    with scan have "s' = lua_create" using keeps_lua_scan [of lua_create l v] by (simp add: keeps_def)
    with r step False Cons show ?thesis by simp
  qed
qed simp

end
