(* ===== verification/Generated_Lexer.thy ===== *)
theory Generated_Lexer
  imports Lexer
begin

text \<open>
  The generated lexers: the macros of \<^verbatim>\<open>tree_sitter/parser.h\<close> that the function \<open>ts_lex\<close> of every
  \<^verbatim>\<open>parser.c\<close> is made of, as the loop they expand to. \<open>ts_lex\<close> is a switch over the state whose
  cases hold a few statements each; a case is the list of its statements here, with the conditions
  on \<open>lookahead\<close> as predicates, and a function the list of its cases, numbered from 0 as in C.

  \<^item> \<open>set_contains\<close> is the binary search for a character in a table of ranges.
  \<^item> \<open>lex_loop\<close> is the loop. It may run forever at the end of the input, where \<open>advance\<close> does
    nothing, so it is a partial function.
  \<^item> \<open>reach\<close> and \<open>accepts\<close> read a table as a deterministic automaton; \<open>munch\<close> is the longest prefix
    that it accepts. \<open>ts_lex_munch\<close>: the loop returns, with the longest token; \<open>munch_longest\<close> and
    \<open>longest\<close> say which that is without the table.
  \<^item> \<open>spells\<close> reads a table whose cases only compare with single characters as a list of words.
\<close>

text \<open>A symbol of a grammar is the name that \<open>enum ts_symbol_identifiers\<close> gives its number.\<close>

type_synonym symbol = string

section \<open>Character sets\<close>

text \<open>\<open>TSCharacterRange\<close>, and \<open>set_contains\<close> with an index outside the table as \<open>None\<close>.\<close>

type_synonym char_range = "code_point \<times> code_point"

definition range_at :: "char_range list \<Rightarrow> nat \<Rightarrow> char_range option" where
  "range_at ranges i = (if i < length ranges then Some (ranges ! i) else None)"

fun set_search :: "char_range list \<Rightarrow> nat \<Rightarrow> nat \<Rightarrow> code_point \<Rightarrow> bool option" where
  "set_search ranges i sz c =
     (if 1 < sz then
        let half_size = sz div 2; mid_index = i + half_size in
        case range_at ranges mid_index of
          None \<Rightarrow> None
        | Some (a, b) \<Rightarrow>
            if a \<le> c \<and> c \<le> b then Some True
            else set_search ranges (if b < c then mid_index else i) (sz - half_size) c
      else
        case range_at ranges i of
          None \<Rightarrow> None
        | Some (a, b) \<Rightarrow> Some (a \<le> c \<and> c \<le> b))"

declare set_search.simps [simp del]

definition set_contains :: "char_range list \<Rightarrow> nat \<Rightarrow> code_point \<Rightarrow> bool option" where
  "set_contains ranges len c = set_search ranges 0 (len - 0) c"

text \<open>What a table promises: its ranges follow each other.\<close>

fun ranges_ok :: "char_range list \<Rightarrow> bool" where
  "ranges_ok [] \<longleftrightarrow> True"
| "ranges_ok [(a, b)] \<longleftrightarrow> a \<le> b"
| "ranges_ok ((a, b) # (a', b') # rs) \<longleftrightarrow> a \<le> b \<and> b < a' \<and> ranges_ok ((a', b') # rs)"

definition within_ranges :: "char_range list \<Rightarrow> code_point \<Rightarrow> bool" where
  "within_ranges ranges c \<longleftrightarrow> (\<exists>(a, b) \<in> set ranges. a \<le> c \<and> c \<le> b)"

lemma ranges_ok_tl: "ranges_ok (r # rs) \<Longrightarrow> ranges_ok rs"
  by (cases r; cases rs) auto

lemma ranges_ok_hd: "ranges_ok (r # rs) \<Longrightarrow> fst r \<le> snd r"
  by (cases r; cases rs) auto

lemma ranges_ok_nth: "ranges_ok rs \<Longrightarrow> i < length rs \<Longrightarrow> fst (rs ! i) \<le> snd (rs ! i)"
proof (induction rs arbitrary: i)
  case (Cons r rs)
  then show ?case
    using ranges_ok_hd [OF Cons.prems(1)] ranges_ok_tl [OF Cons.prems(1)] by (cases i) simp_all
qed simp

lemma ranges_ok_hd_less: "ranges_ok (r # rs) \<Longrightarrow> j < length rs \<Longrightarrow> snd r < fst (rs ! j)"
proof (induction rs arbitrary: r j)
  case (Cons q rs)
  have step: "snd r < fst q" "fst q \<le> snd q"
    using Cons.prems(1) ranges_ok_hd [OF ranges_ok_tl [OF Cons.prems(1)]] by (cases r; cases q; simp)+
  show ?case
  proof (cases j)
    case (Suc k)
    then have "snd q < fst (rs ! k)"
      using Cons.IH [of q k] Cons.prems(2) ranges_ok_tl [OF Cons.prems(1)] by simp
    then show ?thesis using Suc step by simp
  qed (use step in simp)
qed simp

lemma ranges_ok_less:
  assumes "ranges_ok rs" and "i < j" and "j < length rs"
  shows "snd (rs ! i) < fst (rs ! j)"
  using assms
proof (induction rs arbitrary: i j)
  case (Cons r rs)
  then obtain k where k: "j = Suc k" by (cases j) auto
  show ?case
  proof (cases i)
    case 0
    then show ?thesis using Cons.prems ranges_ok_hd_less [of r rs k] k by simp
  next
    case (Suc i')
    then show ?thesis using Cons ranges_ok_tl k by auto
  qed
qed simp

text \<open>The range that holds the character is among the \<open>sz\<close> ranges from \<open>i\<close> on, if there is one.\<close>

lemma set_search_correct:
  assumes "ranges_ok rs" and "0 < sz" and "i + sz \<le> length rs"
    and "\<And>j. j < length rs \<Longrightarrow> fst (rs ! j) \<le> c \<Longrightarrow> c \<le> snd (rs ! j) \<Longrightarrow> i \<le> j \<and> j < i + sz"
  shows "set_search rs i sz c = Some (within_ranges rs c)"
  using assms
proof (induction sz arbitrary: i rule: less_induct)
  case (less sz)
  have known: "within_ranges rs c \<longleftrightarrow> (\<exists>j<length rs. fst (rs ! j) \<le> c \<and> c \<le> snd (rs ! j))"
    by (force simp: within_ranges_def in_set_conv_nth)
  show ?case
  proof (cases "1 < sz")
    case True
    define mid where "mid = i + sz div 2"
    obtain a b where ab: "rs ! mid = (a, b)" by (cases "rs ! mid")
    have mid: "mid < length rs" "i < mid" "mid < i + sz" using True less.prems(3) by (auto simp: mid_def)
    show ?thesis
    proof (cases "a \<le> c \<and> c \<le> b")
      case inside: True
      then show ?thesis
        using True mid ab by (subst set_search.simps) (auto simp: range_at_def mid_def known Let_def)
    next
      case outside: False
      let ?i = "if b < c then mid else i"
      have within: "?i \<le> j \<and> j < ?i + (sz - sz div 2)"
        if j: "j < length rs" "fst (rs ! j) \<le> c" "c \<le> snd (rs ! j)" for j
      proof -
        have ij: "i \<le> j" "j < i + sz" using less.prems(4) [OF j] by simp_all
        have jm: "j \<noteq> mid" using ab outside j(2,3) by auto
        show ?thesis
        proof (cases "b < c")
          case True
          then have "\<not> j < mid" using ranges_ok_less [OF less.prems(1) _ mid(1), of j] ranges_ok_nth [OF less.prems(1) mid(1)] ab j(3) by auto
          then show ?thesis using True ij jm by (auto simp: mid_def)
        next
          case False
          then have "c < a" using outside by auto
          then have "\<not> mid < j" using ranges_ok_less [OF less.prems(1) _ j(1), of mid] ranges_ok_nth [OF less.prems(1) mid(1)] ab j(2) by auto
          then show ?thesis using False ij jm by (auto simp: mid_def)
        qed
      qed
      have "set_search rs ?i (sz - sz div 2) c = Some (within_ranges rs c)"
      proof (rule less.IH)
        show "?i + (sz - sz div 2) \<le> length rs" using less.prems(3) True by (auto simp: mid_def)
        show "ranges_ok rs" by (rule less.prems(1))
        show "sz - sz div 2 < sz" "0 < sz - sz div 2" using True by simp_all
      qed (rule within)
      then show ?thesis
        using True mid ab outside by (subst set_search.simps) (auto simp: range_at_def mid_def Let_def)
    qed
  next
    case False
    then have sz: "sz = 1" and i: "i < length rs" using less.prems(2,3) by simp_all
    have "within_ranges rs c \<longleftrightarrow> fst (rs ! i) \<le> c \<and> c \<le> snd (rs ! i)"
      unfolding known using less.prems(4) sz i by (metis Suc_eq_plus1 le_antisym less_Suc_eq_le)
    then show ?thesis using sz i by (subst set_search.simps) (simp add: range_at_def split: prod.split)
  qed
qed

lemma set_contains_ranges:
  "ranges_ok rs \<Longrightarrow> rs \<noteq> [] \<Longrightarrow> set_contains rs (length rs) c = Some (within_ranges rs c)"
  unfolding set_contains_def by (rule set_search_correct) auto

section \<open>The statements of a case\<close>

text \<open>
  \<open>ACCEPT_TOKEN(k);\<close>, \<open>if (eof) ADVANCE(s);\<close>, \<open>ADVANCE_MAP(c, s, ...);\<close>,
  \<open>if (lookahead == 'c') ADVANCE(s);\<close>, \<open>if (P) ADVANCE(s);\<close> and \<open>if (P) SKIP(s);\<close>.
\<close>

datatype 'k lex_stmt =
    ACCEPT_TOKEN 'k
  | EOF_ADVANCE nat
  | ADVANCE_MAP "(char \<times> nat) list"
  | ADVANCE_ON char nat
  | ADVANCE_IF "code_point \<Rightarrow> bool" nat
  | SKIP_IF "code_point \<Rightarrow> bool" nat

type_synonym 'k lex_body = "'k lex_stmt list"
type_synonym 'k lex_table = "(nat \<times> 'k lex_body) list"

text \<open>How a case ends: \<open>goto next_state\<close> with \<open>skip\<close> and the state to go to, or \<open>END_STATE()\<close>.\<close>

datatype lex_move = NEXT bool nat | END_STATE

fun advance_map :: "(char \<times> nat) list \<Rightarrow> code_point \<Rightarrow> nat option" where
  "advance_map [] c = None"
| "advance_map ((ch, s) # m) c = (if c = of_char ch then Some s else advance_map m c)"

text \<open>The token the statements accept, if any, and how they end.\<close>

fun run_body :: "'k lex_body \<Rightarrow> bool \<Rightarrow> code_point \<Rightarrow> 'k option \<times> lex_move" where
  "run_body [] e c = (None, END_STATE)"
| "run_body (ACCEPT_TOKEN k # b) e c =
     (case run_body b e c of (None, m) \<Rightarrow> (Some k, m) | r \<Rightarrow> r)"
| "run_body (EOF_ADVANCE s # b) e c = (if e then (None, NEXT False s) else run_body b e c)"
| "run_body (ADVANCE_MAP m # b) e c =
     (case advance_map m c of Some s \<Rightarrow> (None, NEXT False s) | None \<Rightarrow> run_body b e c)"
| "run_body (ADVANCE_ON ch s # b) e c =
     (if c = of_char ch then (None, NEXT False s) else run_body b e c)"
| "run_body (ADVANCE_IF P s # b) e c = (if P c then (None, NEXT False s) else run_body b e c)"
| "run_body (SKIP_IF P s # b) e c = (if P c then (None, NEXT True s) else run_body b e c)"

text \<open>\<open>switch (state)\<close> over the cases, \<open>default\<close> being \<open>None\<close>.\<close>

fun lex_case :: "'k lex_table \<Rightarrow> nat \<Rightarrow> 'k lex_body option" where
  "lex_case [] s = None"
| "lex_case ((i, b) # tb) s = (if s = i then Some b else lex_case tb s)"

text \<open>
  The loop of \<open>START_LEXER()\<close>: \<open>result\<close> is kept from state to state, \<open>default: return false\<close> does
  not return it.
\<close>

partial_function (option) lex_loop ::
  "'k lex_table \<Rightarrow> bool \<Rightarrow> nat \<Rightarrow> 'k lexer \<Rightarrow> (bool \<times> 'k lexer) option" where
  "lex_loop tb res s l =
     (case lex_case tb s of
        None \<Rightarrow> Some (False, l)
      | Some b \<Rightarrow>
          (case run_body b (eof l) (lookahead l) of (accepted, m) \<Rightarrow>
            (case (case accepted of None \<Rightarrow> (res, l) | Some k \<Rightarrow> (True, mark_end (set_result k l)))
             of (res, l) \<Rightarrow>
               (case m of
                  END_STATE \<Rightarrow> Some (res, l)
                | NEXT skp s \<Rightarrow> lex_loop tb res s (lex_advance skp l)))))"

definition ts_lex :: "'k lex_table \<Rightarrow> nat \<Rightarrow> 'k lexer \<Rightarrow> (bool \<times> 'k lexer) option" where
  "ts_lex tb state l = lex_loop tb False state l"

section \<open>A table as an automaton\<close>

definition delta :: "'k lex_table \<Rightarrow> nat \<Rightarrow> code_point \<Rightarrow> nat option" where
  "delta tb s c =
     (case lex_case tb s of
        None \<Rightarrow> None
      | Some b \<Rightarrow> (case snd (run_body b False c) of END_STATE \<Rightarrow> None | NEXT _ s' \<Rightarrow> Some s'))"

fun body_token :: "'k lex_body \<Rightarrow> 'k option" where
  "body_token (ACCEPT_TOKEN k # _) = Some k"
| "body_token _ = None"

definition token_of :: "'k lex_table \<Rightarrow> nat \<Rightarrow> 'k option" where
  "token_of tb s = (case lex_case tb s of None \<Rightarrow> None | Some b \<Rightarrow> body_token b)"

fun reach :: "'k lex_table \<Rightarrow> nat \<Rightarrow> code_point list \<Rightarrow> nat option" where
  "reach tb s [] = Some s"
| "reach tb s (c # cs) = (case delta tb s c of None \<Rightarrow> None | Some s' \<Rightarrow> reach tb s' cs)"

definition accepts :: "'k lex_table \<Rightarrow> nat \<Rightarrow> code_point list \<Rightarrow> 'k option" where
  "accepts tb s w = (case reach tb s w of None \<Rightarrow> None | Some s' \<Rightarrow> token_of tb s')"

lemma accepts_Nil [simp]: "accepts tb s [] = token_of tb s"
  by (simp add: accepts_def)

lemma accepts_Cons:
  "accepts tb s (c # cs) = (case delta tb s c of None \<Rightarrow> None | Some s' \<Rightarrow> accepts tb s' cs)"
  by (simp add: accepts_def split: option.split)

text \<open>The longest prefix that is accepted, with its token and its length.\<close>

fun munch :: "'k lex_table \<Rightarrow> nat \<Rightarrow> code_point list \<Rightarrow> ('k \<times> nat) option" where
  "munch tb s [] = (case token_of tb s of None \<Rightarrow> None | Some k \<Rightarrow> Some (k, 0))"
| "munch tb s (c # cs) =
     (case (case delta tb s c of None \<Rightarrow> None | Some s' \<Rightarrow> munch tb s' cs) of
        Some (k, n) \<Rightarrow> Some (k, Suc n)
      | None \<Rightarrow> (case token_of tb s of None \<Rightarrow> None | Some k \<Rightarrow> Some (k, 0)))"

lemma munch_None: "munch tb s ts = None \<Longrightarrow> n \<le> length ts \<Longrightarrow> accepts tb s (take n ts) = None"
proof (induction tb s ts arbitrary: n rule: munch.induct)
  case (2 tb s c cs)
  then show ?case
    by (cases n) (auto simp: accepts_Cons split: option.splits)
qed (auto split: option.splits)

lemma munch_Some:
  assumes "munch tb s ts = Some (k, n)"
  shows "n \<le> length ts" and "accepts tb s (take n ts) = Some k"
    and "\<And>m. n < m \<Longrightarrow> m \<le> length ts \<Longrightarrow> accepts tb s (take m ts) = None"
proof -
  have "n \<le> length ts \<and> accepts tb s (take n ts) = Some k \<and>
        (\<forall>m. n < m \<longrightarrow> m \<le> length ts \<longrightarrow> accepts tb s (take m ts) = None)"
    using assms
  proof (induction tb s ts arbitrary: n rule: munch.induct)
    case (2 tb s c cs)
    show ?case
    proof (cases "case delta tb s c of None \<Rightarrow> None | Some s' \<Rightarrow> munch tb s' cs")
      case None
      then have n: "n = 0" "token_of tb s = Some k" using "2.prems" by (auto split: option.splits)
      have "accepts tb s (take m (c # cs)) = None" if "0 < m" "m \<le> length (c # cs)" for m
        using that None by (cases m) (auto simp: accepts_Cons munch_None split: option.splits)
      then show ?thesis using n by simp
    next
      case (Some kn)
      then obtain s' n' where s': "delta tb s c = Some s'" "munch tb s' cs = Some (k, n')" "n = Suc n'"
        using "2.prems" by (auto split: option.splits prod.splits)
      then have ih: "n' \<le> length cs" "accepts tb s' (take n' cs) = Some k"
        "\<And>m. n' < m \<Longrightarrow> m \<le> length cs \<Longrightarrow> accepts tb s' (take m cs) = None"
        using "2.IH" by blast+
      have "accepts tb s (take m (c # cs)) = None" if "n < m" "m \<le> length (c # cs)" for m
        using that ih(3) s' by (cases m) (auto simp: accepts_Cons)
      then show ?thesis using ih(1,2) s' by (simp add: accepts_Cons)
    qed
  qed (auto split: option.splits)
  then show "n \<le> length ts" "accepts tb s (take n ts) = Some k"
    "\<And>m. n < m \<Longrightarrow> m \<le> length ts \<Longrightarrow> accepts tb s (take m ts) = None" by blast+
qed

section \<open>The loop reads the longest token\<close>

text \<open>
  The states in which a token has begun: no character is skipped there, the end of the input and
  the code point 0 end the token, and every state that follows is a case of the switch and again
  such a state.
\<close>

fun tidy_stmt :: "(nat \<Rightarrow> bool) \<Rightarrow> 'k lex_stmt \<Rightarrow> bool" where
  "tidy_stmt S (ACCEPT_TOKEN k) \<longleftrightarrow> False"
| "tidy_stmt S (EOF_ADVANCE s) \<longleftrightarrow> False"
| "tidy_stmt S (ADVANCE_MAP m) \<longleftrightarrow> list_all (\<lambda>(c, s). c \<noteq> CHR 0x00 \<and> S s) m"
| "tidy_stmt S (ADVANCE_ON c s) \<longleftrightarrow> c \<noteq> CHR 0x00 \<and> S s"
| "tidy_stmt S (ADVANCE_IF P s) \<longleftrightarrow> \<not> P 0 \<and> S s"
| "tidy_stmt S (SKIP_IF P s) \<longleftrightarrow> False"

fun tidy_body :: "(nat \<Rightarrow> bool) \<Rightarrow> 'k lex_body \<Rightarrow> bool" where
  "tidy_body S (ACCEPT_TOKEN k # b) \<longleftrightarrow> list_all (tidy_stmt S) b"
| "tidy_body S b \<longleftrightarrow> list_all (tidy_stmt S) b"

definition tidy_upto :: "nat \<Rightarrow> 'k lex_table \<Rightarrow> (nat \<Rightarrow> bool) \<Rightarrow> bool" where
  "tidy_upto n tb S \<longleftrightarrow> List.map fst tb = [0..<n] \<and>
     list_all (\<lambda>(s, b). S s \<longrightarrow> tidy_body (\<lambda>t. t < n \<and> S t) b) tb"

definition tidy :: "'k lex_table \<Rightarrow> (nat \<Rightarrow> bool) \<Rightarrow> bool" where
  "tidy tb S \<longleftrightarrow> tidy_upto (length tb) tb S"

text \<open>Looking a case up does not touch the other cases: the simplifier is kept from them.\<close>

lemma lex_case_cong: "s = t \<Longrightarrow> lex_case tb s = lex_case tb t"
  by simp

lemma lex_case_append:
  "lex_case (tb @ tb') s = (case lex_case tb s of None \<Rightarrow> lex_case tb' s | Some b \<Rightarrow> Some b)"
  by (induction tb s rule: lex_case.induct) auto

lemma lex_case_mem: "lex_case tb s = Some b \<Longrightarrow> (s, b) \<in> set tb"
  by (induction tb s rule: lex_case.induct) (auto split: if_splits)

lemma lex_case_None_iff: "lex_case tb s = None \<longleftrightarrow> s \<notin> set (List.map fst tb)"
  by (induction tb s rule: lex_case.induct) auto

lemma tidy_case: "tidy tb S \<Longrightarrow> s < length tb \<Longrightarrow> \<exists>b. lex_case tb s = Some b"
  using lex_case_None_iff [of tb s] unfolding tidy_def tidy_upto_def by (cases "lex_case tb s") auto

lemma tidyD: "tidy tb S \<Longrightarrow> S s \<Longrightarrow> lex_case tb s = Some b \<Longrightarrow> tidy_body (\<lambda>t. t < length tb \<and> S t) b"
  using lex_case_mem [of tb s b] by (auto simp: tidy_def tidy_upto_def list_all_iff)

lemma advance_map_mem: "advance_map m c = Some s \<Longrightarrow> \<exists>ch. (ch, s) \<in> set m \<and> c = of_char ch"
  by (induction m c rule: advance_map.induct) (auto split: if_splits)

lemma of_char_zero [simp]: "(of_char ch :: int) = 0 \<longleftrightarrow> ch = CHR 0x00"
  using of_char_eq_iff [where ?'a = int, of ch "CHR 0x00"] by simp

definition tidy_move :: "(nat \<Rightarrow> bool) \<Rightarrow> code_point \<Rightarrow> lex_move \<Rightarrow> bool" where
  "tidy_move S c m \<longleftrightarrow> (case m of END_STATE \<Rightarrow> True | NEXT skp s \<Rightarrow> \<not> skp \<and> c \<noteq> 0 \<and> S s)"

lemma tidy_move_simps [simp]:
  "tidy_move S c END_STATE" "tidy_move S c (NEXT skp s) \<longleftrightarrow> \<not> skp \<and> c \<noteq> 0 \<and> S s"
  by (simp_all add: tidy_move_def)

lemma run_tidy_stmts:
  "list_all (tidy_stmt S) b \<Longrightarrow>
   fst (run_body b e c) = None \<and> snd (run_body b e c) = snd (run_body b False c) \<and>
   tidy_move S c (snd (run_body b False c))"
proof (induction b)
  case (Cons st b)
  show ?case
  proof (cases st)
    case (ADVANCE_MAP m)
    show ?thesis
    proof (cases "advance_map m c")
      case None
      then show ?thesis using Cons ADVANCE_MAP by simp
    next
      case (Some s)
      then show ?thesis using Cons.prems ADVANCE_MAP advance_map_mem [OF Some]
        by (auto simp: list_all_iff)
    qed
  qed (use Cons in auto)
qed simp

lemma run_tidy_body:
  "tidy_body S b \<Longrightarrow>
   fst (run_body b e c) = body_token b \<and> snd (run_body b e c) = snd (run_body b False c) \<and>
   tidy_move S c (snd (run_body b False c))"
proof (cases "\<exists>k r. b = ACCEPT_TOKEN k # r")
  case True
  moreover assume "tidy_body S b"
  ultimately show ?thesis using run_tidy_stmts [of S _ e c] run_tidy_stmts [of S _ False c]
    by (fastforce split: prod.splits option.splits)
next
  case False
  moreover assume "tidy_body S b"
  ultimately have "body_token b = None" "list_all (tidy_stmt S) b"
    by (cases "(S, b)" rule: tidy_body.cases; simp)+
  then show ?thesis using run_tidy_stmts [of S b e c] by simp
qed

text \<open>What a successful or failing call leaves: the token and its end, from the cursor \<open>l\<close> on.\<close>

definition lexed :: "('k \<times> nat) option \<Rightarrow> 'k lexer \<Rightarrow> (bool \<times> 'k lexer) option \<Rightarrow> bool" where
  "lexed m l r \<longleftrightarrow>
     (case r of
        None \<Rightarrow> False
      | Some (ok, l') \<Rightarrow> tok_start l' = tok_start l \<and>
          (case m of
             None \<Rightarrow> \<not> ok \<and> tok_end l' = tok_end l \<and> result_symbol l' = result_symbol l
           | Some (k, n) \<Rightarrow> ok \<and> tok_end l' = Some (pos l + n) \<and> result_symbol l' = Some k))"

lemma lex_loop_tidy:
  assumes "tidy tb S" and "S s" and "s < length tb"
  shows "\<exists>l'. lex_loop tb res s l = Some (res \<or> munch tb s (text_ahead l) \<noteq> None, l') \<and>
    tok_start l' = tok_start l \<and>
    (case munch tb s (text_ahead l) of
       None \<Rightarrow> tok_end l' = tok_end l \<and> result_symbol l' = result_symbol l
     | Some (k, n) \<Rightarrow> tok_end l' = Some (pos l + n) \<and> result_symbol l' = Some k)"
  using assms(2,3)
proof (induction "remaining l" arbitrary: s res l rule: less_induct)
  case less
  obtain b where b: "lex_case tb s = Some b" using tidy_case [OF assms(1) less.prems(2)] by blast
  define m where "m = snd (run_body b False (lookahead l))"
  have m: "run_body b e (lookahead l) = (body_token b, m)"
    and moves: "tidy_move (\<lambda>t. t < length tb \<and> S t) (lookahead l) m" for e
    using run_tidy_body [OF tidyD [OF assms(1) less.prems(1) b], of e "lookahead l"]
    by (simp_all add: m_def prod_eq_iff)
  define l1 where "l1 = (case body_token b of None \<Rightarrow> l | Some k \<Rightarrow> mark_end (set_result k l))"
  define res1 where "res1 \<longleftrightarrow> res \<or> body_token b \<noteq> None"
  have tok: "token_of tb s = body_token b" using b by (simp add: token_of_def)
  have l1: "ahead l1 = ahead l" "tok_start l1 = tok_start l" "pos l1 = pos l"
    by (simp_all add: l1_def split: option.split)
  have loop: "lex_loop tb res s l =
      (case m of END_STATE \<Rightarrow> Some (res1, l1) | NEXT skp t \<Rightarrow> lex_loop tb res1 t (lex_advance skp l1))"
    by (subst lex_loop.simps) (cases "body_token b"; cases m; simp add: b m l1_def res1_def)
  show ?case
  proof (cases m)
    case END_STATE
    then have "munch tb s (text_ahead l) = (case body_token b of None \<Rightarrow> None | Some k \<Rightarrow> Some (k, 0))"
      using b m by (cases "ahead l") (auto simp: tok delta_def lookahead_def split: option.split)
    then show ?thesis using loop END_STATE
      by (auto simp: l1_def res1_def split: option.split)
  next
    case (NEXT skp t)
    then have t: "skp = False" "lookahead l \<noteq> 0" "t < length tb" "S t" using moves by simp_all
    then have shown: "text_ahead l = lookahead l # text_ahead (advance l1)"
      using text_ahead_nonzero [of l False] l1 by simp
    have delta: "delta tb s (lookahead l) = Some t" using b m NEXT by (simp add: delta_def)
    have small: "remaining (advance l1) < remaining l" using t(2) l1 lookahead_nonzero [of l] by (auto simp: eof_def)
    have pos: "pos (advance l1) = Suc (pos l)"
      using t(2) l1 lookahead_nonzero [of l] by (simp add: pos_advance eof_def)
    obtain l' where l': "lex_loop tb res1 t (advance l1) =
          Some (res1 \<or> munch tb t (text_ahead (advance l1)) \<noteq> None, l')"
        "tok_start l' = tok_start l"
        "case munch tb t (text_ahead (advance l1)) of
           None \<Rightarrow> tok_end l' = tok_end l1 \<and> result_symbol l' = result_symbol l1
         | Some (k, n) \<Rightarrow> tok_end l' = Some (Suc (pos l) + n) \<and> result_symbol l' = Some k"
      using less.hyps [OF small t(4,3), of res1] pos l1 by (auto cong: option.case_cong)
    have munch: "munch tb s (text_ahead l) =
        (case munch tb t (text_ahead (advance l1)) of
           Some (k, n) \<Rightarrow> Some (k, Suc n)
         | None \<Rightarrow> (case body_token b of None \<Rightarrow> None | Some k \<Rightarrow> Some (k, 0)))"
      by (simp only: shown munch.simps delta tok option.case)
    show ?thesis unfolding loop NEXT t(1) munch
      using l' by (auto simp: res1_def l1_def split: option.splits prod.splits)
  qed
qed

theorem ts_lex_munch:
  assumes "tidy tb S" and "S s" and "s < length tb"
  shows "lexed (munch tb s (text_ahead l)) l (ts_lex tb s l)"
  using lex_loop_tidy [OF assms, of False l]
  by (auto simp: lexed_def ts_lex_def split: option.splits prod.splits)

section \<open>Where a token begins\<close>

text \<open>The characters that are skipped in front of a token.\<close>

lemma ts_lex_skip:
  assumes "lex_case tb s = Some b" and "\<And>c. blank c \<Longrightarrow> run_body b False c = (None, NEXT True s)"
  shows "ts_lex tb s l = ts_lex tb s (advance_while blank True l)"
proof (induction "remaining l" arbitrary: l rule: less_induct)
  case less
  show ?case
  proof (cases "\<not> eof l \<and> blank (lookahead l)")
    case True
    then have "ts_lex tb s l = ts_lex tb s (skip l)"
      unfolding ts_lex_def by (subst lex_loop.simps) (simp add: assms)
    then show ?thesis using less [of "skip l"] True by (simp add: advance_while_step eof_def)
  next
    case False
    then have "advance_while blank True l = l" by (subst advance_while.simps) (rule if_not_P)
    then show ?thesis by simp
  qed
qed

lemma ts_lex_start:
  assumes "tidy tb S" and "lex_case tb s = Some b" and "\<not> eof l"
    and "run_body b False (lookahead l) = (None, m)"
    and "tidy_move (\<lambda>t. t < length tb \<and> S t) (lookahead l) m" and "body_token b = None"
  shows "lexed (munch tb s (text_ahead l)) l (ts_lex tb s l)"
proof -
  have none: "token_of tb s = None" using assms(2,6) by (simp add: token_of_def)
  have shown: "text_ahead l = lookahead l # text_ahead (advance l)"
    using assms(3) by (rule text_ahead_look)
  show ?thesis
  proof (cases m)
    case END_STATE
    then have "munch tb s (text_ahead l) = None"
      unfolding shown using assms(2,4) by (simp add: none delta_def)
    then show ?thesis unfolding ts_lex_def using assms(2-4) END_STATE
      by (subst lex_loop.simps) (simp add: lexed_def)
  next
    case (NEXT skp t)
    then have t: "\<not> skp" "t < length tb" "S t" using assms(5) by simp_all
    have "ts_lex tb s l = ts_lex tb t (advance l)"
      unfolding ts_lex_def using assms(2-4) NEXT t(1) by (subst lex_loop.simps) simp
    moreover have "munch tb s (text_ahead l) =
        (case munch tb t (text_ahead (advance l)) of Some (k, n) \<Rightarrow> Some (k, Suc n) | None \<Rightarrow> None)"
      unfolding shown munch.simps none using assms(2,4) NEXT
      by (simp add: delta_def split: option.split)
    moreover have "lexed (munch tb t (text_ahead (advance l))) (advance l) (ts_lex tb t (advance l))"
      using ts_lex_munch [OF assms(1) t(3,2)] .
    ultimately show ?thesis using assms(3)
      by (auto simp: lexed_def pos_advance split: option.splits prod.splits)
  qed
qed

text \<open>At the end of the input, in a case that goes on to one that accepts the end.\<close>

lemma ts_lex_end:
  assumes "eof l" and "lex_case tb s = Some b" and "run_body b True 0 = (None, NEXT False t)"
    and "lex_case tb t = Some [ACCEPT_TOKEN k]"
  shows "lexed (Some (k, 0)) l (ts_lex tb s l)"
  unfolding ts_lex_def using assms
  by (subst lex_loop.simps, simp add: lookahead_eof, subst lex_loop.simps, simp add: lexed_def)

section \<open>The longest token\<close>

text \<open>
  What a generated lexer promises: the longest prefix of the text that is a token, where \<open>tok\<close>
  says which token a text is.
\<close>

definition longest :: "(code_point list \<Rightarrow> 'k option) \<Rightarrow> code_point list \<Rightarrow> ('k \<times> nat) option" where
  "longest tok ts =
     (case List.find (\<lambda>n. tok (take n ts) \<noteq> None) (rev [0..<Suc (length ts)]) of
        None \<Rightarrow> None
      | Some n \<Rightarrow> Some (the (tok (take n ts)), n))"

lemma find_rev_upt:
  assumes "n < k" and "P n" and "\<And>m. n < m \<Longrightarrow> m < k \<Longrightarrow> \<not> P m"
  shows "List.find P (rev [0..<k]) = Some n"
  using assms by (induction k) (auto simp: less_Suc_eq)

lemma longest_None_iff: "longest tok ts = None \<longleftrightarrow> (\<forall>n\<le>length ts. tok (take n ts) = None)"
proof
  assume "longest tok ts = None"
  then show "\<forall>n\<le>length ts. tok (take n ts) = None"
    by (auto simp: longest_def find_None_iff less_Suc_eq_le simp del: upt_Suc split: option.splits)
next
  assume none: "\<forall>n\<le>length ts. tok (take n ts) = None"
  then have "List.find (\<lambda>n. tok (take n ts) \<noteq> None) (rev [0..<Suc (length ts)]) = None"
    by (auto simp: find_None_iff less_Suc_eq_le simp del: upt_Suc)
  then show "longest tok ts = None" by (simp add: longest_def)
qed

lemma longest_SomeI:
  assumes "n \<le> length ts" and "tok (take n ts) = Some k"
    and "\<And>m. n < m \<Longrightarrow> m \<le> length ts \<Longrightarrow> tok (take m ts) = None"
  shows "longest tok ts = Some (k, n)"
proof -
  have "List.find (\<lambda>n. tok (take n ts) \<noteq> None) (rev [0..<Suc (length ts)]) = Some n"
    using assms by (intro find_rev_upt) (auto simp: less_Suc_eq_le)
  then show ?thesis using assms(2) by (simp add: longest_def)
qed

theorem munch_longest: "munch tb s ts = longest (accepts tb s) ts"
proof (cases "munch tb s ts")
  case None
  then show ?thesis using munch_None by (metis longest_None_iff)
next
  case (Some kn)
  then show ?thesis using munch_Some [of tb s ts] by (cases kn) (metis longest_SomeI)
qed

lemma longest_Some:
  assumes "longest tok ts = Some (k, n)"
  shows "n \<le> length ts" and "tok (take n ts) = Some k"
    and "\<And>m. n < m \<Longrightarrow> m \<le> length ts \<Longrightarrow> tok (take m ts) = None"
proof -
  define N where "N = {m. m \<le> length ts \<and> tok (take m ts) \<noteq> None}"
  have fin: "finite N" by (rule finite_subset [of _ "{..length ts}"]) (auto simp: N_def)
  have ne: "N \<noteq> {}" using assms longest_None_iff [of tok ts] by (auto simp: N_def)
  define M where "M = Max N"
  have "M \<in> N" unfolding M_def using fin ne by (rule Max_in)
  then obtain j where top: "M \<le> length ts" "tok (take M ts) = Some j" unfolding N_def by blast
  have above: "tok (take m ts) = None" if "M < m" "m \<le> length ts" for m
  proof (rule ccontr)
    assume "tok (take m ts) \<noteq> None"
    then have "m \<in> N" using that(2) by (simp add: N_def)
    then show False using Max_ge [OF fin] that(1) by (simp add: leD M_def)
  qed
  have "longest tok ts = Some (j, M)" using top above by (rule longest_SomeI)
  then have "k = j" "n = M" using assms by simp_all
  then show "n \<le> length ts" "tok (take n ts) = Some k"
    "\<And>m. n < m \<Longrightarrow> m \<le> length ts \<Longrightarrow> tok (take m ts) = None"
    using above top by simp_all
qed

lemma longest_cong:
  assumes "\<And>n. n \<le> length ts \<Longrightarrow> tok (take n ts) = tok' (take n ts)"
  shows "longest tok ts = longest tok' ts"
proof (cases "longest tok' ts")
  case None
  then have "longest tok ts = None" using assms by (simp add: longest_None_iff)
  then show ?thesis using None by simp
next
  case (Some kn)
  then obtain k n where kn: "longest tok' ts = Some (k, n)" by (cases kn) simp
  note sn = longest_Some [OF this]
  have "longest tok ts = Some (k, n)"
    by (rule longest_SomeI) (simp_all add: assms sn)
  then show ?thesis using kn by simp
qed

section \<open>Tables of words\<close>

text \<open>The single characters a case goes on with, where it only compares with single characters.\<close>

fun arcs :: "'k lex_body \<Rightarrow> (char \<times> nat) list option" where
  "arcs [] = Some []"
| "arcs (ACCEPT_TOKEN k # b) = arcs b"
| "arcs (ADVANCE_MAP m # b) = map_option (\<lambda>r. m @ r) (arcs b)"
| "arcs (ADVANCE_ON c s # b) = map_option (\<lambda>r. (c, s) # r) (arcs b)"
| "arcs _ = None"

text \<open>The token that a list of words gives for a text, and what is left of the words behind a character.\<close>

fun keyword_of :: "(string \<times> 'k) list \<Rightarrow> code_point list \<Rightarrow> 'k option" where
  "keyword_of [] cs = None"
| "keyword_of ((w, k) # ws) cs = (if cs = codes w then Some k else keyword_of ws cs)"

fun tails :: "char \<Rightarrow> (string \<times> 'k) list \<Rightarrow> (string \<times> 'k) list" where
  "tails c [] = []"
| "tails c (([], k) # ws) = tails c ws"
| "tails c ((d # w, k) # ws) = (if d = c then (w, k) # tails c ws else tails c ws)"

lemma tails_cong: "c = d \<Longrightarrow> tails c ws = tails d ws"
  by simp

fun heads_in :: "char list \<Rightarrow> (string \<times> 'k) list \<Rightarrow> bool" where
  "heads_in cs [] \<longleftrightarrow> True"
| "heads_in cs (([], k) # ws) \<longleftrightarrow> heads_in cs ws"
| "heads_in cs ((d # w, k) # ws) \<longleftrightarrow> d \<in> set cs \<and> heads_in cs ws"

fun empty_word :: "(string \<times> 'k) list \<Rightarrow> 'k option" where
  "empty_word [] = None"
| "empty_word (([], k) # ws) = Some k"
| "empty_word ((d # w, k) # ws) = empty_word ws"

lemma keyword_of_Nil: "keyword_of ws [] = empty_word ws"
  by (induction ws rule: empty_word.induct) auto

text \<open>The table spells the words from the state \<open>s\<close> on, words of less than \<open>f\<close> characters.\<close>

fun spells :: "nat \<Rightarrow> 'k lex_table \<Rightarrow> nat \<Rightarrow> (string \<times> 'k) list \<Rightarrow> bool"
  and spells_arcs :: "nat \<Rightarrow> 'k lex_table \<Rightarrow> (char \<times> nat) list \<Rightarrow> (string \<times> 'k) list \<Rightarrow> bool" where
  "spells 0 tb s ws \<longleftrightarrow> False"
| "spells (Suc f) tb s ws \<longleftrightarrow>
     (case lex_case tb s of
        None \<Rightarrow> False
      | Some b \<Rightarrow>
          (case arcs b of
             None \<Rightarrow> False
           | Some m \<Rightarrow> body_token b = empty_word ws \<and> heads_in (List.map fst m) ws \<and>
               spells_arcs f tb m ws))"
| "spells_arcs f tb [] ws \<longleftrightarrow> True"
| "spells_arcs f tb ((c, t) # m) ws \<longleftrightarrow> spells f tb t (tails c ws) \<and> spells_arcs f tb m ws"

lemma spells_arcs_iff:
  "spells_arcs f tb m ws \<longleftrightarrow> (\<forall>(c, t) \<in> set m. spells f tb t (tails c ws))"
  by (induction m) auto

lemma spells_numeral:
  "spells (numeral k) tb s ws \<longleftrightarrow>
     (case lex_case tb s of
        None \<Rightarrow> False
      | Some b \<Rightarrow>
          (case arcs b of
             None \<Rightarrow> False
           | Some m \<Rightarrow> body_token b = empty_word ws \<and> heads_in (List.map fst m) ws \<and>
               spells_arcs (pred_numeral k) tb m ws))"
  by (simp add: numeral_eq_Suc)

lemma keyword_of_tails: "keyword_of ws (of_char c # cs) = keyword_of (tails c ws) cs"
  by (induction c ws rule: tails.induct) (auto simp: of_char_eq_iff)

lemma keyword_of_heads:
  "heads_in hs ws \<Longrightarrow> keyword_of ws (c # cs) = Some k \<Longrightarrow> \<exists>h \<in> set hs. c = of_char h"
  by (induction hs ws rule: heads_in.induct) (auto split: if_splits)

lemma run_arcs:
  "arcs b = Some m \<Longrightarrow>
   snd (run_body b e c) = (case advance_map m c of None \<Rightarrow> END_STATE | Some s \<Rightarrow> NEXT False s)"
proof (induction b arbitrary: m rule: arcs.induct)
  case (2 k b)
  then show ?case by (auto split: option.splits prod.splits)
next
  case (3 n b)
  have "advance_map (n @ r) c = (case advance_map n c of None \<Rightarrow> advance_map r c | Some s \<Rightarrow> Some s)" for r
    by (induction n c rule: advance_map.induct) auto
  with 3 show ?case by (auto split: option.splits)
qed auto

lemma advance_map_None: "advance_map m c = None \<Longrightarrow> \<forall>h \<in> set (List.map fst m). c \<noteq> of_char h"
  by (induction m c rule: advance_map.induct) (auto split: if_splits)

theorem spells_accepts: "spells f tb s ws \<Longrightarrow> accepts tb s cs = keyword_of ws cs"
proof (induction f arbitrary: s ws cs)
  case (Suc f)
  obtain b m where b: "lex_case tb s = Some b" and m: "arcs b = Some m"
    and tok: "body_token b = empty_word ws" and heads: "heads_in (List.map fst m) ws"
    and subs: "\<And>c t. (c, t) \<in> set m \<Longrightarrow> spells f tb t (tails c ws)"
    using Suc.prems by (fastforce simp: spells_arcs_iff split: option.splits)
  show ?case
  proof (cases cs)
    case Nil
    then show ?thesis by (simp add: token_of_def b tok keyword_of_Nil)
  next
    case (Cons c r)
    show ?thesis
    proof (cases "advance_map m c")
      case None
      then have "keyword_of ws (c # r) = None"
        using keyword_of_heads [OF heads] advance_map_None by (metis not_Some_eq)
      then show ?thesis using Cons None b run_arcs [OF m] by (simp add: accepts_Cons delta_def)
    next
      case (Some t)
      then obtain h where h: "(h, t) \<in> set m" "c = of_char h" using advance_map_mem by blast
      then have "accepts tb t r = keyword_of (tails h ws) r" using Suc.IH subs by blast
      then show ?thesis
        using Cons Some b run_arcs [OF m] h by (simp add: accepts_Cons delta_def keyword_of_tails)
    qed
  qed
qed simp

text \<open>
  A lexer for words: its case 0 goes on with the first characters of the words and skips blanks,
  and every case that follows spells what is left.
\<close>

definition word_arcs ::
  "(code_point \<Rightarrow> bool) \<Rightarrow> 'k lex_table \<Rightarrow> nat \<Rightarrow> (string \<times> 'k) list \<Rightarrow> (char \<times> nat) list \<Rightarrow> bool" where
  "word_arcs blank tb f ws m \<longleftrightarrow>
     empty_word ws = None \<and> heads_in (List.map fst m) ws \<and>
     list_all (\<lambda>(c, t). c \<noteq> CHR 0x00 \<and> \<not> blank (of_char c) \<and> t \<noteq> 0 \<and> t < length tb) m \<and>
     spells_arcs f tb m ws"

theorem ts_lex_words:
  assumes tidy: "tidy tb (\<lambda>s. s \<noteq> 0)"
    and body: "lex_case tb 0 = Some [ADVANCE_MAP m, SKIP_IF blank 0]" and zero: "\<not> blank 0"
    and words: "word_arcs blank tb f ws m"
  shows "lexed (longest (keyword_of ws) (text_ahead (advance_while blank True l)))
           (advance_while blank True l) (ts_lex tb 0 l)"
proof -
  have heads: "heads_in (List.map fst m) ws" and nil: "keyword_of ws [] = None"
    using words by (simp_all add: word_arcs_def keyword_of_Nil)
  have arcs: "c \<noteq> CHR 0x00" "\<not> blank (of_char c)" "t \<noteq> 0" "t < length tb" "spells f tb t (tails c ws)"
    if "(c, t) \<in> set m" for c t
    using words that by (auto simp: word_arcs_def list_all_iff spells_arcs_iff)
  have from_blank: "advance_map m c = None" if "blank c" for c
    using advance_map_mem [of m c] arcs(2) that by (cases "advance_map m c") auto
  define l1 where "l1 = advance_while blank True l"
  have skipped: "ts_lex tb 0 l = ts_lex tb 0 l1"
    unfolding l1_def by (rule ts_lex_skip [OF body]) (simp add: from_blank)
  have accepts: "accepts tb 0 (c # cs) = keyword_of ws (c # cs)" if "\<not> blank c" for c cs
  proof (cases "advance_map m c")
    case None
    then have "keyword_of ws (c # cs) = None"
      using keyword_of_heads [OF heads] advance_map_None by (metis not_Some_eq)
    then show ?thesis using None body that by (simp add: accepts_Cons delta_def)
  next
    case (Some t)
    then obtain h where "(h, t) \<in> set m" "c = of_char h" using advance_map_mem by blast
    then show ?thesis using Some body arcs(5) [of h t] spells_accepts [of f tb t]
      by (simp add: accepts_Cons delta_def keyword_of_tails)
  qed
  show ?thesis unfolding l1_def [symmetric] skipped
  proof (cases "eof l1")
    case True
    then have "longest (keyword_of ws) (text_ahead l1) = None"
      by (simp add: longest_None_iff eof_def nil)
    moreover have "advance_map m 0 = None" using advance_map_mem [of m 0] arcs(1) by (cases "advance_map m 0") auto
    then have "ts_lex tb 0 l1 = Some (False, l1)"
      unfolding ts_lex_def using True body zero by (subst lex_loop.simps) (simp add: lookahead_eof)
    ultimately show "lexed (longest (keyword_of ws) (text_ahead l1)) l1 (ts_lex tb 0 l1)"
      by (simp add: lexed_def)
  next
    case False
    then have nb: "\<not> blank (lookahead l1)" using advance_while_stops [of blank True l] by (simp add: l1_def)
    have shown: "text_ahead l1 = lookahead l1 # text_ahead (advance l1)" using False by (rule text_ahead_look)
    define mv where "mv = (case advance_map m (lookahead l1) of None \<Rightarrow> END_STATE | Some t \<Rightarrow> NEXT False t)"
    have "run_body [ADVANCE_MAP m, SKIP_IF blank 0] False (lookahead l1) = (None, mv)"
      using nb by (simp add: mv_def split: option.split)
    moreover have "tidy_move (\<lambda>t. t < length tb \<and> t \<noteq> 0) (lookahead l1) mv"
      using arcs(1,3,4) advance_map_mem [of m "lookahead l1"] by (fastforce simp: mv_def split: option.split)
    ultimately have "lexed (munch tb 0 (text_ahead l1)) l1 (ts_lex tb 0 l1)"
      using ts_lex_start [OF tidy body False] by simp
    moreover have "munch tb 0 (text_ahead l1) = longest (keyword_of ws) (text_ahead l1)"
      unfolding munch_longest
    proof (rule longest_cong)
      fix n assume "n \<le> length (text_ahead l1)"
      show "accepts tb 0 (take n (text_ahead l1)) = keyword_of ws (take n (text_ahead l1))"
        using accepts [OF nb] body nil by (cases n) (simp_all add: shown token_of_def)
    qed
    ultimately show "lexed (longest (keyword_of ws) (text_ahead l1)) l1 (ts_lex tb 0 l1)" by simp
  qed
qed

declare lex_case_cong [cong]

end
