(* ===== verification/Lua_Tables.thy ===== *)
theory Lua_Tables
  imports Generated_Lexer
begin

text \<open>
  Lua's generated lexer: the functions \<open>ts_lex\<close> and \<open>ts_lex_keywords\<close> of \<^verbatim>\<open>lua/parser.c\<close>, case by
  case.
\<close>

definition sym_escape_sequence_character_set_1 :: "char_range list" where
  "sym_escape_sequence_character_set_1 =
     [(10, 10), (34, 34), (39, 39), (48, 57), (92, 92), (97, 98), (102, 102), (110, 110),
      (114, 114), (116, 118), (120, 120), (122, 122)]"

definition lua_lex_0_17 :: "symbol lex_table" where
  "lua_lex_0_17 = [
    (0, [EOF_ADVANCE 21, ADVANCE_MAP [(CHR 0x22, 41), (CHR ''#'', 78), (CHR ''%'', 75), (CHR ''&'', 67),
      (CHR 0x27, 42), (CHR ''('', 54), (CHR '')'', 55), (CHR ''*'', 72), (CHR ''+'', 70), (CHR '','', 25),
      (CHR ''-'', 71), (CHR ''.'', 28), (CHR ''/'', 73), (CHR ''0'', 34), (CHR '':'', 29), (CHR '';'', 23),
      (CHR ''<'', 30), (CHR ''='', 24), (CHR ''>'', 32), (CHR ''['', 56), (CHR 0x5C, 6), (CHR '']'', 57),
      (CHR ''^'', 77), (CHR ''{'', 58), (CHR ''|'', 64), (CHR ''}'', 59), (CHR ''~'', 66)],
      SKIP_IF (\<lambda>c. (9 \<le> c \<and> c \<le> 13) \<or> c = 32) 18,
      ADVANCE_IF (\<lambda>c. 49 \<le> c \<and> c \<le> 57) 35,
      ADVANCE_IF (\<lambda>c. 32 < c \<and> (c < 123 \<or> 159 < c)) 79]),
    (1, [ADVANCE_ON (CHR 0x22) 41, ADVANCE_ON (CHR ''-'') 44, ADVANCE_ON (CHR 0x5C) 6,
      ADVANCE_IF (\<lambda>c. (9 \<le> c \<and> c \<le> 13) \<or> c = 32) 43,
      ADVANCE_IF (\<lambda>c. c \<noteq> 0) 45]),
    (2, [ADVANCE_ON (CHR 0x27) 42, ADVANCE_ON (CHR ''-'') 47, ADVANCE_ON (CHR 0x5C) 6,
      ADVANCE_IF (\<lambda>c. (9 \<le> c \<and> c \<le> 13) \<or> c = 32) 46,
      ADVANCE_IF (\<lambda>c. c \<noteq> 0) 48]),
    (3, [ADVANCE_ON (CHR ''.'') 4, ADVANCE_IF (\<lambda>c. 48 \<le> c \<and> c \<le> 57) 37]),
    (4, [ADVANCE_ON (CHR ''.'') 53]),
    (5, [ADVANCE_ON (CHR ''.'') 15,
      ADVANCE_IF (\<lambda>c. (48 \<le> c \<and> c \<le> 57) \<or> (65 \<le> c \<and> c \<le> 70) \<or> (97 \<le> c \<and> c \<le> 102)) 36]),
    (6, [ADVANCE_ON (CHR ''u'') 7, ADVANCE_ON (CHR ''x'') 17, ADVANCE_ON (CHR ''z'') 50,
      ADVANCE_IF (\<lambda>c. 48 \<le> c \<and> c \<le> 57) 52,
      ADVANCE_IF (\<lambda>c. set_contains sym_escape_sequence_character_set_1 12 c = Some True) 49]),
    (7, [ADVANCE_ON (CHR ''{'') 16]),
    (8, [ADVANCE_ON (CHR ''}'') 49,
      ADVANCE_IF (\<lambda>c. (48 \<le> c \<and> c \<le> 57) \<or> (65 \<le> c \<and> c \<le> 70) \<or> (97 \<le> c \<and> c \<le> 102)) 8]),
    (9, [ADVANCE_IF (\<lambda>c. c = 43 \<or> c = 45) 13,
      ADVANCE_IF (\<lambda>c. 48 \<le> c \<and> c \<le> 57) 40]),
    (10, [ADVANCE_IF (\<lambda>c. c = 76 \<or> c = 108) 33]),
    (11, [ADVANCE_IF (\<lambda>c. c = 76 \<or> c = 108) 10]),
    (12, [ADVANCE_IF (\<lambda>c. c = 48 \<or> c = 49) 38]),
    (13, [ADVANCE_IF (\<lambda>c. 48 \<le> c \<and> c \<le> 57) 40]),
    (14, [ADVANCE_IF (\<lambda>c. (48 \<le> c \<and> c \<le> 57) \<or> (65 \<le> c \<and> c \<le> 70) \<or> (97 \<le> c \<and> c \<le> 102)) 49]),
    (15, [ADVANCE_IF (\<lambda>c. (48 \<le> c \<and> c \<le> 57) \<or> (65 \<le> c \<and> c \<le> 70) \<or> (97 \<le> c \<and> c \<le> 102)) 39]),
    (16, [ADVANCE_IF (\<lambda>c. (48 \<le> c \<and> c \<le> 57) \<or> (65 \<le> c \<and> c \<le> 70) \<or> (97 \<le> c \<and> c \<le> 102)) 8]),
    (17, [ADVANCE_IF (\<lambda>c. (48 \<le> c \<and> c \<le> 57) \<or> (65 \<le> c \<and> c \<le> 70) \<or> (97 \<le> c \<and> c \<le> 102)) 14])]"

definition lua_lex_18_32 :: "symbol lex_table" where
  "lua_lex_18_32 = [
    (18, [EOF_ADVANCE 21, ADVANCE_MAP [(CHR 0x22, 41), (CHR ''#'', 78), (CHR ''%'', 75), (CHR ''&'', 67),
      (CHR 0x27, 42), (CHR ''('', 54), (CHR '')'', 55), (CHR ''*'', 72), (CHR ''+'', 70), (CHR '','', 25),
      (CHR ''-'', 71), (CHR ''.'', 28), (CHR ''/'', 73), (CHR ''0'', 34), (CHR '':'', 29), (CHR '';'', 23),
      (CHR ''<'', 30), (CHR ''='', 24), (CHR ''>'', 32), (CHR ''['', 56), (CHR '']'', 57), (CHR ''^'', 77),
      (CHR ''{'', 58), (CHR ''|'', 64), (CHR ''}'', 59), (CHR ''~'', 66)],
      SKIP_IF (\<lambda>c. (9 \<le> c \<and> c \<le> 13) \<or> c = 32) 18,
      ADVANCE_IF (\<lambda>c. 49 \<le> c \<and> c \<le> 57) 35,
      ADVANCE_IF (\<lambda>c. 32 < c \<and> (c < 91 \<or> 94 < c) \<and> (c < 123 \<or> 159 < c)) 79]),
    (19, [EOF_ADVANCE 21, ADVANCE_MAP [(CHR 0x22, 41), (CHR ''#'', 78), (CHR 0x27, 42), (CHR ''('', 54),
      (CHR '')'', 55), (CHR ''-'', 71), (CHR ''.'', 3), (CHR ''0'', 34), (CHR '';'', 23), (CHR ''>'', 31),
      (CHR ''['', 56), (CHR ''{'', 58), (CHR ''}'', 59), (CHR ''~'', 65)],
      SKIP_IF (\<lambda>c. (9 \<le> c \<and> c \<le> 13) \<or> c = 32) 19,
      ADVANCE_IF (\<lambda>c. 49 \<le> c \<and> c \<le> 57) 35,
      ADVANCE_IF (\<lambda>c. 32 < c \<and> (c < 37 \<or> 62 < c) \<and> (c < 91 \<or> 94 < c) \<and> (c < 123 \<or> 159 < c)) 79]),
    (20, [EOF_ADVANCE 21, ADVANCE_MAP [(CHR 0x22, 41), (CHR ''#'', 22), (CHR ''%'', 75), (CHR ''&'', 67),
      (CHR 0x27, 42), (CHR ''('', 54), (CHR '')'', 55), (CHR ''*'', 72), (CHR ''+'', 70), (CHR '','', 25),
      (CHR ''-'', 71), (CHR ''.'', 27), (CHR ''/'', 73), (CHR '':'', 29), (CHR '';'', 23), (CHR ''<'', 30),
      (CHR ''='', 24), (CHR ''>'', 32), (CHR ''['', 56), (CHR '']'', 57), (CHR ''^'', 77), (CHR ''{'', 58),
      (CHR ''|'', 64), (CHR ''}'', 59), (CHR ''~'', 66)],
      SKIP_IF (\<lambda>c. (9 \<le> c \<and> c \<le> 13) \<or> c = 32) 20,
      ADVANCE_IF (\<lambda>c. 32 < c \<and> (c < 37 \<or> 62 < c) \<and> (c < 91 \<or> 94 < c) \<and> (c < 123 \<or> 159 < c)) 79]),
    (21, [ACCEPT_TOKEN ''ts_builtin_sym_end'']),
    (22, [ACCEPT_TOKEN ''sym_hash_bang_line'',
      ADVANCE_IF (\<lambda>c. c \<noteq> 0 \<and> c \<noteq> 10) 22]),
    (23, [ACCEPT_TOKEN ''anon_sym_SEMI'']),
    (24, [ACCEPT_TOKEN ''anon_sym_EQ'', ADVANCE_ON (CHR ''='') 61]),
    (25, [ACCEPT_TOKEN ''anon_sym_COMMA'']),
    (26, [ACCEPT_TOKEN ''anon_sym_COLON_COLON'']),
    (27, [ACCEPT_TOKEN ''anon_sym_DOT'', ADVANCE_ON (CHR ''.'') 76]),
    (28, [ACCEPT_TOKEN ''anon_sym_DOT'', ADVANCE_ON (CHR ''.'') 76,
      ADVANCE_IF (\<lambda>c. 48 \<le> c \<and> c \<le> 57) 37]),
    (29, [ACCEPT_TOKEN ''anon_sym_COLON'', ADVANCE_ON (CHR '':'') 26]),
    (30, [ACCEPT_TOKEN ''anon_sym_LT'', ADVANCE_ON (CHR ''<'') 68, ADVANCE_ON (CHR ''='') 60]),
    (31, [ACCEPT_TOKEN ''anon_sym_GT'']),
    (32, [ACCEPT_TOKEN ''anon_sym_GT'', ADVANCE_ON (CHR ''='') 63, ADVANCE_ON (CHR ''>'') 69])]"

definition lua_lex_33_50 :: "symbol lex_table" where
  "lua_lex_33_50 = [
    (33, [ACCEPT_TOKEN ''sym_number'']),
    (34, [ACCEPT_TOKEN ''sym_number'', ADVANCE_MAP [(CHR ''.'', 37), (CHR ''B'', 12), (CHR ''b'', 12),
      (CHR ''E'', 9), (CHR ''e'', 9), (CHR ''I'', 33), (CHR ''i'', 33), (CHR ''L'', 10), (CHR ''l'', 10),
      (CHR ''U'', 11), (CHR ''u'', 11), (CHR ''X'', 5), (CHR ''x'', 5)],
      ADVANCE_IF (\<lambda>c. 48 \<le> c \<and> c \<le> 57) 35]),
    (35, [ACCEPT_TOKEN ''sym_number'', ADVANCE_MAP [(CHR ''.'', 37), (CHR ''E'', 9), (CHR ''e'', 9),
      (CHR ''I'', 33), (CHR ''i'', 33), (CHR ''L'', 10), (CHR ''l'', 10), (CHR ''U'', 11), (CHR ''u'', 11)],
      ADVANCE_IF (\<lambda>c. 48 \<le> c \<and> c \<le> 57) 35]),
    (36, [ACCEPT_TOKEN ''sym_number'', ADVANCE_MAP [(CHR ''.'', 39), (CHR ''I'', 33), (CHR ''i'', 33),
      (CHR ''L'', 10), (CHR ''l'', 10), (CHR ''P'', 9), (CHR ''p'', 9), (CHR ''U'', 11), (CHR ''u'', 11)],
      ADVANCE_IF (\<lambda>c. (48 \<le> c \<and> c \<le> 57) \<or> (65 \<le> c \<and> c \<le> 70) \<or> (97 \<le> c \<and> c \<le> 102)) 36]),
    (37, [ACCEPT_TOKEN ''sym_number'', ADVANCE_IF (\<lambda>c. c = 69 \<or> c = 101) 9,
      ADVANCE_IF (\<lambda>c. c = 73 \<or> c = 105) 33,
      ADVANCE_IF (\<lambda>c. 48 \<le> c \<and> c \<le> 57) 37]),
    (38, [ACCEPT_TOKEN ''sym_number'', ADVANCE_IF (\<lambda>c. c = 73 \<or> c = 105) 33,
      ADVANCE_IF (\<lambda>c. c = 76 \<or> c = 108) 10, ADVANCE_IF (\<lambda>c. c = 85 \<or> c = 117) 11,
      ADVANCE_IF (\<lambda>c. c = 48 \<or> c = 49) 38]),
    (39, [ACCEPT_TOKEN ''sym_number'', ADVANCE_IF (\<lambda>c. c = 73 \<or> c = 105) 33,
      ADVANCE_IF (\<lambda>c. c = 80 \<or> c = 112) 9,
      ADVANCE_IF (\<lambda>c. (48 \<le> c \<and> c \<le> 57) \<or> (65 \<le> c \<and> c \<le> 70) \<or> (97 \<le> c \<and> c \<le> 102)) 39]),
    (40, [ACCEPT_TOKEN ''sym_number'', ADVANCE_IF (\<lambda>c. c = 73 \<or> c = 105) 33,
      ADVANCE_IF (\<lambda>c. 48 \<le> c \<and> c \<le> 57) 40]),
    (41, [ACCEPT_TOKEN ''anon_sym_DQUOTE'']),
    (42, [ACCEPT_TOKEN ''anon_sym_SQUOTE'']),
    (43, [ACCEPT_TOKEN ''aux_sym__doublequote_string_content_token1'', ADVANCE_ON (CHR ''-'') 44,
      ADVANCE_IF (\<lambda>c. (9 \<le> c \<and> c \<le> 13) \<or> c = 32) 43,
      ADVANCE_IF (\<lambda>c. c \<noteq> 0 \<and> c \<noteq> 34 \<and> c \<noteq> 92) 45]),
    (44, [ACCEPT_TOKEN ''aux_sym__doublequote_string_content_token1'', ADVANCE_ON (CHR ''-'') 45,
      ADVANCE_IF (\<lambda>c. c \<noteq> 0 \<and> c \<noteq> 34 \<and> c \<noteq> 92) 45]),
    (45, [ACCEPT_TOKEN ''aux_sym__doublequote_string_content_token1'',
      ADVANCE_IF (\<lambda>c. c \<noteq> 0 \<and> c \<noteq> 34 \<and> c \<noteq> 92) 45]),
    (46, [ACCEPT_TOKEN ''aux_sym__singlequote_string_content_token1'', ADVANCE_ON (CHR ''-'') 47,
      ADVANCE_IF (\<lambda>c. (9 \<le> c \<and> c \<le> 13) \<or> c = 32) 46,
      ADVANCE_IF (\<lambda>c. c \<noteq> 0 \<and> c \<noteq> 39 \<and> c \<noteq> 92) 48]),
    (47, [ACCEPT_TOKEN ''aux_sym__singlequote_string_content_token1'', ADVANCE_ON (CHR ''-'') 48,
      ADVANCE_IF (\<lambda>c. c \<noteq> 0 \<and> c \<noteq> 39 \<and> c \<noteq> 92) 48]),
    (48, [ACCEPT_TOKEN ''aux_sym__singlequote_string_content_token1'',
      ADVANCE_IF (\<lambda>c. c \<noteq> 0 \<and> c \<noteq> 39 \<and> c \<noteq> 92) 48]),
    (49, [ACCEPT_TOKEN ''sym_escape_sequence'']),
    (50, [ACCEPT_TOKEN ''sym_escape_sequence'',
      ADVANCE_IF (\<lambda>c. (9 \<le> c \<and> c \<le> 13) \<or> c = 32) 50])]"

definition lua_lex_51_84 :: "symbol lex_table" where
  "lua_lex_51_84 = [
    (51, [ACCEPT_TOKEN ''sym_escape_sequence'', ADVANCE_IF (\<lambda>c. 48 \<le> c \<and> c \<le> 57) 49]),
    (52, [ACCEPT_TOKEN ''sym_escape_sequence'', ADVANCE_IF (\<lambda>c. 48 \<le> c \<and> c \<le> 57) 51]),
    (53, [ACCEPT_TOKEN ''sym_vararg_expression'']),
    (54, [ACCEPT_TOKEN ''anon_sym_LPAREN'']),
    (55, [ACCEPT_TOKEN ''anon_sym_RPAREN'']),
    (56, [ACCEPT_TOKEN ''anon_sym_LBRACK'']),
    (57, [ACCEPT_TOKEN ''anon_sym_RBRACK'']),
    (58, [ACCEPT_TOKEN ''anon_sym_LBRACE'']),
    (59, [ACCEPT_TOKEN ''anon_sym_RBRACE'']),
    (60, [ACCEPT_TOKEN ''anon_sym_LT_EQ'']),
    (61, [ACCEPT_TOKEN ''anon_sym_EQ_EQ'']),
    (62, [ACCEPT_TOKEN ''anon_sym_TILDE_EQ'']),
    (63, [ACCEPT_TOKEN ''anon_sym_GT_EQ'']),
    (64, [ACCEPT_TOKEN ''anon_sym_PIPE'']),
    (65, [ACCEPT_TOKEN ''anon_sym_TILDE'']),
    (66, [ACCEPT_TOKEN ''anon_sym_TILDE'', ADVANCE_ON (CHR ''='') 62]),
    (67, [ACCEPT_TOKEN ''anon_sym_AMP'']),
    (68, [ACCEPT_TOKEN ''anon_sym_LT_LT'']),
    (69, [ACCEPT_TOKEN ''anon_sym_GT_GT'']),
    (70, [ACCEPT_TOKEN ''anon_sym_PLUS'']),
    (71, [ACCEPT_TOKEN ''anon_sym_DASH'', ADVANCE_ON (CHR ''-'') 80]),
    (72, [ACCEPT_TOKEN ''anon_sym_STAR'']),
    (73, [ACCEPT_TOKEN ''anon_sym_SLASH'', ADVANCE_ON (CHR ''/'') 74]),
    (74, [ACCEPT_TOKEN ''anon_sym_SLASH_SLASH'']),
    (75, [ACCEPT_TOKEN ''anon_sym_PERCENT'']),
    (76, [ACCEPT_TOKEN ''anon_sym_DOT_DOT'']),
    (77, [ACCEPT_TOKEN ''anon_sym_CARET'']),
    (78, [ACCEPT_TOKEN ''anon_sym_POUND'']),
    (79, [ACCEPT_TOKEN ''sym_identifier'',
      ADVANCE_IF (\<lambda>c. 32 < c \<and> c \<noteq> 34 \<and> c \<noteq> 35 \<and> (c < 37 \<or> 47 < c) \<and> (c < 58 \<or> 62 < c) \<and> (c < 91 \<or> 94 < c) \<and> (c < 123 \<or> 159 < c)) 79]),
    (80, [ACCEPT_TOKEN ''anon_sym_DASH_DASH'']),
    (81, [ACCEPT_TOKEN ''anon_sym_DASH_DASH'',
      ADVANCE_IF (\<lambda>c. c \<noteq> 0 \<and> c \<noteq> 10 \<and> c \<noteq> 13) 84]),
    (82, [ACCEPT_TOKEN ''aux_sym_comment_token1'', ADVANCE_ON (CHR ''-'') 83,
      ADVANCE_IF (\<lambda>c. c = 9 \<or> c = 11 \<or> c = 12 \<or> c = 32) 82,
      ADVANCE_IF (\<lambda>c. c \<noteq> 0 \<and> (c < 9 \<or> 13 < c)) 84]),
    (83, [ACCEPT_TOKEN ''aux_sym_comment_token1'', ADVANCE_ON (CHR ''-'') 81,
      ADVANCE_IF (\<lambda>c. c \<noteq> 0 \<and> c \<noteq> 10 \<and> c \<noteq> 13) 84]),
    (84, [ACCEPT_TOKEN ''aux_sym_comment_token1'',
      ADVANCE_IF (\<lambda>c. c \<noteq> 0 \<and> c \<noteq> 10 \<and> c \<noteq> 13) 84])]"

definition lua_lex :: "symbol lex_table" where
  "lua_lex = lua_lex_0_17 @ lua_lex_18_32 @ lua_lex_33_50 @ lua_lex_51_84"

definition lua_keyword_lex_0_40 :: "symbol lex_table" where
  "lua_keyword_lex_0_40 = [
    (0, [ADVANCE_MAP [(CHR ''a'', 1), (CHR ''b'', 2), (CHR ''d'', 3), (CHR ''e'', 4), (CHR ''f'', 5),
      (CHR ''g'', 6), (CHR ''i'', 7), (CHR ''l'', 8), (CHR ''n'', 9), (CHR ''o'', 10), (CHR ''r'', 11),
      (CHR ''t'', 12), (CHR ''u'', 13), (CHR ''w'', 14)],
      SKIP_IF (\<lambda>c. (9 \<le> c \<and> c \<le> 13) \<or> c = 32) 0]),
    (1, [ADVANCE_ON (CHR ''n'') 15]),
    (2, [ADVANCE_ON (CHR ''r'') 16]),
    (3, [ADVANCE_ON (CHR ''o'') 17]),
    (4, [ADVANCE_ON (CHR ''l'') 18, ADVANCE_ON (CHR ''n'') 19]),
    (5, [ADVANCE_ON (CHR ''a'') 20, ADVANCE_ON (CHR ''o'') 21, ADVANCE_ON (CHR ''u'') 22]),
    (6, [ADVANCE_ON (CHR ''o'') 23]),
    (7, [ADVANCE_ON (CHR ''f'') 24, ADVANCE_ON (CHR ''n'') 25]),
    (8, [ADVANCE_ON (CHR ''o'') 26]),
    (9, [ADVANCE_ON (CHR ''i'') 27, ADVANCE_ON (CHR ''o'') 28]),
    (10, [ADVANCE_ON (CHR ''r'') 29]),
    (11, [ADVANCE_ON (CHR ''e'') 30]),
    (12, [ADVANCE_ON (CHR ''h'') 31, ADVANCE_ON (CHR ''r'') 32]),
    (13, [ADVANCE_ON (CHR ''n'') 33]),
    (14, [ADVANCE_ON (CHR ''h'') 34]),
    (15, [ADVANCE_ON (CHR ''d'') 35]),
    (16, [ADVANCE_ON (CHR ''e'') 36]),
    (17, [ACCEPT_TOKEN ''anon_sym_do'']),
    (18, [ADVANCE_ON (CHR ''s'') 37]),
    (19, [ADVANCE_ON (CHR ''d'') 38]),
    (20, [ADVANCE_ON (CHR ''l'') 39]),
    (21, [ADVANCE_ON (CHR ''r'') 40]),
    (22, [ADVANCE_ON (CHR ''n'') 41]),
    (23, [ADVANCE_ON (CHR ''t'') 42]),
    (24, [ACCEPT_TOKEN ''anon_sym_if'']),
    (25, [ACCEPT_TOKEN ''anon_sym_in'']),
    (26, [ADVANCE_ON (CHR ''c'') 43]),
    (27, [ADVANCE_ON (CHR ''l'') 44]),
    (28, [ADVANCE_ON (CHR ''t'') 45]),
    (29, [ACCEPT_TOKEN ''anon_sym_or'']),
    (30, [ADVANCE_ON (CHR ''p'') 46, ADVANCE_ON (CHR ''t'') 47]),
    (31, [ADVANCE_ON (CHR ''e'') 48]),
    (32, [ADVANCE_ON (CHR ''u'') 49]),
    (33, [ADVANCE_ON (CHR ''t'') 50]),
    (34, [ADVANCE_ON (CHR ''i'') 51]),
    (35, [ACCEPT_TOKEN ''anon_sym_and'']),
    (36, [ADVANCE_ON (CHR ''a'') 52]),
    (37, [ADVANCE_ON (CHR ''e'') 53]),
    (38, [ACCEPT_TOKEN ''anon_sym_end'']),
    (39, [ADVANCE_ON (CHR ''s'') 54]),
    (40, [ACCEPT_TOKEN ''anon_sym_for''])]"

definition lua_keyword_lex_41_78 :: "symbol lex_table" where
  "lua_keyword_lex_41_78 = [
    (41, [ADVANCE_ON (CHR ''c'') 55]),
    (42, [ADVANCE_ON (CHR ''o'') 56]),
    (43, [ADVANCE_ON (CHR ''a'') 57]),
    (44, [ACCEPT_TOKEN ''sym_nil'']),
    (45, [ACCEPT_TOKEN ''anon_sym_not'']),
    (46, [ADVANCE_ON (CHR ''e'') 58]),
    (47, [ADVANCE_ON (CHR ''u'') 59]),
    (48, [ADVANCE_ON (CHR ''n'') 60]),
    (49, [ADVANCE_ON (CHR ''e'') 61]),
    (50, [ADVANCE_ON (CHR ''i'') 62]),
    (51, [ADVANCE_ON (CHR ''l'') 63]),
    (52, [ADVANCE_ON (CHR ''k'') 64]),
    (53, [ACCEPT_TOKEN ''anon_sym_else'', ADVANCE_ON (CHR ''i'') 65]),
    (54, [ADVANCE_ON (CHR ''e'') 66]),
    (55, [ADVANCE_ON (CHR ''t'') 67]),
    (56, [ACCEPT_TOKEN ''anon_sym_goto'']),
    (57, [ADVANCE_ON (CHR ''l'') 68]),
    (58, [ADVANCE_ON (CHR ''a'') 69]),
    (59, [ADVANCE_ON (CHR ''r'') 70]),
    (60, [ACCEPT_TOKEN ''anon_sym_then'']),
    (61, [ACCEPT_TOKEN ''sym_true'']),
    (62, [ADVANCE_ON (CHR ''l'') 71]),
    (63, [ADVANCE_ON (CHR ''e'') 72]),
    (64, [ACCEPT_TOKEN ''sym_break_statement'']),
    (65, [ADVANCE_ON (CHR ''f'') 73]),
    (66, [ACCEPT_TOKEN ''sym_false'']),
    (67, [ADVANCE_ON (CHR ''i'') 74]),
    (68, [ACCEPT_TOKEN ''anon_sym_local'']),
    (69, [ADVANCE_ON (CHR ''t'') 75]),
    (70, [ADVANCE_ON (CHR ''n'') 76]),
    (71, [ACCEPT_TOKEN ''anon_sym_until'']),
    (72, [ACCEPT_TOKEN ''anon_sym_while'']),
    (73, [ACCEPT_TOKEN ''anon_sym_elseif'']),
    (74, [ADVANCE_ON (CHR ''o'') 77]),
    (75, [ACCEPT_TOKEN ''anon_sym_repeat'']),
    (76, [ACCEPT_TOKEN ''anon_sym_return'']),
    (77, [ADVANCE_ON (CHR ''n'') 78]),
    (78, [ACCEPT_TOKEN ''anon_sym_function''])]"

definition lua_keyword_lex :: "symbol lex_table" where
  "lua_keyword_lex = lua_keyword_lex_0_40 @ lua_keyword_lex_41_78"

text \<open>The cases of the tables, for the simplifier.\<close>

lemmas lua_lex_at =
  lex_case_append
  lua_lex_def [THEN arg_cong [where f = lex_case], THEN fun_cong]
  lua_lex_0_17_def [THEN arg_cong [where f = lex_case], THEN fun_cong]
  lua_lex_18_32_def [THEN arg_cong [where f = lex_case], THEN fun_cong]
  lua_lex_33_50_def [THEN arg_cong [where f = lex_case], THEN fun_cong]
  lua_lex_51_84_def [THEN arg_cong [where f = lex_case], THEN fun_cong]

lemmas lua_keyword_lex_at =
  lex_case_append
  lua_keyword_lex_def [THEN arg_cong [where f = lex_case], THEN fun_cong]
  lua_keyword_lex_0_40_def [THEN arg_cong [where f = lex_case], THEN fun_cong]
  lua_keyword_lex_41_78_def [THEN arg_cong [where f = lex_case], THEN fun_cong]

end
