(* ===== verification/Lua_Lexer.thy ===== *)
theory Lua_Lexer
  imports Lua_Tables
begin

text \<open>
  What Lua's generated lexer reads: the words of \<open>ts_lex_keywords\<close>, and the numbers, names, operators and
  escape sequences of \<open>ts_lex\<close>, as functions on the text that do not mention the states of the table. The
  lemmas \<open>accepts_<n>\<close> say what the table accepts from the state \<open>n\<close> on. Not covered are the states 1, 2 and
  82, which read the content of strings and comments.
\<close>

section \<open>Keywords\<close>

definition lua_keywords :: "(string \<times> symbol) list" where
  "lua_keywords =
     [(''and'', ''anon_sym_and''), (''break'', ''sym_break_statement''), (''do'', ''anon_sym_do''),
      (''else'', ''anon_sym_else''), (''elseif'', ''anon_sym_elseif''), (''end'', ''anon_sym_end''),
      (''false'', ''sym_false''), (''for'', ''anon_sym_for''), (''function'', ''anon_sym_function''),
      (''goto'', ''anon_sym_goto''), (''if'', ''anon_sym_if''), (''in'', ''anon_sym_in''),
      (''local'', ''anon_sym_local''), (''nil'', ''sym_nil''), (''not'', ''anon_sym_not''),
      (''or'', ''anon_sym_or''), (''repeat'', ''anon_sym_repeat''), (''return'', ''anon_sym_return''),
      (''then'', ''anon_sym_then''), (''true'', ''sym_true''), (''until'', ''anon_sym_until''),
      (''while'', ''anon_sym_while'')]"

lemmas tails_lua_keywords = lua_keywords_def [THEN arg_cong [where f = "tails c" for c]]

lemma lua_keyword_tidy: "tidy lua_keyword_lex (\<lambda>s. s \<noteq> 0)"
  by code_simp

lemma lua_keyword_length: "length lua_keyword_lex = 79"
  by (simp add: lua_keyword_lex_def lua_keyword_lex_0_40_def lua_keyword_lex_41_78_def)

definition lua_first_letters :: "(char \<times> nat) list" where
  "lua_first_letters =
     [(CHR ''a'', 1), (CHR ''b'', 2), (CHR ''d'', 3), (CHR ''e'', 4), (CHR ''f'', 5), (CHR ''g'', 6),
      (CHR ''i'', 7), (CHR ''l'', 8), (CHR ''n'', 9), (CHR ''o'', 10), (CHR ''r'', 11), (CHR ''t'', 12),
      (CHR ''u'', 13), (CHR ''w'', 14)]"

lemma lua_keyword_arcs: "spells_arcs 8 lua_keyword_lex lua_first_letters lua_keywords"
  by (simp add: lua_first_letters_def tails_lua_keywords spells_numeral lua_keyword_lex_at cong: tails_cong)

lemma lua_keyword_words: "word_arcs iswspace lua_keyword_lex 8 lua_keywords lua_first_letters"
  by (simp add: word_arcs_def lua_keyword_length lua_keyword_arcs)
    (simp add: iswspace_def lua_keywords_def lua_first_letters_def)

lemma iswspace_range: "iswspace = (\<lambda>c. (9 \<le> c \<and> c \<le> 13) \<or> c = 32)"
  by (auto simp: iswspace_def)

text \<open>C16. The keyword lexer reads, behind blanks, the longest keyword that the text begins with, and
reports the keyword's symbol; it fails where there is none.\<close>

theorem lua_keyword:
  "let l' = advance_while iswspace True l in
   lexed (longest (keyword_of lua_keywords) (text_ahead l')) l' (ts_lex lua_keyword_lex 0 l)"
  unfolding Let_def
proof (rule ts_lex_words [OF lua_keyword_tidy _ _ lua_keyword_words])
  show "lex_case lua_keyword_lex 0 = Some [ADVANCE_MAP lua_first_letters, SKIP_IF iswspace 0]"
    by (simp add: lua_keyword_lex_at lua_first_letters_def iswspace_range)
qed simp

section \<open>Numbers\<close>

definition imaginary :: "code_point list \<Rightarrow> bool" where
  "imaginary w \<longleftrightarrow> w = [] \<or> List.map towlower w = codes ''i''"

definition integer_suffix :: "code_point list \<Rightarrow> bool" where
  "integer_suffix w \<longleftrightarrow> imaginary w \<or> List.map towlower w = codes ''ll'' \<or> List.map towlower w = codes ''ull''"

fun begins_with :: "(code_point \<Rightarrow> bool) \<Rightarrow> code_point list \<Rightarrow> bool" where
  "begins_with P [] \<longleftrightarrow> False"
| "begins_with P (c # cs) \<longleftrightarrow> P c"

definition lua_power :: "code_point list \<Rightarrow> bool" where
  "lua_power w \<longleftrightarrow>
     (let r = (if begins_with (\<lambda>c. c = c_plus \<or> c = c_minus) w then tl w else w)
      in begins_with iswdigit r \<and> imaginary (dropWhile iswdigit r))"

fun exponent :: "code_point \<Rightarrow> code_point list \<Rightarrow> bool" where
  "exponent e [] \<longleftrightarrow> False"
| "exponent e (c # cs) \<longleftrightarrow> towlower c = e \<and> lua_power cs"

definition fraction :: "(code_point \<Rightarrow> bool) \<Rightarrow> code_point \<Rightarrow> code_point list \<Rightarrow> bool" where
  "fraction digit e w \<longleftrightarrow> (let r = dropWhile digit w in imaginary r \<or> exponent e r)"

definition numeral_rest :: "(code_point \<Rightarrow> bool) \<Rightarrow> code_point \<Rightarrow> code_point list \<Rightarrow> bool" where
  "numeral_rest digit e w \<longleftrightarrow>
     (let r = dropWhile digit w
      in integer_suffix r \<or> exponent e r \<or> begins_with (\<lambda>c. c = c_dot) r \<and> fraction digit e (tl r))"

definition hexadecimal :: "code_point list \<Rightarrow> bool" where
  "hexadecimal w \<longleftrightarrow>
     begins_with iswxdigit w \<and> numeral_rest iswxdigit 112 w \<or>
     begins_with (\<lambda>c. c = c_dot) w \<and> begins_with iswxdigit (tl w) \<and> fraction iswxdigit 112 (tl w)"

definition binary :: "code_point list \<Rightarrow> bool" where
  "binary w \<longleftrightarrow> begins_with (\<lambda>c. c = 48 \<or> c = 49) w \<and> integer_suffix (dropWhile (\<lambda>c. c = 48 \<or> c = 49) w)"

text \<open>A number of Lua, with the suffixes of LuaJIT.\<close>

fun lua_number :: "code_point list \<Rightarrow> bool" where
  "lua_number [] \<longleftrightarrow> False"
| "lua_number (c # w) \<longleftrightarrow>
     (if c = c_dot then begins_with iswdigit w \<and> fraction iswdigit c_e w
      else iswdigit c \<and>
        (numeral_rest iswdigit c_e w \<or>
         c = 48 \<and> begins_with (\<lambda>c. towlower c = c_x) w \<and> hexadecimal (tl w) \<or>
         c = 48 \<and> begins_with (\<lambda>c. towlower c = 98) w \<and> binary (tl w)))"

lemma towlower_letter:
  "towlower c = 98 \<longleftrightarrow> c = 66 \<or> c = 98" "towlower c = 101 \<longleftrightarrow> c = 69 \<or> c = 101"
  "towlower c = 105 \<longleftrightarrow> c = 73 \<or> c = 105" "towlower c = 108 \<longleftrightarrow> c = 76 \<or> c = 108"
  "towlower c = 112 \<longleftrightarrow> c = 80 \<or> c = 112" "towlower c = 117 \<longleftrightarrow> c = 85 \<or> c = 117"
  "towlower c = 120 \<longleftrightarrow> c = 88 \<or> c = 120"
  by (auto simp: towlower_def)


definition number_if :: "bool \<Rightarrow> symbol option" where
  "number_if b = (if b then Some ''sym_number'' else None)"

lemma number_if_simps [simp]: "number_if True = Some ''sym_number''" "number_if False = None"
  by (simp_all add: number_if_def)

lemma imaginary_simps [simp]:
  "imaginary []" "imaginary (c # w) \<longleftrightarrow> towlower c = 105 \<and> w = []"
  by (simp_all add: imaginary_def)

lemma integer_suffix_simps [simp]:
  "integer_suffix []"
  "integer_suffix (c # w) \<longleftrightarrow>
     towlower c = 105 \<and> w = [] \<or> towlower c = 108 \<and> List.map towlower w = codes ''l'' \<or>
     towlower c = 117 \<and> List.map towlower w = codes ''ll''"
  by (auto simp: integer_suffix_def)

text \<open>The states of a number, as moves on the classes of characters.\<close>

lemma number_tokens:
  "token_of lua_lex 33 = Some ''sym_number''" "token_of lua_lex 34 = Some ''sym_number''"
  "token_of lua_lex 35 = Some ''sym_number''" "token_of lua_lex 36 = Some ''sym_number''"
  "token_of lua_lex 37 = Some ''sym_number''" "token_of lua_lex 38 = Some ''sym_number''"
  "token_of lua_lex 39 = Some ''sym_number''" "token_of lua_lex 40 = Some ''sym_number''"
  "token_of lua_lex 3 = None" "token_of lua_lex 5 = None" "token_of lua_lex 9 = None"
  "token_of lua_lex 10 = None" "token_of lua_lex 11 = None" "token_of lua_lex 12 = None"
  "token_of lua_lex 13 = None" "token_of lua_lex 15 = None"
  by (simp_all add: token_of_def lua_lex_at)

lemma if_or: "(if p \<or> q then a else b) = (if p then a else if q then a else b)"
  by simp

lemmas lua_moves =
  delta_def lua_lex_at towlower_letter iswdigit_def iswxdigit_def if_or

lemma number_moves:
  "delta lua_lex 33 c = None"
  "delta lua_lex 10 c = (if towlower c = 108 then Some 33 else None)"
  "delta lua_lex 11 c = (if towlower c = 108 then Some 10 else None)"
  "delta lua_lex 12 c = (if c = 48 \<or> c = 49 then Some 38 else None)"
  "delta lua_lex 13 c = (if iswdigit c then Some 40 else None)"
  "delta lua_lex 15 c = (if iswxdigit c then Some 39 else None)"
  "delta lua_lex 9 c = (if c = 43 \<or> c = 45 then Some 13 else if iswdigit c then Some 40 else None)"
  "delta lua_lex 5 c = (if c = 46 then Some 15 else if iswxdigit c then Some 36 else None)"
  "delta lua_lex 40 c = (if towlower c = 105 then Some 33 else if iswdigit c then Some 40 else None)"
  by (simp_all add: lua_moves)

lemma numeral_moves:
  "delta lua_lex 34 c =
     (if c = 46 then Some 37 else if towlower c = 98 then Some 12 else if towlower c = 101 then Some 9
      else if towlower c = 105 then Some 33 else if towlower c = 108 then Some 10
      else if towlower c = 117 then Some 11 else if towlower c = 120 then Some 5
      else if iswdigit c then Some 35 else None)"
  "delta lua_lex 35 c =
     (if c = 46 then Some 37 else if towlower c = 101 then Some 9 else if towlower c = 105 then Some 33
      else if towlower c = 108 then Some 10 else if towlower c = 117 then Some 11
      else if iswdigit c then Some 35 else None)"
  "delta lua_lex 36 c =
     (if c = 46 then Some 39 else if towlower c = 105 then Some 33 else if towlower c = 108 then Some 10
      else if towlower c = 112 then Some 9 else if towlower c = 117 then Some 11
      else if iswxdigit c then Some 36 else None)"
  "delta lua_lex 37 c =
     (if towlower c = 101 then Some 9 else if towlower c = 105 then Some 33
      else if iswdigit c then Some 37 else None)"
  "delta lua_lex 38 c =
     (if towlower c = 105 then Some 33 else if towlower c = 108 then Some 10
      else if towlower c = 117 then Some 11 else if c = 48 \<or> c = 49 then Some 38 else None)"
  "delta lua_lex 39 c =
     (if towlower c = 105 then Some 33 else if towlower c = 112 then Some 9
      else if iswxdigit c then Some 39 else None)"
  by (simp_all add: lua_moves)

lemmas number_steps = accepts_Cons number_tokens number_moves numeral_moves

lemma dot_sign_class [simp]:
  "towlower 46 = 46" "\<not> iswdigit 46" "\<not> iswxdigit 46" "\<not> iswdigit 43" "\<not> iswdigit 45" "iswdigit 48"
  by (simp_all add: towlower_def iswdigit_def iswxdigit_def)

lemma digit_letter:
  "iswdigit c \<Longrightarrow> towlower c < 97" "iswxdigit c \<Longrightarrow> towlower c < 103"
  by (auto simp: towlower_def iswdigit_def iswxdigit_def)

lemma letter_class:
  "towlower c = 105 \<Longrightarrow> \<not> iswdigit c \<and> \<not> iswxdigit c" "towlower c = 101 \<Longrightarrow> \<not> iswdigit c"
  "towlower c = 108 \<Longrightarrow> \<not> iswdigit c \<and> \<not> iswxdigit c" "towlower c = 117 \<Longrightarrow> \<not> iswdigit c \<and> \<not> iswxdigit c"
  "towlower c = 112 \<Longrightarrow> \<not> iswxdigit c" "towlower c = 98 \<Longrightarrow> \<not> iswdigit c" "towlower c = 120 \<Longrightarrow> \<not> iswdigit c"
  using digit_letter [of c] by auto

lemma accepts_33: "accepts lua_lex 33 w = number_if (w = [])"
  by (cases w) (simp_all add: number_steps)

lemma accepts_10: "accepts lua_lex 10 w = number_if (List.map towlower w = codes ''l'')"
  by (cases w) (simp_all add: number_steps accepts_33)

lemma accepts_11: "accepts lua_lex 11 w = number_if (List.map towlower w = codes ''ll'')"
  by (cases w) (simp_all add: number_steps accepts_10)

lemma accepts_40: "accepts lua_lex 40 w = number_if (imaginary (dropWhile iswdigit w))"
  by (induction w) (auto simp: number_steps accepts_33 letter_class)

lemma accepts_13: "accepts lua_lex 13 w = number_if (begins_with iswdigit w \<and> imaginary (dropWhile iswdigit w))"
  by (cases w) (simp_all add: number_steps accepts_40)

lemma accepts_9: "accepts lua_lex 9 w = number_if (lua_power w)"
  by (cases w) (simp_all add: number_steps accepts_13 accepts_40 lua_power_def Let_def)

lemma accepts_37: "accepts lua_lex 37 w = number_if (fraction iswdigit c_e w)"
proof (induction w)
  case (Cons c w)
  then show ?case by (auto simp: number_steps accepts_33 accepts_9 fraction_def Let_def letter_class)
qed (simp add: number_steps fraction_def)

lemma accepts_39: "accepts lua_lex 39 w = number_if (fraction iswxdigit 112 w)"
proof (induction w)
  case (Cons c w)
  then show ?case by (auto simp: number_steps accepts_33 accepts_9 fraction_def Let_def letter_class)
qed (simp add: number_steps fraction_def)

lemma accepts_35: "accepts lua_lex 35 w = number_if (numeral_rest iswdigit c_e w)"
proof (induction w)
  case (Cons c w)
  then show ?case
    by (auto simp: number_steps accepts_33 accepts_9 accepts_10 accepts_11 accepts_37 numeral_rest_def Let_def letter_class)
qed (simp add: number_steps numeral_rest_def)

lemma accepts_36: "accepts lua_lex 36 w = number_if (numeral_rest iswxdigit 112 w)"
proof (induction w)
  case (Cons c w)
  then show ?case
    by (auto simp: number_steps accepts_33 accepts_9 accepts_10 accepts_11 accepts_39 numeral_rest_def Let_def letter_class)
qed (simp add: number_steps numeral_rest_def)

lemma accepts_38: "accepts lua_lex 38 w = number_if (integer_suffix (dropWhile (\<lambda>c. c = 48 \<or> c = 49) w))"
proof (induction w)
  case (Cons c w)
  then show ?case by (auto simp: number_steps accepts_33 accepts_10 accepts_11 towlower_letter)
qed (simp add: number_steps)

lemma accepts_15: "accepts lua_lex 15 w = number_if (begins_with iswxdigit w \<and> fraction iswxdigit 112 w)"
  by (cases w) (simp_all add: number_steps accepts_39 fraction_def)

lemma accepts_5: "accepts lua_lex 5 w = number_if (hexadecimal w)"
  by (cases w) (auto simp: number_steps accepts_15 accepts_36 hexadecimal_def numeral_rest_def)

lemma accepts_12: "accepts lua_lex 12 w = number_if (binary w)"
  by (cases w) (auto simp: number_steps accepts_38 binary_def)

lemma accepts_34: "accepts lua_lex 34 w = number_if (lua_number (48 # w))"
proof (cases w)
  case (Cons c v)
  then show ?thesis
    by (auto simp: number_steps accepts_33 accepts_9 accepts_10 accepts_11 accepts_12 accepts_5 accepts_35
        accepts_37 numeral_rest_def Let_def letter_class)
qed (simp add: number_steps numeral_rest_def iswdigit_def)

section \<open>Names and operators\<close>

text \<open>A character of a name: all that no other token of Lua begins with, from 160 on every character.\<close>

definition name_char :: "code_point \<Rightarrow> bool" where
  "name_char c \<longleftrightarrow> c = c_bang \<or> c = c_dollar \<or> iswdigit c \<or> (63 \<le> c \<and> c \<le> 90) \<or>
     (95 \<le> c \<and> c \<le> 122) \<or> 160 \<le> c"

text \<open>What may follow a backslash.\<close>

fun lua_escape :: "code_point list \<Rightarrow> bool" where
  "lua_escape [] \<longleftrightarrow> False"
| "lua_escape (c # w) \<longleftrightarrow>
     (if c = c_u then begins_with (\<lambda>c. c = c_lbrace) w \<and> begins_with iswxdigit (tl w) \<and>
        dropWhile iswxdigit (tl w) = [c_rbrace]
      else if c = c_x then length w = 2 \<and> list_all iswxdigit w
      else if c = 122 then list_all iswspace w
      else if iswdigit c then length w \<le> 2 \<and> list_all iswdigit w
      else w = [] \<and>
        (c = c_nl \<or> c = c_dquote \<or> c = c_squote \<or> c = c_bslash \<or> c = c_a \<or> c = 98 \<or> c = c_f \<or>
         c = c_n \<or> c = c_r \<or> c = c_t \<or> c = 118))"

text \<open>The operators and delimiters that can be read in the state \<open>s\<close>.\<close>

definition lua_operators_19 :: "(string \<times> symbol) list" where
  "lua_operators_19 =
     [([CHR 0x22], ''anon_sym_DQUOTE''), (''#'', ''anon_sym_POUND''), ([CHR 0x27], ''anon_sym_SQUOTE''),
      (''('', ''anon_sym_LPAREN''), ('')'', ''anon_sym_RPAREN''), (''-'', ''anon_sym_DASH''),
      (''--'', ''anon_sym_DASH_DASH''), (''...'', ''sym_vararg_expression''), ('';'', ''anon_sym_SEMI''),
      (''>'', ''anon_sym_GT''), (''['', ''anon_sym_LBRACK''), (''{'', ''anon_sym_LBRACE''),
      (''}'', ''anon_sym_RBRACE''), (''~'', ''anon_sym_TILDE'')]"

definition lua_operators_20 :: "(string \<times> symbol) list" where
  "lua_operators_20 =
     [([CHR 0x22], ''anon_sym_DQUOTE''), (''%'', ''anon_sym_PERCENT''), (''&'', ''anon_sym_AMP''),
      ([CHR 0x27], ''anon_sym_SQUOTE''), (''('', ''anon_sym_LPAREN''), ('')'', ''anon_sym_RPAREN''),
      (''*'', ''anon_sym_STAR''), (''+'', ''anon_sym_PLUS''), ('','', ''anon_sym_COMMA''),
      (''-'', ''anon_sym_DASH''), (''--'', ''anon_sym_DASH_DASH''), (''.'', ''anon_sym_DOT''),
      (''..'', ''anon_sym_DOT_DOT''), (''/'', ''anon_sym_SLASH''), (''//'', ''anon_sym_SLASH_SLASH''),
      ('':'', ''anon_sym_COLON''), (''::'', ''anon_sym_COLON_COLON''), ('';'', ''anon_sym_SEMI''),
      (''<'', ''anon_sym_LT''), (''<<'', ''anon_sym_LT_LT''), (''<='', ''anon_sym_LT_EQ''),
      (''='', ''anon_sym_EQ''), (''=='', ''anon_sym_EQ_EQ''), (''>'', ''anon_sym_GT''),
      (''>='', ''anon_sym_GT_EQ''), (''>>'', ''anon_sym_GT_GT''), (''['', ''anon_sym_LBRACK''),
      ('']'', ''anon_sym_RBRACK''), (''^'', ''anon_sym_CARET''), (''{'', ''anon_sym_LBRACE''),
      (''|'', ''anon_sym_PIPE''), (''}'', ''anon_sym_RBRACE''), (''~'', ''anon_sym_TILDE''),
      (''~='', ''anon_sym_TILDE_EQ'')]"

definition lua_operators :: "nat \<Rightarrow> (string \<times> symbol) list" where
  "lua_operators s =
     (if s = 19 then lua_operators_19 else if s = 20 then lua_operators_20
      else (''#'', ''anon_sym_POUND'') # lua_operators_20)"

lemmas tails_lua_operators =
  lua_operators_19_def [THEN arg_cong [where f = "tails c" for c]]
  lua_operators_20_def [THEN arg_cong [where f = "tails c" for c]]

text \<open>Which token a text is, for the state a token begins in.\<close>

definition lua_lexeme :: "nat \<Rightarrow> code_point list \<Rightarrow> symbol option" where
  "lua_lexeme s w =
     (case keyword_of (lua_operators s) w of
        Some k \<Rightarrow> Some k
      | None \<Rightarrow>
          if s \<noteq> 20 \<and> lua_number w then Some ''sym_number''
          else if s = 20 \<and> begins_with (\<lambda>c. c = c_hash) w \<and> list_all (\<lambda>c. c \<noteq> 0 \<and> c \<noteq> c_nl) w
          then Some ''sym_hash_bang_line''
          else if s = 0 \<and> begins_with (\<lambda>c. c = c_bslash) w \<and> lua_escape (tl w)
          then Some ''sym_escape_sequence''
          else if begins_with (\<lambda>c. \<not> iswdigit c) w \<and> list_all name_char w then Some ''sym_identifier''
          else None)"

lemma name_moves:
  "delta lua_lex 79 c = (if name_char c then Some 79 else None)"
  "token_of lua_lex 79 = Some ''sym_identifier''"
  by (auto simp: delta_def token_of_def lua_lex_at name_char_def iswdigit_def)

lemma accepts_79: "accepts lua_lex 79 w = (if list_all name_char w then Some ''sym_identifier'' else None)"
  by (induction w) (simp_all add: accepts_Cons name_moves)

lemma hash_bang_moves:
  "delta lua_lex 22 c = (if c \<noteq> 0 \<and> c \<noteq> 10 then Some 22 else None)"
  "token_of lua_lex 22 = Some ''sym_hash_bang_line''"
  by (auto simp: delta_def token_of_def lua_lex_at)

lemma accepts_22: "accepts lua_lex 22 w =
    (if list_all (\<lambda>c. c \<noteq> 0 \<and> c \<noteq> c_nl) w then Some ''sym_hash_bang_line'' else None)"
  by (induction w) (simp_all add: accepts_Cons hash_bang_moves)

definition escape_if :: "bool \<Rightarrow> symbol option" where
  "escape_if b = (if b then Some ''sym_escape_sequence'' else None)"

lemma escape_if_simps [simp]: "escape_if True = Some ''sym_escape_sequence''" "escape_if False = None"
  by (simp_all add: escape_if_def)

lemma single_range: "k \<le> c \<and> c \<le> k \<longleftrightarrow> c = (k :: int)"
  by auto

lemma escape_set:
  "set_contains sym_escape_sequence_character_set_1 12 c = Some
     (c = 10 \<or> c = 34 \<or> c = 39 \<or> 48 \<le> c \<and> c \<le> 57 \<or> c = 92 \<or> 97 \<le> c \<and> c \<le> 98 \<or> c = 102 \<or> c = 110 \<or>
      c = 114 \<or> 116 \<le> c \<and> c \<le> 118 \<or> c = 120 \<or> c = 122)"
proof -
  have "ranges_ok sym_escape_sequence_character_set_1" "sym_escape_sequence_character_set_1 \<noteq> []"
    "length sym_escape_sequence_character_set_1 = 12"
    by (simp_all add: sym_escape_sequence_character_set_1_def)
  then have "set_contains sym_escape_sequence_character_set_1 12 c =
      Some (within_ranges sym_escape_sequence_character_set_1 c)"
    using set_contains_ranges [of sym_escape_sequence_character_set_1 c] by metis
  then show ?thesis
    by (simp add: within_ranges_def sym_escape_sequence_character_set_1_def single_range)
qed

lemma escape_tokens:
  "token_of lua_lex 6 = None" "token_of lua_lex 7 = None" "token_of lua_lex 8 = None"
  "token_of lua_lex 14 = None" "token_of lua_lex 16 = None" "token_of lua_lex 17 = None"
  "token_of lua_lex 49 = Some ''sym_escape_sequence''" "token_of lua_lex 50 = Some ''sym_escape_sequence''"
  "token_of lua_lex 51 = Some ''sym_escape_sequence''" "token_of lua_lex 52 = Some ''sym_escape_sequence''"
  by (simp_all add: token_of_def lua_lex_at)

lemma escape_moves:
  "delta lua_lex 49 c = None"
  "delta lua_lex 50 c = (if iswspace c then Some 50 else None)"
  "delta lua_lex 51 c = (if iswdigit c then Some 49 else None)"
  "delta lua_lex 52 c = (if iswdigit c then Some 51 else None)"
  "delta lua_lex 7 c = (if c = 123 then Some 16 else None)"
  "delta lua_lex 8 c = (if iswxdigit c then Some 8 else if c = 125 then Some 49 else None)"
  "delta lua_lex 14 c = (if iswxdigit c then Some 49 else None)"
  "delta lua_lex 16 c = (if iswxdigit c then Some 8 else None)"
  "delta lua_lex 17 c = (if iswxdigit c then Some 14 else None)"
  by (simp_all add: lua_moves iswspace_range)

lemma escape_start:
  "delta lua_lex 6 c =
     (if c = 117 then Some 7 else if c = 120 then Some 17 else if c = 122 then Some 50
      else if iswdigit c then Some 52
      else if c = 10 \<or> c = 34 \<or> c = 39 \<or> c = 92 \<or> c = 97 \<or> c = 98 \<or> c = 102 \<or> c = 110 \<or> c = 114 \<or> c = 116 \<or> c = 118
      then Some 49 else None)"
  by (auto simp: delta_def lua_lex_at iswdigit_def escape_set)

lemmas escape_steps = accepts_Cons escape_tokens escape_moves

lemma accepts_49: "accepts lua_lex 49 w = escape_if (w = [])"
  by (cases w) (simp_all add: escape_steps)

lemma accepts_50: "accepts lua_lex 50 w = escape_if (list_all iswspace w)"
  by (induction w) (simp_all add: escape_steps)

lemma accepts_52: "accepts lua_lex 52 w = escape_if (length w \<le> 2 \<and> list_all iswdigit w)"
proof (cases w)
  case (Cons c v)
  then show ?thesis by (cases v) (auto simp: escape_steps accepts_49 escape_if_def)
qed (simp add: escape_steps)

lemma accepts_17: "accepts lua_lex 17 w = escape_if (length w = 2 \<and> list_all iswxdigit w)"
proof (cases w)
  case (Cons c v)
  then show ?thesis by (cases v) (auto simp: escape_steps accepts_49 escape_if_def)
qed (simp add: escape_steps)

lemma accepts_8: "accepts lua_lex 8 w = escape_if (dropWhile iswxdigit w = [c_rbrace])"
  by (induction w) (auto simp: escape_steps accepts_49)

lemma accepts_7: "accepts lua_lex 7 w = escape_if (begins_with (\<lambda>c. c = c_lbrace) w \<and>
    begins_with iswxdigit (tl w) \<and> dropWhile iswxdigit (tl w) = [c_rbrace])"
  by (cases w; cases "tl w") (auto simp: escape_steps accepts_8)

lemma accepts_6: "accepts lua_lex 6 w = escape_if (lua_escape w)"
  by (cases w) (simp_all add: escape_tokens accepts_Cons escape_start accepts_7 accepts_17 accepts_50
      accepts_52 accepts_49)

section \<open>Tokens\<close>

lemma operator_steps:
  "delta lua_lex 28 c = (if c = 46 then Some 76 else if iswdigit c then Some 37 else None)"
  "delta lua_lex 3 c = (if c = 46 then Some 4 else if iswdigit c then Some 37 else None)"
  "delta lua_lex 4 c = (if c = 46 then Some 53 else None)"
  "delta lua_lex 76 c = None" "delta lua_lex 53 c = None"
  "token_of lua_lex 28 = Some ''anon_sym_DOT''" "token_of lua_lex 76 = Some ''anon_sym_DOT_DOT''"
  "token_of lua_lex 4 = None" "token_of lua_lex 53 = Some ''sym_vararg_expression''"
  by (simp_all add: lua_moves token_of_def)

lemma accepts_76: "accepts lua_lex 76 w = (if w = [] then Some ''anon_sym_DOT_DOT'' else None)"
  by (cases w) (simp_all add: accepts_Cons operator_steps)

lemma accepts_4: "accepts lua_lex 4 w = (if w = [c_dot] then Some ''sym_vararg_expression'' else None)"
proof (cases w)
  case (Cons c v)
  then show ?thesis by (cases v) (auto simp: accepts_Cons operator_steps)
qed (simp add: operator_steps)

lemma fraction_digit: "iswdigit c \<Longrightarrow> fraction iswdigit e (c # w) \<longleftrightarrow> fraction iswdigit e w"
  by (simp add: fraction_def)

lemma accepts_28:
  "accepts lua_lex 28 w =
     (if w = [] then Some ''anon_sym_DOT'' else if w = [c_dot] then Some ''anon_sym_DOT_DOT''
      else number_if (lua_number (c_dot # w)))"
  by (cases w) (auto simp: accepts_Cons [of _ 28] operator_steps accepts_76 accepts_37 fraction_digit)

lemma accepts_3:
  "accepts lua_lex 3 w =
     (if w = [c_dot, c_dot] then Some ''sym_vararg_expression'' else number_if (lua_number (c_dot # w)))"
  by (cases w) (auto simp: accepts_Cons [of _ 3] number_tokens operator_steps accepts_4 accepts_37 fraction_digit)

text \<open>
  What a case that begins a token goes on with: the first characters of operators, the other
  characters of the switch, digits and names.
\<close>

definition start_arcs :: "nat \<Rightarrow> (char \<times> nat) list" where
  "start_arcs s =
     (if s = 19 then
        [(CHR 0x22, 41), (CHR ''#'', 78), (CHR 0x27, 42), (CHR ''('', 54), (CHR '')'', 55),
         (CHR ''-'', 71), (CHR ''.'', 3), (CHR ''0'', 34), (CHR '';'', 23), (CHR ''>'', 31),
         (CHR ''['', 56), (CHR ''{'', 58), (CHR ''}'', 59), (CHR ''~'', 65)]
      else
        [(CHR 0x22, 41), (CHR ''#'', if s = 20 then 22 else 78), (CHR ''%'', 75), (CHR ''&'', 67),
         (CHR 0x27, 42), (CHR ''('', 54), (CHR '')'', 55), (CHR ''*'', 72), (CHR ''+'', 70), (CHR '','', 25),
         (CHR ''-'', 71), (CHR ''.'', if s = 20 then 27 else 28), (CHR ''/'', 73)] @
        (if s = 20 then [] else [(CHR ''0'', 34)]) @
        [(CHR '':'', 29), (CHR '';'', 23), (CHR ''<'', 30), (CHR ''='', 24), (CHR ''>'', 32), (CHR ''['', 56)] @
        (if s = 0 then [(CHR 0x5C, 6)] else []) @
        [(CHR '']'', 57), (CHR ''^'', 77), (CHR ''{'', 58), (CHR ''|'', 64), (CHR ''}'', 59), (CHR ''~'', 66)])"

definition start_name :: "nat \<Rightarrow> code_point \<Rightarrow> bool" where
  "start_name s = (\<lambda>c. 32 < c \<and> ((s \<noteq> 19 \<and> s \<noteq> 20) \<or> c < 37 \<or> 62 < c) \<and> (s = 0 \<or> c < 91 \<or> 94 < c) \<and> (c < 123 \<or> 159 < c))"

definition start_body :: "nat \<Rightarrow> symbol lex_body" where
  "start_body s = [EOF_ADVANCE 21, ADVANCE_MAP (start_arcs s), SKIP_IF iswspace (if s = 0 then 18 else s)] @
     (if s = 20 then [] else [ADVANCE_IF (\<lambda>c. 49 \<le> c \<and> c \<le> 57) 35]) @ [ADVANCE_IF (start_name s) 79]"

lemma start_cases:
  "lex_case lua_lex 0 = Some (start_body 0)" "lex_case lua_lex 18 = Some (start_body 18)"
  "lex_case lua_lex 19 = Some (start_body 19)" "lex_case lua_lex 20 = Some (start_body 20)"
  by (simp_all add: lua_lex_at start_body_def start_arcs_def start_name_def iswspace_range)

definition operator_arcs_19 :: "(char \<times> nat) list" where
  "operator_arcs_19 =
     [(CHR 0x22, 41), (CHR ''#'', 78), (CHR 0x27, 42), (CHR ''('', 54), (CHR '')'', 55), (CHR ''-'', 71),
      (CHR '';'', 23), (CHR ''>'', 31), (CHR ''['', 56), (CHR ''{'', 58), (CHR ''}'', 59), (CHR ''~'', 65)]"

definition operator_arcs_20 :: "(char \<times> nat) list" where
  "operator_arcs_20 =
     [(CHR 0x22, 41), (CHR ''%'', 75), (CHR ''&'', 67), (CHR 0x27, 42), (CHR ''('', 54), (CHR '')'', 55),
      (CHR ''*'', 72), (CHR ''+'', 70), (CHR '','', 25), (CHR ''-'', 71), (CHR ''/'', 73), (CHR '':'', 29),
      (CHR '';'', 23), (CHR ''<'', 30), (CHR ''='', 24), (CHR ''>'', 32), (CHR ''['', 56), (CHR '']'', 57),
      (CHR ''^'', 77), (CHR ''{'', 58), (CHR ''|'', 64), (CHR ''}'', 59), (CHR ''~'', 66)]"

lemma operators_spelled:
  "spells_arcs 4 lua_lex operator_arcs_19 lua_operators_19"
  "spells_arcs 4 lua_lex operator_arcs_20 lua_operators_20"
  by (simp_all add: operator_arcs_19_def operator_arcs_20_def tails_lua_operators spells_numeral lua_lex_at
      cong: tails_cong)

lemma start_arcs_cases:
  "list_all (\<lambda>x. x \<in> set operator_arcs_19 \<or> x = (CHR ''.'', 3) \<or> x = (CHR ''0'', 34)) (start_arcs 19)"
  "list_all (\<lambda>x. x \<in> set operator_arcs_20 \<or> x = (CHR ''.'', 27) \<or> x = (CHR ''#'', 22)) (start_arcs 20)"
  "list_all (\<lambda>x. x \<in> set operator_arcs_20 \<or> x = (CHR ''.'', 28) \<or> x = (CHR ''#'', 78) \<or> x = (CHR ''0'', 34) \<or>
      x = (CHR 0x5C, 6)) (start_arcs 0)"
  "list_all (\<lambda>x. x \<in> set operator_arcs_20 \<or> x = (CHR ''.'', 28) \<or> x = (CHR ''#'', 78) \<or> x = (CHR ''0'', 34)) (start_arcs 18)"
  by (simp_all add: start_arcs_def operator_arcs_19_def operator_arcs_20_def)

text \<open>No operator begins like a number, a name or an escape sequence.\<close>

definition operator_char :: "char \<Rightarrow> bool" where
  "operator_char h \<longleftrightarrow> \<not> iswdigit (of_char h) \<and> \<not> name_char (of_char h) \<and> h \<noteq> CHR ''.'' \<and> h \<noteq> CHR 0x5C"

lemma operator_characters:
  "list_all (\<lambda>(h, t). operator_char h) operator_arcs_19"
  "list_all (\<lambda>(h, t). operator_char h \<and> h \<noteq> CHR ''#'') operator_arcs_20"
  by (simp_all add: operator_arcs_19_def operator_arcs_20_def operator_char_def name_char_def iswdigit_def)

lemma lua_lexeme_operator:
  assumes "operator_char h" and "s = 20 \<Longrightarrow> h \<noteq> CHR ''#''"
  shows "lua_lexeme s (of_char h # w) = keyword_of (lua_operators s) (of_char h # w)"
proof -
  have "(of_char h :: int) \<noteq> 46" "(of_char h :: int) \<noteq> 92" "s = 20 \<Longrightarrow> (of_char h :: int) \<noteq> 35"
    using assms of_char_eq_iff [where ?'a = int, of h "CHR ''.''"]
      of_char_eq_iff [where ?'a = int, of h "CHR 0x5C"] of_char_eq_iff [where ?'a = int, of h "CHR ''#''"]
    by (simp_all add: operator_char_def)
  then show ?thesis using assms(1)
    by (auto simp: lua_lexeme_def operator_char_def split: option.split)
qed

lemma accepts_27: "accepts lua_lex 27 w = keyword_of [([], ''anon_sym_DOT''), (''.'', ''anon_sym_DOT_DOT'')] w"
  "accepts lua_lex 78 w = keyword_of [([], ''anon_sym_POUND'')] w"
  by (rule spells_accepts [where f = 3], simp add: spells_numeral lua_lex_at)+

lemma operator_at:
  assumes "(h, t) \<in> set (if s = 19 then operator_arcs_19 else operator_arcs_20)"
  shows "accepts lua_lex t w = lua_lexeme s (of_char h # w)"
proof -
  have op: "operator_char h" "s \<noteq> 19 \<Longrightarrow> h \<noteq> CHR ''#''"
    using assms operator_characters by (auto simp: list_all_iff split: if_splits)
  have "spells 4 lua_lex t (tails h (lua_operators s))"
  proof (cases "s = 19")
    case True
    then show ?thesis using assms operators_spelled(1) by (auto simp: spells_arcs_iff lua_operators_def)
  next
    case False
    then have "tails h (lua_operators s) = tails h lua_operators_20"
      using op by (simp add: lua_operators_def)
    then show ?thesis using False assms operators_spelled(2) by (auto simp: spells_arcs_iff)
  qed
  then have "accepts lua_lex t w = keyword_of (lua_operators s) (of_char h # w)"
    unfolding keyword_of_tails by (rule spells_accepts)
  then show ?thesis using op by (simp add: lua_lexeme_operator)
qed

lemma run_start:
  "run_body (start_body s) False c =
     (None, case advance_map (start_arcs s) c of
        Some t \<Rightarrow> NEXT False t
      | None \<Rightarrow> if iswspace c then NEXT True (if s = 0 then 18 else s)
          else if s \<noteq> 20 \<and> 49 \<le> c \<and> c \<le> 57 then NEXT False 35
          else if start_name s c then NEXT False 79 else END_STATE)"
  by (simp add: start_body_def split: option.split)

lemma start_arcs_properties:
  assumes "s \<in> {0, 18, 19, 20}"
  shows "list_all (\<lambda>(h, t). h \<noteq> CHR 0x00 \<and> \<not> iswspace (of_char h) \<and> t < 85 \<and> t \<notin> {0, 18, 19, 20}) (start_arcs s)"
    and "heads_in (List.map fst (start_arcs s)) (lua_operators s)"
  using assms by (auto simp: start_arcs_def iswspace_def lua_operators_def lua_operators_19_def lua_operators_20_def)

lemma start_name_char:
  "list_all (\<lambda>s. list_all (\<lambda>c. advance_map (start_arcs s) c = None \<longrightarrow>
       (if 48 \<le> c \<and> c \<le> 57 \<and> s \<noteq> 20 then c \<noteq> 48
        else start_name s c = (name_char c \<and> \<not> iswdigit c) \<and> c \<noteq> 46 \<and> (s = 20 \<longrightarrow> c \<noteq> 35) \<and> (s = 0 \<longrightarrow> c \<noteq> 92)))
     [33..126]) [0, 18, 19, 20]"
  by code_simp

lemma start_name_at:
  assumes "s \<in> {0, 18, 19, 20}" and "33 \<le> c" and "c \<le> 126" and "advance_map (start_arcs s) c = None"
  shows "if 48 \<le> c \<and> c \<le> 57 \<and> s \<noteq> 20 then c \<noteq> 48
     else start_name s c = (name_char c \<and> \<not> iswdigit c) \<and> c \<noteq> 46 \<and> (s = 20 \<longrightarrow> c \<noteq> 35) \<and> (s = 0 \<longrightarrow> c \<noteq> 92)"
proof -
  have "s \<in> set [0, 18, 19, 20]" using assms(1) by simp
  moreover have "c \<in> {33..126}" using assms(2,3) by simp
  ultimately show ?thesis using start_name_char [unfolded list_all_iff set_upto] assms(4) by blast
qed

lemma start_name_range:
  assumes "s \<in> {0, 18, 19, 20}" and "advance_map (start_arcs s) c = None"
    and "\<not> (48 \<le> c \<and> c \<le> 57 \<and> s \<noteq> 20)"
  shows "start_name s c \<longleftrightarrow> name_char c \<and> \<not> iswdigit c"
    and "c \<noteq> 46" and "s = 20 \<Longrightarrow> c \<noteq> 35" and "s = 0 \<Longrightarrow> c \<noteq> 92"
proof -
  have "(start_name s c \<longleftrightarrow> name_char c \<and> \<not> iswdigit c) \<and> c \<noteq> 46 \<and> (s = 20 \<longrightarrow> c \<noteq> 35) \<and> (s = 0 \<longrightarrow> c \<noteq> 92)"
  proof (cases "33 \<le> c \<and> c \<le> 126")
    case True
    then show ?thesis using start_name_at [OF assms(1) _ _ assms(2)] assms(3) by simp
  next
    case False
    then consider "c \<le> 32" | "127 \<le> c" by linarith
    then show ?thesis
    proof cases
      case 1
      then have "\<not> start_name s c" "\<not> name_char c" "c \<noteq> 46" "c \<noteq> 35" "c \<noteq> 92"
        by (simp_all add: start_name_def name_char_def iswdigit_def)
      then show ?thesis by simp
    next
      case 2
      then have "start_name s c \<longleftrightarrow> 159 < c" "name_char c \<longleftrightarrow> 160 \<le> c" "\<not> iswdigit c" "c \<noteq> 46" "c \<noteq> 35" "c \<noteq> 92"
        by (simp_all add: start_name_def name_char_def iswdigit_def)
      then show ?thesis by auto
    qed
  qed
  then show "start_name s c \<longleftrightarrow> name_char c \<and> \<not> iswdigit c" "c \<noteq> 46"
    "s = 20 \<Longrightarrow> c \<noteq> 35" "s = 0 \<Longrightarrow> c \<noteq> 92" by blast+
qed

lemma number_first: "\<not> iswdigit c \<Longrightarrow> c \<noteq> 46 \<Longrightarrow> \<not> lua_number (c # w)"
  by simp

lemma not_hash: "iswdigit c \<Longrightarrow> c \<noteq> 35 \<and> c \<noteq> 92"
  by (auto simp: iswdigit_def)

lemma special_class [simp]: "\<not> iswdigit 35" "\<not> iswdigit 92"
  by (simp_all add: iswdigit_def)

text \<open>The other characters of the switch.\<close>

lemma special_at:
  "accepts lua_lex 3 w = lua_lexeme 19 (46 # w)"
  "s \<noteq> 20 \<Longrightarrow> accepts lua_lex 34 w = lua_lexeme s (48 # w)"
  "accepts lua_lex 27 w = lua_lexeme 20 (46 # w)" "accepts lua_lex 22 w = lua_lexeme 20 (35 # w)"
  "s \<noteq> 19 \<Longrightarrow> s \<noteq> 20 \<Longrightarrow> accepts lua_lex 28 w = lua_lexeme s (46 # w)"
  "s \<noteq> 19 \<Longrightarrow> s \<noteq> 20 \<Longrightarrow> accepts lua_lex 78 w = lua_lexeme s (35 # w)"
  "accepts lua_lex 6 w = lua_lexeme 0 (92 # w)"
  by (simp_all add: accepts_3 accepts_34 accepts_27 accepts_22 accepts_28 accepts_6 lua_lexeme_def
      lua_operators_def lua_operators_19_def lua_operators_20_def name_char_def number_if_def escape_if_def
      number_first del: lua_number.simps)

lemma accepts_start:
  assumes s: "s \<in> {0, 18, 19, 20}" and "\<not> iswspace c"
  shows "accepts lua_lex s (c # w) = lua_lexeme s (c # w)"
proof -
  have body: "lex_case lua_lex s = Some (start_body s)" using s start_cases by auto
  show ?thesis
  proof (cases "advance_map (start_arcs s) c")
    case (Some t)
    then obtain h where h: "(h, t) \<in> set (start_arcs s)" "c = of_char h" using advance_map_mem by blast
    have "accepts lua_lex s (c # w) = accepts lua_lex t w"
      using body Some by (simp add: accepts_Cons delta_def run_start)
    also have "\<dots> = lua_lexeme s (c # w)"
    proof (cases "(h, t) \<in> set (if s = 19 then operator_arcs_19 else operator_arcs_20)")
      case True
      then show ?thesis using operator_at h(2) by simp
    next
      case False
      then show ?thesis using h s start_arcs_cases special_at by (auto simp: list_all_iff)
    qed
    finally show ?thesis .
  next
    case None
    then have none: "keyword_of (lua_operators s) (c # w) = None"
      using keyword_of_heads [OF start_arcs_properties(2) [OF s]] advance_map_None by (metis not_Some_eq)
    show ?thesis
    proof (cases "48 \<le> c \<and> c \<le> 57 \<and> s \<noteq> 20")
      case True
      then have "c \<noteq> 48" using start_name_at [OF s _ _ None] by simp
      then have c: "s \<noteq> 20" "49 \<le> c" "c \<le> 57" "iswdigit c" "c \<noteq> c_dot" using True by (simp_all add: iswdigit_def)
      have "delta lua_lex s c = Some 35"
        using body None assms(2) c(1-3) by (simp add: delta_def run_start)
      then have "accepts lua_lex s (c # w) = number_if (numeral_rest iswdigit c_e w)"
        by (simp add: accepts_Cons accepts_35)
      moreover have "lua_number (c # w) \<longleftrightarrow> numeral_rest iswdigit c_e w" using c(2,4,5) by simp
      then have "lua_lexeme s (c # w) = number_if (numeral_rest iswdigit c_e w)"
        using c \<open>c \<noteq> 48\<close> none not_hash [OF c(4)] by (simp add: lua_lexeme_def number_if_def del: lua_number.simps)
      ultimately show ?thesis by simp
    next
      case False
      note rng = start_name_range [OF s None False]
      have num: "\<not> lua_number (c # w)" if "s \<noteq> 20"
        using that False rng(2) by (intro number_first) (auto simp: iswdigit_def)
      have digits: "\<not> (49 \<le> c \<and> c \<le> 57)" if "s \<noteq> 20" using False that by auto
      have "delta lua_lex s c = (if name_char c \<and> \<not> iswdigit c then Some 79 else None)"
      proof (cases "s = 20")
        case True
        show ?thesis
          using body None assms(2) rng(1) unfolding True by (simp add: delta_def run_start)
      next
        case False
        then show ?thesis
          using body None assms(2) rng(1) False digits [OF False] by (simp add: delta_def run_start) blast
      qed
      then have "accepts lua_lex s (c # w) =
          (if name_char c \<and> \<not> iswdigit c \<and> list_all name_char w then Some ''sym_identifier'' else None)"
        by (simp add: accepts_Cons accepts_79)
      moreover have "lua_lexeme s (c # w) =
          (if name_char c \<and> \<not> iswdigit c \<and> list_all name_char w then Some ''sym_identifier'' else None)"
        using none num rng(3,4) by (auto simp: lua_lexeme_def simp del: lua_number.simps)
      ultimately show ?thesis by simp
    qed
  qed
qed

lemma lua_lex_tidy: "tidy lua_lex (\<lambda>s. s \<notin> {0, 18, 19, 20})"
  by code_simp

lemma lua_lex_length: "length lua_lex = 85"
  by (simp add: lua_lex_def lua_lex_0_17_def lua_lex_18_32_def lua_lex_33_50_def lua_lex_51_84_def)
lemma start_body_token: "body_token (start_body s) = None"
  by (simp add: start_body_def)

text \<open>A token from the state \<open>s\<close>, where no blank is ahead.\<close>

lemma lua_lex_from:
  assumes s: "s \<in> {0, 18, 19, 20}" and "\<not> iswspace (lookahead l)"
  shows "lexed (if eof l then Some (''ts_builtin_sym_end'', 0) else longest (lua_lexeme s) (text_ahead l)) l
    (ts_lex lua_lex s l)"
proof -
  have body: "lex_case lua_lex s = Some (start_body s)" using s start_cases by auto
  show ?thesis
  proof (cases "eof l")
    case True
    have "run_body (start_body s) True 0 = (None, NEXT False 21)" by (simp add: start_body_def)
    moreover have "lex_case lua_lex 21 = Some [ACCEPT_TOKEN ''ts_builtin_sym_end'']" by (simp add: lua_lex_at)
    ultimately show ?thesis using ts_lex_end [OF True body] True by simp
  next
    case False
    define m where "m = snd (run_body (start_body s) False (lookahead l))"
    have run: "run_body (start_body s) False (lookahead l) = (None, m)" by (simp add: m_def run_start)
    have "tidy_move (\<lambda>t. t < length lua_lex \<and> t \<notin> {0, 18, 19, 20}) (lookahead l) m"
    proof (cases "advance_map (start_arcs s) (lookahead l)")
      case None
      then show ?thesis
        using assms(2) by (auto simp: m_def run_start lua_lex_length start_name_def split: if_splits)
    next
      case (Some t)
      then show ?thesis
        using advance_map_mem [OF Some] start_arcs_properties(1) [OF s]
        by (auto simp: m_def run_start lua_lex_length list_all_iff)
    qed
    then have "lexed (munch lua_lex s (text_ahead l)) l (ts_lex lua_lex s l)"
      using ts_lex_start [OF lua_lex_tidy body False run] start_body_token by simp
    moreover have "munch lua_lex s (text_ahead l) = longest (lua_lexeme s) (text_ahead l)"
      unfolding munch_longest
    proof (rule longest_cong)
      fix n assume "n \<le> length (text_ahead l)"
      have shown: "text_ahead l = lookahead l # text_ahead (advance l)" using False by (rule text_ahead_look)
      have "token_of lua_lex s = None" by (simp add: token_of_def body start_body_token)
      moreover have "lua_lexeme s [] = None"
        using s by (auto simp: lua_lexeme_def lua_operators_def lua_operators_19_def lua_operators_20_def)
      ultimately show "accepts lua_lex s (take n (text_ahead l)) = lua_lexeme s (take n (text_ahead l))"
        using accepts_start [OF s assms(2)] by (cases n) (simp_all add: shown)
    qed
    ultimately show ?thesis using False by simp
  qed
qed

lemma lua_lex_skip:
  assumes "s \<in> {18, 19, 20}"
  shows "ts_lex lua_lex s l = ts_lex lua_lex s (advance_while iswspace True l)"
proof (rule ts_lex_skip)
  show "lex_case lua_lex s = Some (start_body s)" using assms start_cases by auto
  fix c assume blank: "iswspace c"
  have "advance_map (start_arcs s) c = None"
    using advance_map_mem [of "start_arcs s" c] start_arcs_properties(1) [of s] assms blank
    by (cases "advance_map (start_arcs s) c") (auto simp: list_all_iff)
  then show "run_body (start_body s) False c = (None, NEXT True s)"
    using assms blank by (auto simp: run_start)
qed

text \<open>Behind a blank, the lexer is in the state 18 in place of 0, which knows no escape sequence.\<close>

lemma lua_lex_zero:
  assumes "iswspace (lookahead l)"
  shows "ts_lex lua_lex 0 l = ts_lex lua_lex 18 l"
proof -
  have ne: "\<not> eof l" using assms lookahead_eof by fastforce
  have "advance_map (start_arcs s) (lookahead l) = None" if "s \<in> {0, 18}" for s
    using advance_map_mem [of "start_arcs s" "lookahead l"] start_arcs_properties(1) [of s] assms that
    by (cases "advance_map (start_arcs s) (lookahead l)") (auto simp: list_all_iff)
  then have "run_body (start_body s) False (lookahead l) = (None, NEXT True 18)" if "s \<in> {0, 18}" for s
    using assms that by (auto simp: run_start)
  then have "lex_loop lua_lex False s l = lex_loop lua_lex False 18 (skip l)" if "s \<in> {0, 18}" for s
    using that ne start_cases by (subst lex_loop.simps) auto
  then show ?thesis by (simp add: ts_lex_def)
qed

text \<open>C10. Tokens of Lua. In every state in which a token begins, outside of strings and comments, the generated
lexer skips the blanks and returns, with the longest operator, number, name, escape sequence or \<open>#!\<close> line that
the text begins with and its exact end: an operator of the table for the state; a number with its fraction,
exponent and suffix, decimal, hexadecimal or binary; a name. It fails exactly where no token begins, and at the
end of the input the token is the end.\<close>

theorem lua_tokens:
  assumes "s \<in> {0, 18, 19, 20}"
  shows "let l' = advance_while iswspace True l; s' = (if s = 0 \<and> iswspace (lookahead l) then 18 else s) in
    lexed (if eof l' then Some (''ts_builtin_sym_end'', 0) else longest (lua_lexeme s') (text_ahead l')) l'
      (ts_lex lua_lex s l)"
proof -
  define l' where "l' = advance_while iswspace True l"
  define s' where "s' = (if s = 0 \<and> iswspace (lookahead l) then 18 else s)"
  have "ts_lex lua_lex s l = ts_lex lua_lex s' l'"
  proof (cases "s' = 0")
    case True
    then have "\<not> iswspace (lookahead l)" "s = 0" by (auto simp: s'_def split: if_splits)
    then show ?thesis using True by (simp add: l'_def advance_while_stop)
  next
    case False
    then have "ts_lex lua_lex s l = ts_lex lua_lex s' l" using lua_lex_zero by (auto simp: s'_def)
    moreover have "s' \<in> {18, 19, 20}" using False assms by (auto simp: s'_def)
    ultimately show ?thesis unfolding l'_def using lua_lex_skip by (metis (no_types))
  qed
  moreover have "s' \<in> {0, 18, 19, 20}" using assms by (auto simp: s'_def)
  moreover have "\<not> iswspace (lookahead l')"
    using look_advance_while [of iswspace True l] by (auto simp: l'_def)
  ultimately show ?thesis using lua_lex_from [of s' l'] unfolding Let_def l'_def [symmetric] s'_def [symmetric] by simp
qed

theorem lua_tokens_witness:
  "\<exists>l'. ts_lex lua_lex 0 (lexer_on (codes '' 0x1Fp-2..'')) = Some (True, l') \<and>
    tok_start l' = 1 \<and> tok_end l' = Some 8 \<and> result_symbol l' = Some ''sym_number''"
proof -
  define l :: "symbol lexer" where "l = lexer_on (codes '' 0x1Fp-2..'')"
  have blanks: "advance_while iswspace True l = skip l"
    by (simp add: l_def advance_while_unfold lookahead_text iswspace_def map_tl)
  have blank: "iswspace (lookahead l)" by (simp add: l_def lookahead_text iswspace_def)
  have rest: "List.map cp (tl (ahead l)) = codes ''0x1Fp-2..''" by (simp add: l_def map_tl)
  then have "\<not> eof (skip l)" by (auto simp: eof_def)
  moreover have "longest (lua_lexeme 18) (codes ''0x1Fp-2..'') = Some (''sym_number'', 7)" by code_simp
  ultimately have "lexed (Some (''sym_number'', 7)) (skip l) (ts_lex lua_lex 0 l)"
    using lua_tokens [of 0 l] blank by (simp add: Let_def blanks rest)
  moreover have "tok_start (skip l) = 1" "pos (skip l) = 1"
    by (simp_all add: l_def lex_advance_def lexer_on_def start_lexer_def)
  ultimately show ?thesis unfolding l_def [symmetric] by (auto simp: lexed_def split: option.splits prod.splits)
qed

end
