(* ===== verification/Nested_Comments.thy ===== *)
theory Nested_Comments
  imports Scanner_Interface
begin

text \<open>
  Block comments that nest, as the Dart, Kotlin, Swift and Scala scanners read them. The reference
  reads two characters at a time: \<open>comment_close stop d cs\<close> is the offset behind the \<open>*/\<close> that
  closes the outermost of \<open>d\<close> open comments, if there is one before the end of the text or a
  character of \<open>stop\<close>. The scanners keep a flag \<open>after_star\<close> instead; the locale
  \<open>nested_comment_loop\<close> states the steps of such a loop, and that it finds the reference's end.
  The C depth is an \<open>unsigned\<close>; it never exceeds one more than half of the input, so it cannot
  wrap, and it is a \<open>nat\<close> here.
\<close>

fun comment_close :: "(code_point \<Rightarrow> bool) \<Rightarrow> nat \<Rightarrow> code_point list \<Rightarrow> nat option" where
  "comment_close stop d [] = None"
| "comment_close stop d [c] = None"
| "comment_close stop d (c # c' # cs) =
     (if stop c then None
      else if c = c_star \<and> c' = c_slash
      then (if d \<le> 1 then Some 2 else map_option ((+) 2) (comment_close stop (d - 1) cs))
      else if c = c_slash \<and> c' = c_star then map_option ((+) 2) (comment_close stop (Suc d) cs)
      else map_option Suc (comment_close stop d (c' # cs)))"

lemma comment_close_le: "comment_close stop d cs = Some n \<Longrightarrow> n \<le> length cs"
  by (induction stop d cs arbitrary: n rule: comment_close.induct) (auto split: if_splits)

text \<open>The comment ends with \<open>*/\<close>, and what it holds has no stopping character.\<close>

lemma comment_close_ends:
  "comment_close stop d cs = Some n \<Longrightarrow>
     \<exists>m. n = Suc (Suc m) \<and> n \<le> length cs \<and> cs ! m = c_star \<and> cs ! Suc m = c_slash"
proof (induction stop d cs arbitrary: n rule: comment_close.induct)
  case (3 stop d c c' cs)
  consider "n = 2" "c = c_star" "c' = c_slash"
    | k d' where "n = Suc (Suc k)" "comment_close stop d' cs = Some k"
        "\<exists>m. k = Suc (Suc m) \<and> k \<le> length cs \<and> cs ! m = c_star \<and> cs ! Suc m = c_slash"
    | k where "n = Suc k" "\<exists>m. k = Suc (Suc m) \<and> k \<le> length (c' # cs) \<and>
        (c' # cs) ! m = c_star \<and> (c' # cs) ! Suc m = c_slash"
    using "3.prems" "3.IH" by (auto split: if_splits)
  then show ?case by cases auto
qed simp_all

text \<open>A depth counter over the text: what remains open when a prefix has been read.\<close>

fun comment_depth :: "nat \<Rightarrow> code_point list \<Rightarrow> nat" where
  "comment_depth d [] = d"
| "comment_depth d [c] = d"
| "comment_depth d (c # c' # cs) =
     (if c = c_star \<and> c' = c_slash then comment_depth (d - 1) cs
      else if c = c_slash \<and> c' = c_star then comment_depth (Suc d) cs
      else comment_depth d (c' # cs))"

lemma comment_close_depth:
  "comment_close stop d cs = Some n \<Longrightarrow> 0 < d \<Longrightarrow> comment_depth d (take n cs) = 0"
proof (induction stop d cs arbitrary: n rule: comment_close.induct)
  case (3 stop d c c' cs)
  show ?case
  proof (cases "c = c_star \<and> c' = c_slash \<or> c = c_slash \<and> c' = c_star")
    case True
    with "3.prems" "3.IH" show ?thesis by (auto split: if_splits)
  next
    case False
    with "3.prems" obtain k where k: "comment_close stop d (c' # cs) = Some k" "n = Suc k"
      by (auto split: if_splits)
    from k(1) have "0 < k" using comment_close_ends by blast
    with False k "3.prems" "3.IH"(3) show ?thesis
      by (cases k) (auto split: if_splits)
  qed
qed simp_all

lemma comment_close_plain:
  "\<not> stop c \<Longrightarrow> c \<noteq> c_star \<Longrightarrow> c \<noteq> c_slash \<Longrightarrow>
    comment_close stop d (c # cs) = map_option Suc (comment_close stop d cs)"
  "\<not> stop c_star \<Longrightarrow> cs = [] \<or> hd cs \<noteq> c_slash \<Longrightarrow>
    comment_close stop d (c_star # cs) = map_option Suc (comment_close stop d cs)"
  "\<not> stop c_slash \<Longrightarrow> cs = [] \<or> hd cs \<noteq> c_star \<Longrightarrow>
    comment_close stop d (c_slash # cs) = map_option Suc (comment_close stop d cs)"
  by (cases cs; auto)+

lemma comment_close_stop: "stop c \<Longrightarrow> comment_close stop d (c # cs) = None"
  by (cases cs) auto

locale nested_comment_loop =
  fixes loop :: "bool \<Rightarrow> nat \<Rightarrow> 'k lexer \<Rightarrow> 'r"
    and closed :: "'k lexer \<Rightarrow> 'r"
    and accepts :: "'r \<Rightarrow> bool"
  assumes at_nul: "lookahead l = 0 \<Longrightarrow> \<not> accepts (loop a d l)"
    and at_star: "lookahead l = c_star \<Longrightarrow> loop a d l = loop True d (advance l)"
    and at_close: "lookahead l = c_slash \<Longrightarrow>
      loop True d l = (if d - 1 = 0 then closed (advance l) else loop False (d - 1) (advance l))"
    and at_slash: "lookahead l = c_slash \<Longrightarrow>
      loop False d l = (if lookahead (advance l) = c_star
                        then loop False (Suc d) (advance (advance l))
                        else loop False d (advance l))"
    and at_other: "lookahead l \<notin> {0, c_star, c_slash} \<Longrightarrow> loop a d l = loop False d (advance l)"
begin

abbreviation close_at :: "nat \<Rightarrow> code_point list \<Rightarrow> nat option" where
  "close_at \<equiv> comment_close (\<lambda>c. c = 0)"

lemma loop_finds_close_both:
  "(case close_at d (text_ahead l) of
      None \<Rightarrow> \<not> accepts (loop False d l) | Some n \<Rightarrow> loop False d l = closed (advance_n False n l)) \<and>
   (case close_at d (c_star # text_ahead l) of
      None \<Rightarrow> \<not> accepts (loop True d l) | Some n \<Rightarrow> loop True d l = closed (advance_n False (n - 1) l))"
proof (induction "remaining l" arbitrary: l d rule: less_induct)
  case less
  let ?l = "advance l"
  show ?case
  proof -
    consider (nul) "lookahead l = 0" | (char) c cs where "text_ahead l = c # cs" "c \<noteq> 0" "lookahead l = c"
      by (metis text_ahead_nonzero)
    then show ?thesis
    proof cases
      case nul
      then show ?thesis
        by (cases "text_ahead l") (simp_all add: at_nul lookahead_text comment_close_stop comment_close_plain)
    next
      case char
      have l: "text_ahead ?l = cs" "remaining ?l < remaining l"
        using char by (auto simp: map_tl)
      note IH = conjunct1 [OF less [OF l(2)]] conjunct2 [OF less [OF l(2)]]
      consider "c = c_star" | "c = c_slash" | "c \<noteq> c_star" "c \<noteq> c_slash" by blast
      then show ?thesis
      proof cases
        case 1
        then have step: "loop a d l = loop True d ?l" for a
          using char by (intro at_star) simp
        have close: "close_at d (c_star # c_star # cs) = map_option Suc (close_at d (c_star # cs))"
          by (simp add: comment_close_plain)
        show ?thesis
        proof (cases "close_at d (c_star # cs)")
          case None
          with IH(2) [of d] 1 char l step close show ?thesis by simp
        next
          case (Some n)
          moreover from Some obtain m where "n = Suc m"
            using comment_close_ends [OF Some] by (cases n) auto
          ultimately show ?thesis
            using IH(2) [of d] 1 char l step close by (simp add: advance_n_Suc)
        qed
      next
        case 2
        have "case close_at d (c_star # c_slash # cs) of None \<Rightarrow> \<not> accepts (loop True d l)
            | Some n \<Rightarrow> loop True d l = closed (advance_n False (n - 1) l)"
        proof -
          have "loop True d l = (if d - 1 = 0 then closed ?l else loop False (d - 1) ?l)"
            using 2 char by (intro at_close) simp
          with IH(1) [of "d - 1"] l show ?thesis
            by (auto simp: advance_n_Suc split: option.splits)
        qed
        moreover have "case close_at d (c_slash # cs) of None \<Rightarrow> \<not> accepts (loop False d l)
            | Some n \<Rightarrow> loop False d l = closed (advance_n False n l)"
        proof (cases "lookahead ?l = c_star")
          case True
          then obtain cs' where cs: "cs = c_star # cs'" and l2: "text_ahead (advance ?l) = cs'"
            using l by (cases cs) (auto simp: lookahead_text map_tl)
          have step: "loop False d l = loop False (Suc d) (advance ?l)"
            using 2 char True by (subst at_slash) simp_all
          have "remaining (advance ?l) < remaining l"
            using l(2) by simp
          note IH2 = conjunct1 [OF less [OF this], of "Suc d"]
          show ?thesis
            using IH2 [unfolded l2] cs step by (auto simp: advance_n_Suc split: option.splits)
        next
          case False
          then have hd: "cs = [] \<or> hd cs \<noteq> c_star"
            unfolding lookahead_text l(1) by (cases cs) simp_all
          have "loop False d l = loop False d ?l"
            using 2 char False by (subst at_slash) simp_all
          moreover have "close_at d (c_slash # cs) = map_option Suc (close_at d cs)"
            using hd by (intro comment_close_plain) simp_all
          ultimately show ?thesis
            using IH(1) [of d] l by (auto simp: advance_n_Suc split: option.splits)
        qed
        ultimately show ?thesis using 2 char by simp
      next
        case 3
        with char have c: "lookahead l \<notin> {0, c_star, c_slash}" by simp
        have close: "close_at d (c # cs) = map_option Suc (close_at d cs)"
          "close_at d (c_star # c # cs) = map_option Suc (close_at d (c # cs))"
          using 3 char(2) by (simp_all add: comment_close_plain)
        show ?thesis
        proof (cases "close_at d cs")
          case None
          with IH(1) [of d] l char(1) close at_other [OF c] show ?thesis by simp
        next
          case (Some n)
          with IH(1) [of d] l char(1) close show ?thesis
            by (simp add: at_other [OF c] advance_n_Suc)
        qed
      qed
    qed
  qed
qed

lemma loop_finds_close:
  "case close_at d (text_ahead l) of
     None \<Rightarrow> \<not> accepts (loop False d l) | Some n \<Rightarrow> loop False d l = closed (advance_n False n l)"
  using loop_finds_close_both by blast

end

end
