(* ===== verification/Dart.thy ===== *)
theory Dart
  imports Nested_Comments
begin

text \<open>
  \<^verbatim>\<open>codegraph-kernel/grammars/dart/scanner.c\<close>: the text between the interpolations of a string
  template, and block comments, which nest in Dart. The scanner keeps no state.
\<close>

section \<open>Definitions\<close>

datatype dart_token =
    TEMPLATE_CHARS_SINGLE | TEMPLATE_CHARS_DOUBLE | TEMPLATE_CHARS_SINGLE_SINGLE
  | TEMPLATE_CHARS_DOUBLE_SINGLE | TEMPLATE_CHARS_RAW_SLASH | BLOCK_COMMENT
  | DOCUMENTATION_BLOCK_COMMENT

text \<open>The payload is NULL, \<open>serialize\<close> writes nothing.\<close>

definition dart_create :: unit where
  "dart_create = ()"

definition dart_serialize :: "unit \<Rightarrow> byte list" where
  "dart_serialize p = []"

definition dart_deserialize :: "unit \<Rightarrow> byte list \<Rightarrow> unit" where
  "dart_deserialize p b = ()"

text \<open>The loop of \<open>scan_multiline_comments\<close>.\<close>

function dart_comment_loop ::
  "bool \<Rightarrow> bool \<Rightarrow> nat \<Rightarrow> dart_token lexer \<Rightarrow> bool \<times> dart_token lexer" where
  "dart_comment_loop documentation_comment after_star nesting_depth l =
     (if lookahead l = 0 then (False, l)
      else if lookahead l = c_star then
        dart_comment_loop documentation_comment True nesting_depth (advance l)
      else if lookahead l = c_slash then
        if after_star then
          let l' = advance l; nesting_depth' = nesting_depth - 1 in
          if nesting_depth' = 0 then
            if \<not> documentation_comment then (True, set_result BLOCK_COMMENT l')
            else (True, set_result DOCUMENTATION_BLOCK_COMMENT l')
          else dart_comment_loop documentation_comment False nesting_depth' l'
        else
          let l' = advance l in
          if lookahead l' = c_star then
            dart_comment_loop documentation_comment False (nesting_depth + 1) (advance l')
          else dart_comment_loop documentation_comment False nesting_depth l'
      else dart_comment_loop documentation_comment False nesting_depth (advance l))"
  by pat_completeness auto
termination
  by (relation "measure (\<lambda>(_, _, _, l). remaining l)")
    (auto simp: diff_less intro!: diff_less dest!: lookahead_nonzero simp: eof_def)

declare dart_comment_loop.simps [simp del]

definition dart_scan_multiline_comments ::
  "dart_token lexer \<Rightarrow> bool \<times> dart_token lexer" where
  "dart_scan_multiline_comments l =
     (let l = advance l in
      if lookahead l \<noteq> c_star then (False, l)
      else
        let l = advance l; documentation_comment = (lookahead l = c_star) in
        dart_comment_loop documentation_comment False 1 l)"

text \<open>The loop of \<open>scan_templates\<close>.\<close>

function dart_template_loop ::
  "(dart_token \<Rightarrow> bool) \<Rightarrow> bool \<Rightarrow> dart_token lexer \<Rightarrow> bool \<times> dart_token lexer" where
  "dart_template_loop valid has_content l0 =
     (let l = mark_end l0 in
      if lookahead l = c_squote \<or> lookahead l = c_dquote then (has_content, l)
      else if lookahead l = c_nl then
        if valid TEMPLATE_CHARS_DOUBLE_SINGLE \<or> valid TEMPLATE_CHARS_SINGLE_SINGLE then (False, l)
        else dart_template_loop valid True (advance l)
      else if lookahead l = 0 then (False, l)
      else if lookahead l = c_dollar then (has_content, l)
      else if lookahead l = c_bslash then
        if valid TEMPLATE_CHARS_RAW_SLASH then
          dart_template_loop valid True (advance (set_result TEMPLATE_CHARS_RAW_SLASH l))
        else (has_content, l)
      else dart_template_loop valid True (advance l))"
  by pat_completeness auto
termination
  by (relation "measure (\<lambda>(_, _, l). remaining l)") auto

declare dart_template_loop.simps [simp del]

definition dart_scan_templates ::
  "dart_token lexer \<Rightarrow> (dart_token \<Rightarrow> bool) \<Rightarrow> bool \<times> dart_token lexer" where
  "dart_scan_templates l valid =
     dart_template_loop valid False
       (if valid TEMPLATE_CHARS_DOUBLE then set_result TEMPLATE_CHARS_DOUBLE l
        else if valid TEMPLATE_CHARS_SINGLE then set_result TEMPLATE_CHARS_SINGLE l
        else if valid TEMPLATE_CHARS_SINGLE_SINGLE then set_result TEMPLATE_CHARS_SINGLE_SINGLE l
        else set_result TEMPLATE_CHARS_DOUBLE_SINGLE l)"

definition template_valid :: "(dart_token \<Rightarrow> bool) \<Rightarrow> bool" where
  "template_valid valid \<longleftrightarrow>
     valid TEMPLATE_CHARS_DOUBLE \<or> valid TEMPLATE_CHARS_SINGLE \<or>
     valid TEMPLATE_CHARS_DOUBLE_SINGLE \<or> valid TEMPLATE_CHARS_SINGLE_SINGLE"

definition dart_scan ::
  "dart_token lexer \<Rightarrow> (dart_token \<Rightarrow> bool) \<Rightarrow> bool \<times> dart_token lexer" where
  "dart_scan l valid =
     (if template_valid valid then dart_scan_templates l valid
      else
        let l = advance_while iswspace True l in
        if lookahead l = c_slash then dart_scan_multiline_comments l else (False, l))"

definition dart_scan_fun :: "(unit, dart_token) scan_fun" where
  "dart_scan_fun p l valid = (case dart_scan l valid of (ok, l') \<Rightarrow> Some (ok, (), l'))"

section \<open>The cursor\<close>

lemma fwd_dart_comment_loop [runs_rules]: "runs l0 l \<Longrightarrow> fwd l0 (dart_comment_loop doc a d l)"
proof (induction doc a d l rule: dart_comment_loop.induct)
  case (1 doc a d l)
  then show ?case
    by (subst dart_comment_loop.simps) (auto simp: Let_def intro!: runs_rules)
qed

lemma fwd_dart_scan_multiline_comments [runs_rules]:
  "runs l0 l \<Longrightarrow> fwd l0 (dart_scan_multiline_comments l)"
  unfolding dart_scan_multiline_comments_def by (intro runs_rules)

lemma fwd_dart_template_loop [runs_rules]: "runs l0 l \<Longrightarrow> fwd l0 (dart_template_loop valid h l)"
proof (induction valid h l rule: dart_template_loop.induct)
  case (1 valid h l)
  then show ?case
    by (subst dart_template_loop.simps) (auto simp: Let_def intro!: runs_rules)
qed

lemma fwd_dart_scan [runs_rules]: "runs l0 l \<Longrightarrow> fwd l0 (dart_scan l valid)"
  unfolding dart_scan_def dart_scan_templates_def by (intro runs_rules)

interpretation dart: resetting_scanner dart_create "\<lambda>_. True" dart_serialize dart_deserialize dart_scan_fun
proof unfold_locales
  fix s l valid ok s' l'
  assume "dart_scan_fun s l valid = Some (ok, s', l')"
  then have "dart_scan l valid = (ok, l')" by (simp add: dart_scan_fun_def split: prod.splits)
  then show "runs l l'"
    using fwd_dart_scan [OF runs_refl, of l valid] by (simp add: fwdD)
qed (simp_all add: dart_serialize_def serialization_buffer_size_def)

section \<open>Block comments\<close>

definition dart_comment_closed ::
  "bool \<Rightarrow> dart_token lexer \<Rightarrow> bool \<times> dart_token lexer" where
  "dart_comment_closed doc l =
     (True, set_result (if doc then DOCUMENTATION_BLOCK_COMMENT else BLOCK_COMMENT) l)"

interpretation dart_comment:
  nested_comment_loop "dart_comment_loop doc" "dart_comment_closed doc" fst for doc
  by unfold_locales (subst dart_comment_loop.simps; simp add: dart_comment_closed_def Let_def)+

section \<open>Template characters\<close>

text \<open>What ends a run of template characters, and how long the run is.\<close>

definition template_stop :: "(dart_token \<Rightarrow> bool) \<Rightarrow> code_point \<Rightarrow> bool" where
  "template_stop valid c \<longleftrightarrow> c \<in> {0, c_squote, c_dquote, c_dollar} \<or>
     c = c_nl \<and> (valid TEMPLATE_CHARS_DOUBLE_SINGLE \<or> valid TEMPLATE_CHARS_SINGLE_SINGLE) \<or>
     c = c_bslash \<and> \<not> valid TEMPLATE_CHARS_RAW_SLASH"

definition template_run :: "(dart_token \<Rightarrow> bool) \<Rightarrow> code_point list \<Rightarrow> nat" where
  "template_run valid cs = length (takeWhile (\<lambda>c. \<not> template_stop valid c) cs)"

lemma template_run_simps [simp]:
  "template_run valid [] = 0"
  "template_stop valid c \<Longrightarrow> template_run valid (c # cs) = 0"
  "\<not> template_stop valid c \<Longrightarrow> template_run valid (c # cs) = Suc (template_run valid cs)"
  by (simp_all add: template_run_def)

lemma dart_template_loop_run:
  fixes valid h l
  defines "r \<equiv> dart_template_loop valid h l" and "n \<equiv> template_run valid (text_ahead l)"
  shows "ahead (snd r) = drop n (ahead l) \<and> tok_end (snd r) = Some (pos l + n) \<and>
    fst r = ((h \<or> 0 < n) \<and> lookahead (snd r) \<in> {c_squote, c_dquote, c_dollar, c_bslash}) \<and>
    result_symbol (snd r) =
      (if c_bslash \<in> set (take n (text_ahead l)) then Some TEMPLATE_CHARS_RAW_SLASH
       else result_symbol l)"
  unfolding r_def n_def
proof (induction "remaining l" arbitrary: h l rule: less_induct)
  case less
  show ?case
  proof (cases "template_stop valid (lookahead l)")
    case True
    then have "template_run valid (text_ahead l) = 0"
      by (cases "ahead l") (simp_all add: lookahead_def)
    with True show ?thesis
      by (subst (1 2 3 4 5) dart_template_loop.simps) (auto simp: template_stop_def)
  next
    case False
    then obtain cs where cs: "text_ahead l = lookahead l # cs" "text_ahead (advance l) = cs"
      using text_ahead_nonzero [of l False] by (auto simp: template_stop_def)
    have "\<not> eof l" using cs(1) by (auto simp: eof_text)
    define m where
      "m = (if lookahead l = c_bslash then set_result TEMPLATE_CHARS_RAW_SLASH (mark_end l)
            else mark_end l)"
    have m: "ahead m = ahead l" "pos m = pos l" "eof m = eof l"
      by (simp_all add: m_def)
    have step: "dart_template_loop valid h l = dart_template_loop valid True (advance m)"
      using False by (subst dart_template_loop.simps) (auto simp: m_def template_stop_def Let_def)
    have IH: "ahead (snd (dart_template_loop valid True (advance m))) =
        drop (template_run valid cs) (ahead (advance m)) \<and>
      tok_end (snd (dart_template_loop valid True (advance m))) =
        Some (pos (advance m) + template_run valid cs) \<and>
      fst (dart_template_loop valid True (advance m)) =
        (lookahead (snd (dart_template_loop valid True (advance m)))
         \<in> {c_squote, c_dquote, c_dollar, c_bslash}) \<and>
      result_symbol (snd (dart_template_loop valid True (advance m))) =
        (if c_bslash \<in> set (take (template_run valid cs) cs) then Some TEMPLATE_CHARS_RAW_SLASH
         else result_symbol m)"
      using less [of "advance m" True] \<open>\<not> eof l\<close> cs(2) m by simp
    have "template_run valid (text_ahead l) = Suc (template_run valid cs)"
      using False cs(1) by simp
    with step IH m cs \<open>\<not> eof l\<close> show ?thesis
      by (simp add: pos_advance drop_Suc) (simp add: m_def)
  qed
qed

section \<open>Properties\<close>

text \<open>C23. A Dart block comment nests: after white space and \<open>/*\<close>, the scan succeeds exactly when the
reference finds the \<open>*/\<close> that closes the outermost comment; the token then ends right behind it, and
is a documentation comment exactly when a second star follows.\<close>

theorem dart_block_comment:
  assumes "text_ahead l = ws @ c_slash # c_star # cs" and "list_all iswspace ws"
    and "\<not> template_valid valid" and "tok_end l = None"
  shows "case comment_close (\<lambda>c. c = 0) 1 cs of
      None \<Rightarrow> \<not> fst (dart_scan l valid)
    | Some n \<Rightarrow> \<exists>l'. dart_scan l valid = (True, l') \<and>
        token_end l' = pos l + length ws + 2 + n \<and> text_ahead l' = drop n cs \<and>
        result_symbol l' = Some (if cs \<noteq> [] \<and> hd cs = c_star
                                 then DOCUMENTATION_BLOCK_COMMENT else BLOCK_COMMENT)"
proof -
  define l1 where "l1 = advance_n True (length ws) l"
  define l2 where "l2 = advance (advance l1)"
  have tw: "takeWhile iswspace (text_ahead l) = ws"
    unfolding assms(1) using assms(2)
    by (simp add: takeWhile_append2 list_all_iff iswspace_def)
  have sk: "advance_while iswspace True l = l1"
    unfolding advance_while_advance_n tw l1_def by (rule refl)
  have t1: "text_ahead l1 = c_slash # c_star # cs"
    using assms(1) by (simp add: l1_def drop_map [symmetric])
  have t2: "text_ahead (advance l1) = c_star # cs" "text_ahead l2 = cs"
    using t1 by (simp_all add: l2_def map_tl)
  have "\<not> eof l1" "\<not> eof (advance l1)"
    unfolding eof_text t1 t2 by simp_all
  moreover have "length ws \<le> remaining l"
    using arg_cong [OF assms(1), of length] by simp
  ultimately have p2: "pos l2 = pos l + length ws + 2" "tok_end l2 = None"
    using assms(4) by (simp_all add: l1_def l2_def pos_advance pos_advance_n)
  have scan: "dart_scan l valid = dart_comment_loop (lookahead l2 = c_star) False 1 l2"
    using assms(3) lookahead_Cons [OF t1] lookahead_Cons [OF t2(1)]
    by (simp add: dart_scan_def sk dart_scan_multiline_comments_def Let_def l2_def)
  have doc: "(lookahead l2 = c_star) = (cs \<noteq> [] \<and> hd cs = c_star)"
    unfolding lookahead_text t2 by (cases cs) simp_all
  show ?thesis
  proof (cases "comment_close (\<lambda>c. c = 0) 1 cs")
    case None
    with scan dart_comment.loop_finds_close [where d = 1 and l = l2 and doc = "lookahead l2 = c_star"] t2 show ?thesis by simp
  next
    case (Some n)
    have "n \<le> remaining l2"
      using comment_close_le [OF Some] arg_cong [OF t2(2), of length] by simp
    moreover have "drop n (text_ahead l2) = drop n cs" using t2 by simp
    ultimately show ?thesis
      using Some scan dart_comment.loop_finds_close [where d = 1 and l = l2 and doc = "lookahead l2 = c_star"] t2 p2 doc
      by (simp add: dart_comment_closed_def token_end_def pos_advance_n drop_map [symmetric])
  qed
qed

theorem dart_block_comment_witness:
  "case comment_close (\<lambda>c. c = 0) 1 (codes ''*a/*b*/c*/ x'') of
      None \<Rightarrow> False
    | Some n \<Rightarrow> \<exists>l'. dart_scan (lexer_on (codes '' /**a/*b*/c*/ x'')) (\<lambda>k. k = BLOCK_COMMENT) =
        (True, l') \<and> token_end l' = 13 \<and> text_ahead l' = codes '' x'' \<and>
        result_symbol l' = Some DOCUMENTATION_BLOCK_COMMENT"
  using dart_block_comment [of "lexer_on (codes '' /**a/*b*/c*/ x'')" "codes '' ''"
      "codes ''*a/*b*/c*/ x''" "\<lambda>k. k = BLOCK_COMMENT"]
  by (simp add: iswspace_def template_valid_def eval_nat_numeral)

text \<open>In a template the scan takes the longest run of characters before a quote, a dollar, a
backslash (unless the string is raw), a line feed (in a single line string) or a NUL. It succeeds
exactly when the run is not empty and a quote, a dollar or a backslash follows; the token is the
run.\<close>

theorem dart_template_chars:
  assumes "template_valid valid"
  shows "\<exists>ok l'. dart_scan l valid = (ok, l') \<and>
    token_end l' = pos l + template_run valid (text_ahead l) \<and>
    text_ahead l' = drop (template_run valid (text_ahead l)) (text_ahead l) \<and>
    (ok \<longleftrightarrow> 0 < template_run valid (text_ahead l) \<and>
            lookahead l' \<in> {c_squote, c_dquote, c_dollar, c_bslash}) \<and>
    (\<exists>k. result_symbol l' = Some k \<and> (k = TEMPLATE_CHARS_RAW_SLASH \<or> valid k))"
proof -
  define k where "k = (if valid TEMPLATE_CHARS_DOUBLE then TEMPLATE_CHARS_DOUBLE
    else if valid TEMPLATE_CHARS_SINGLE then TEMPLATE_CHARS_SINGLE
    else if valid TEMPLATE_CHARS_SINGLE_SINGLE then TEMPLATE_CHARS_SINGLE_SINGLE
    else TEMPLATE_CHARS_DOUBLE_SINGLE)"
  have "valid k" using assms by (auto simp: k_def template_valid_def)
  moreover have "dart_scan l valid = dart_template_loop valid False (set_result k l)"
    using assms by (simp add: dart_scan_def dart_scan_templates_def k_def)
  ultimately show ?thesis
    using dart_template_loop_run [of valid False "set_result k l"]
    by (cases "dart_template_loop valid False (set_result k l)")
      (auto simp: token_end_def drop_map split: if_splits)
qed

theorem dart_template_chars_witness:
  "\<exists>ok l'. dart_scan (lexer_on (codes ''ab$c'')) (\<lambda>k. k = TEMPLATE_CHARS_DOUBLE) = (ok, l') \<and>
    token_end l' = 2 \<and> ok"
  using dart_template_chars [of "\<lambda>k. k = TEMPLATE_CHARS_DOUBLE" "lexer_on (codes ''ab$c'')"]
  by (auto simp: template_valid_def template_stop_def lookahead_text eval_nat_numeral)

end
