(* ===== verification/Kotlin.thy ===== *)
theory Kotlin
  imports Nested_Comments "HOL-Library.Sublist"
begin

text \<open>
  \<^verbatim>\<open>codegraph-kernel/grammars/kotlin/scanner.c\<close>: string delimiters and contents with a stack of open
  strings, nested comments, the inserted semicolons, the end of an import list, and \<open>?.\<close> over
  line breaks. The stack is the C array in its order, the top at its end; a call of \<open>abort()\<close> is
  \<open>None\<close>.
\<close>

section \<open>The delimiter stack\<close>

datatype kotlin_token =
    AUTOMATIC_SEMICOLON | IMPORT_LIST_DELIMITER | SAFE_NAV | MULTILINE_COMMENT
  | STRING_START | STRING_END | STRING_CONTENT

type_synonym delimiter = byte
type_synonym kotlin_stack = "delimiter list"
type_synonym kotlin_result = "(bool \<times> kotlin_stack \<times> kotlin_token lexer) option"

definition delimiter_length :: nat where
  "delimiter_length = 3"

definition stack_push :: "kotlin_stack \<Rightarrow> delimiter \<Rightarrow> bool \<Rightarrow> kotlin_stack option" where
  "stack_push stack chr triple =
     (if serialization_buffer_size \<le> length stack then None
      else Some (stack @ [if triple then chr + 1 else chr]))"

definition stack_pop :: "kotlin_stack \<Rightarrow> (delimiter \<times> kotlin_stack) option" where
  "stack_pop stack = (if stack = [] then None else Some (last stack, butlast stack))"

definition kotlin_create :: kotlin_stack where
  "kotlin_create = []"

definition kotlin_serialize :: "kotlin_stack \<Rightarrow> byte list" where
  "kotlin_serialize stack = stack"

definition kotlin_deserialize :: "kotlin_stack \<Rightarrow> byte list \<Rightarrow> kotlin_stack" where
  "kotlin_deserialize stack buffer = (if 0 < length buffer then buffer else [])"

section \<open>Strings\<close>

text \<open>The loop of \<open>scan_string_start\<close> over the rest of a triple quote.\<close>

primrec kotlin_start_quotes :: "nat \<Rightarrow> 'k lexer \<Rightarrow> bool \<times> 'k lexer" where
  "kotlin_start_quotes 0 l = (True, l)"
| "kotlin_start_quotes (Suc n) l =
     (if lookahead l \<noteq> c_dquote then (False, l) else kotlin_start_quotes n (advance l))"

definition kotlin_scan_string_start ::
  "kotlin_token lexer \<Rightarrow> kotlin_stack \<Rightarrow> kotlin_result" where
  "kotlin_scan_string_start l stack =
     (if lookahead l \<noteq> c_dquote then Some (False, stack, l)
      else
        let l = mark_end (advance l);
            (triple, l) = kotlin_start_quotes (delimiter_length - 1) l in
        if triple then
          let l = mark_end l in
          map_option (\<lambda>stack. (True, stack, l)) (stack_push stack (to_char c_dquote) True)
        else map_option (\<lambda>stack. (True, stack, l)) (stack_push stack (to_char c_dquote) False))"

text \<open>In \<open>scan_string_content\<close>: the rest of a closing triple quote, and the quotes behind it.\<close>

primrec kotlin_end_quotes :: "nat \<Rightarrow> delimiter \<Rightarrow> 'k lexer \<Rightarrow> bool \<times> 'k lexer" where
  "kotlin_end_quotes 0 end_char l = (True, l)"
| "kotlin_end_quotes (Suc n) end_char l =
     (let l = advance l in
      if lookahead l \<noteq> char_val end_char then (False, l) else kotlin_end_quotes n end_char l)"

function kotlin_more_quotes :: "delimiter \<Rightarrow> 'k lexer \<Rightarrow> 'k lexer" where
  "kotlin_more_quotes end_char l =
     (if \<not> eof l \<and> lookahead l = char_val end_char
      then kotlin_more_quotes end_char (mark_end (advance l)) else l)"
  by pat_completeness auto
termination by (relation "measure (\<lambda>(_, l). remaining l)") auto

declare kotlin_more_quotes.simps [simp del]

text \<open>The loop of \<open>scan_string_content\<close>.\<close>

function kotlin_content_loop ::
  "delimiter \<Rightarrow> bool \<Rightarrow> bool \<Rightarrow> kotlin_stack \<Rightarrow> kotlin_token lexer \<Rightarrow> kotlin_result" where
  "kotlin_content_loop end_char is_triple has_content stack l =
     (if lookahead l \<noteq> 0 then
        if lookahead l = c_dollar then
          if has_content then Some (has_content, stack, set_result STRING_CONTENT l)
          else
            let l = advance l in
            if iswalpha (lookahead l) \<or> lookahead l = c_lbrace then Some (False, stack, l)
            else Some (True, stack, mark_end (set_result STRING_CONTENT l))
        else if lookahead l = c_bslash then
          if lookahead (advance l) = c_dollar then
            if lookahead (advance (advance l)) = char_val end_char then
              let l = set_result STRING_END (mark_end (advance (advance (advance l)))) in
              map_option (\<lambda>p. (True, snd p, l)) (stack_pop stack)
            else kotlin_content_loop end_char is_triple True stack (advance (advance (advance l)))
          else kotlin_content_loop end_char is_triple True stack (advance (advance l))
        else if lookahead l = char_val end_char then
          if is_triple then
            let (closing, l) = kotlin_end_quotes (delimiter_length - 1) end_char (mark_end l) in
            if closing then
              if has_content \<and> lookahead l = char_val end_char
              then Some (True, stack, set_result STRING_CONTENT l)
              else
                let l = kotlin_more_quotes end_char (mark_end (set_result STRING_END l)) in
                map_option (\<lambda>p. (True, snd p, l)) (stack_pop stack)
            else Some (True, stack, set_result STRING_CONTENT (mark_end l))
          else if has_content then Some (True, stack, set_result STRING_CONTENT (mark_end l))
          else
            let l = set_result STRING_END (mark_end (advance l)) in
            map_option (\<lambda>p. (True, snd p, l)) (stack_pop stack)
        else kotlin_content_loop end_char is_triple True stack (advance l)
      else Some (False, stack, l))"
  by pat_completeness auto
termination
  by (relation "measure (\<lambda>(_, _, _, _, l). remaining l)") auto

declare kotlin_content_loop.simps [simp del]

definition kotlin_scan_string_content ::
  "kotlin_token lexer \<Rightarrow> kotlin_stack \<Rightarrow> kotlin_result" where
  "kotlin_scan_string_content l stack =
     (if length stack = 0 then Some (False, stack, l)
      else if last stack AND 1 \<noteq> 0
      then kotlin_content_loop (last stack - 1) True False stack l
      else kotlin_content_loop (last stack) False False stack l)"

section \<open>Comments\<close>

function kotlin_comment_loop ::
  "bool \<Rightarrow> nat \<Rightarrow> kotlin_token lexer \<Rightarrow> bool \<times> kotlin_token lexer" where
  "kotlin_comment_loop after_star nesting_depth l =
     (if lookahead l = c_star then kotlin_comment_loop True nesting_depth (advance l)
      else if lookahead l = c_slash then
        let l' = advance l in
        if after_star then
          let nesting_depth' = nesting_depth - 1 in
          if nesting_depth' = 0 then (True, mark_end (set_result MULTILINE_COMMENT l'))
          else kotlin_comment_loop False nesting_depth' l'
        else if lookahead l' = c_star then
          kotlin_comment_loop False (nesting_depth + 1) (advance l')
        else kotlin_comment_loop False nesting_depth l'
      else if lookahead l = 0 then (False, l)
      else kotlin_comment_loop False nesting_depth (advance l))"
  by pat_completeness auto
termination
  by (relation "measure (\<lambda>(_, _, l). remaining l)") auto

declare kotlin_comment_loop.simps [simp del]

definition scan_multiline_comment :: "kotlin_token lexer \<Rightarrow> bool \<times> kotlin_token lexer" where
  "scan_multiline_comment l =
     (if lookahead l \<noteq> c_slash then (False, l)
      else
        let l = advance l in
        if lookahead l \<noteq> c_star then (False, l)
        else
          let l = advance l in kotlin_comment_loop False 1 l)"

section \<open>Semicolons, safe navigation, imports\<close>

definition kotlin_scan_whitespace_and_comments :: "'k lexer \<Rightarrow> bool \<times> 'k lexer" where
  "kotlin_scan_whitespace_and_comments l =
     (let l = advance_while iswspace True l in (lookahead l \<noteq> c_slash, l))"

text \<open>The loop of \<open>scan_for_word\<close>.\<close>

primrec skip_letters :: "code_point list \<Rightarrow> 'k lexer \<Rightarrow> bool \<times> 'k lexer" where
  "skip_letters [] l = (True, l)"
| "skip_letters (c # cs) l = (if lookahead l \<noteq> c then (False, l) else skip_letters cs (skip l))"

definition scan_for_word :: "'k lexer \<Rightarrow> string \<Rightarrow> bool \<times> 'k lexer" where
  "scan_for_word l word = (let l = skip l in skip_letters (codes word) l)"

text \<open>
  The first loop of \<open>scan_automatic_semicolon\<close>: \<open>(True, l)\<close> is its \<open>return true\<close>, otherwise it
  breaks with the value of \<open>sameline\<close>.
\<close>

function semicolon_line_end :: "'k lexer \<Rightarrow> (bool \<times> bool) \<times> 'k lexer" where
  "semicolon_line_end l =
     (if eof l then ((True, True), l)
      else if lookahead l = c_semi then ((True, True), mark_end (advance l))
      else if \<not> iswspace (lookahead l) then ((False, True), l)
      else if lookahead l = c_nl then ((False, False), skip l)
      else if lookahead l = c_cr then
        let l' = skip l in
        ((False, False), if lookahead l' = c_nl then skip l' else l')
      else semicolon_line_end (skip l))"
  by pat_completeness auto
termination by (relation "measure remaining") auto

declare semicolon_line_end.simps [simp del]

text \<open>The characters before which no semicolon is inserted after a line break.\<close>

definition continuation_chars :: "code_point list" where
  "continuation_chars =
     [c_comma, c_dot, c_colon, c_star, c_percent, c_gt, c_lt, c_eq, c_lbrace, c_lbrack, c_lparen,
      c_quest, c_bar, c_amp, c_slash]"

definition semicolon_same_line :: "'k lexer \<Rightarrow> bool \<times> 'k lexer" where
  "semicolon_same_line l =
     (if lookahead l = c_e then (False, l)
      else if lookahead l = c_i then scan_for_word l ''mport''
      else if lookahead l = c_semi then (True, mark_end (advance l))
      else (False, l))"

definition semicolon_next_line :: "'k lexer \<Rightarrow> bool \<times> 'k lexer" where
  "semicolon_next_line l =
     (if lookahead l \<in> set continuation_chars then (False, l)
      else if lookahead l = c_plus then
        let l = skip l in
        if lookahead l = c_plus then (True, l) else (iswdigit (lookahead l), l)
      else if lookahead l = c_minus then
        let l = skip l in
        if lookahead l = c_minus then (True, l) else (iswdigit (lookahead l), l)
      else if lookahead l = c_bang then
        let l = skip l in (lookahead l \<noteq> c_eq, l)
      else if lookahead l = c_e then
        let (b, l) = scan_for_word l ''lse'' in (\<not> b, l)
      else if lookahead l = c_i then
        let l = skip l in
        if lookahead l \<noteq> c_n then (True, l)
        else
          let l = skip l in
          if \<not> iswalpha (lookahead l) then (False, l)
          else let (b, l) = scan_for_word l ''stanceof'' in (\<not> b, l)
      else if lookahead l = c_semi then (True, mark_end (advance l))
      else (True, l))"

definition kotlin_scan_automatic_semicolon ::
  "kotlin_token lexer \<Rightarrow> bool \<times> kotlin_token lexer" where
  "kotlin_scan_automatic_semicolon l =
     (let l = mark_end (set_result AUTOMATIC_SEMICOLON l);
          ((done, sameline), l) = semicolon_line_end l in
      if done then (True, l)
      else
        let (b, l) = kotlin_scan_whitespace_and_comments l in
        if b then if sameline then semicolon_same_line l else semicolon_next_line l
        else (False, l))"

definition scan_safe_nav :: "kotlin_token lexer \<Rightarrow> bool \<times> kotlin_token lexer" where
  "scan_safe_nav l =
     (let l = mark_end (set_result SAFE_NAV l);
          (b, l) = kotlin_scan_whitespace_and_comments l in
      if b then
        if lookahead l \<noteq> c_quest then (False, l)
        else
          let l = advance l;
              (b, l) = kotlin_scan_whitespace_and_comments l in
          if b then
            if lookahead l \<noteq> c_dot then (False, l)
            else (True, mark_end (advance l))
          else (False, l)
      else (False, l))"

text \<open>\<open>scan_line_sep\<close>, whose variable \<open>state\<close> is 1 after a carriage return.\<close>

function line_sep_loop :: "nat \<Rightarrow> 'k lexer \<Rightarrow> bool \<times> 'k lexer" where
  "line_sep_loop state l =
     (if lookahead l \<in> {c_space, c_tab, c_vtab} then line_sep_loop state (advance l)
      else if lookahead l = c_nl then (True, advance l)
      else if lookahead l = c_cr then
        if state = 1 then (True, l) else line_sep_loop 1 (advance l)
      else if state = 1 then (True, l)
      else (False, l))"
  by pat_completeness auto
termination by (relation "measure (\<lambda>(_, l). remaining l)") auto

declare line_sep_loop.simps [simp del]

definition scan_line_sep :: "'k lexer \<Rightarrow> bool \<times> 'k lexer" where
  "scan_line_sep l = line_sep_loop 0 l"

definition scan_import_list_delimiter ::
  "kotlin_token lexer \<Rightarrow> bool \<times> kotlin_token lexer" where
  "scan_import_list_delimiter l =
     (let l = mark_end (set_result IMPORT_LIST_DELIMITER l) in
      if eof l then (True, l)
      else
        let (b, l) = scan_line_sep l in
        if b then
          let (b, l) = scan_line_sep l in
          if b then (True, mark_end l)
          else if lookahead l \<in> {c_space, c_tab, c_vtab} then (False, advance l)
          else if lookahead l = c_i then
            let (b, l) = scan_for_word l ''mport'' in (\<not> b, l)
          else (True, l)
        else (False, l))"

section \<open>The scan\<close>

text \<open>The attempts behind the semicolon.\<close>

definition kotlin_scan_rest ::
  "kotlin_stack \<Rightarrow> kotlin_token lexer \<Rightarrow> (kotlin_token \<Rightarrow> bool) \<Rightarrow> kotlin_result" where
  "kotlin_scan_rest stack l valid =
     (if valid IMPORT_LIST_DELIMITER then
        let (b, l) = scan_import_list_delimiter l in Some (b, stack, l)
      else
        case (if valid STRING_CONTENT then kotlin_scan_string_content l stack
              else Some (False, stack, l)) of
          None \<Rightarrow> None
        | Some (b, stack, l) \<Rightarrow>
            if b then Some (True, stack, l)
            else
              let l = advance_while iswspace True l in
              case (if valid STRING_START then kotlin_scan_string_start l stack
                    else Some (False, stack, l)) of
                None \<Rightarrow> None
              | Some (b, stack, l) \<Rightarrow>
                  if b then Some (True, stack, set_result STRING_START l)
                  else
                    let (b, l) = (if valid MULTILINE_COMMENT then scan_multiline_comment l
                                  else (False, l)) in
                    if b then Some (True, stack, l)
                    else if valid SAFE_NAV then
                      let (b, l) = scan_safe_nav l in Some (b, stack, l)
                    else Some (False, stack, l))"

definition kotlin_scan ::
  "kotlin_stack \<Rightarrow> kotlin_token lexer \<Rightarrow> (kotlin_token \<Rightarrow> bool) \<Rightarrow> kotlin_result" where
  "kotlin_scan stack l valid =
     (if valid AUTOMATIC_SEMICOLON then
        let (ret, l) = kotlin_scan_automatic_semicolon l in
        if \<not> ret \<and> valid SAFE_NAV \<and> lookahead l = c_quest then
          let (b, l) = scan_safe_nav l in Some (b, stack, l)
        else if ret then Some (ret, stack, l)
        else kotlin_scan_rest stack l valid
      else kotlin_scan_rest stack l valid)"

section \<open>The cursor\<close>

lemma fwd_kotlin_start_quotes [runs_rules]: "runs l0 l \<Longrightarrow> fwd l0 (kotlin_start_quotes n l)"
  by (induction n arbitrary: l) (auto intro!: runs_rules)

lemma fwd_kotlin_end_quotes [runs_rules]: "runs l0 l \<Longrightarrow> fwd l0 (kotlin_end_quotes n e l)"
  by (induction n arbitrary: l) (auto simp: Let_def intro!: runs_rules)

lemma runs_kotlin_more_quotes [runs_rules]: "runs l0 l \<Longrightarrow> runs l0 (kotlin_more_quotes e l)"
proof (induction e l rule: kotlin_more_quotes.induct)
  case (1 e l)
  then show ?case by (subst kotlin_more_quotes.simps) auto
qed

lemma fwd_opt_kotlin_scan_string_start [runs_rules]:
  "runs l0 l \<Longrightarrow> fwd_opt l0 (kotlin_scan_string_start l st)"
  unfolding kotlin_scan_string_start_def by (intro runs_rules)

lemma fwd_opt_kotlin_content_loop [runs_rules]:
  "runs l0 l \<Longrightarrow> fwd_opt l0 (kotlin_content_loop e t h st l)"
proof (induction e t h st l rule: kotlin_content_loop.induct)
  case (1 e t h st l)
  show ?case
    by (subst kotlin_content_loop.simps) (intro runs_rules 1; simp add: 1)
qed

lemma fwd_opt_kotlin_scan_string_content [runs_rules]:
  "runs l0 l \<Longrightarrow> fwd_opt l0 (kotlin_scan_string_content l st)"
  unfolding kotlin_scan_string_content_def by (intro runs_rules)

lemma fwd_kotlin_comment_loop [runs_rules]: "runs l0 l \<Longrightarrow> fwd l0 (kotlin_comment_loop a d l)"
proof (induction a d l rule: kotlin_comment_loop.induct)
  case (1 a d l)
  then show ?case
    by (subst kotlin_comment_loop.simps) (auto simp: Let_def intro!: runs_rules)
qed

lemma fwd_scan_multiline_comment [runs_rules]: "runs l0 l \<Longrightarrow> fwd l0 (scan_multiline_comment l)"
  unfolding scan_multiline_comment_def by (intro runs_rules)

lemma fwd_kotlin_scan_whitespace_and_comments [runs_rules]:
  "runs l0 l \<Longrightarrow> fwd l0 (kotlin_scan_whitespace_and_comments l)"
  unfolding kotlin_scan_whitespace_and_comments_def by (intro runs_rules)

lemma fwd_skip_letters [runs_rules]: "runs l0 l \<Longrightarrow> fwd l0 (skip_letters cs l)"
  by (induction cs arbitrary: l) (auto intro!: runs_rules)

lemma fwd_scan_for_word [runs_rules]: "runs l0 l \<Longrightarrow> fwd l0 (scan_for_word l w)"
  unfolding scan_for_word_def by (intro runs_rules)

lemma fwd_semicolon_line_end [runs_rules]: "runs l0 l \<Longrightarrow> fwd l0 (semicolon_line_end l)"
proof (induction l rule: semicolon_line_end.induct)
  case (1 l)
  then show ?case
    by (subst semicolon_line_end.simps) (auto simp: Let_def intro!: runs_rules)
qed

lemma fwd_semicolon_lines [runs_rules]:
  "runs l0 l \<Longrightarrow> fwd l0 (semicolon_same_line l)" "runs l0 l \<Longrightarrow> fwd l0 (semicolon_next_line l)"
  unfolding semicolon_same_line_def semicolon_next_line_def by (intro runs_rules; assumption?)+

lemma fwd_kotlin_scan_automatic_semicolon [runs_rules]:
  "runs l0 l \<Longrightarrow> fwd l0 (kotlin_scan_automatic_semicolon l)"
  unfolding kotlin_scan_automatic_semicolon_def by (intro runs_rules) (auto intro!: runs_rules)

lemma fwd_scan_safe_nav [runs_rules]: "runs l0 l \<Longrightarrow> fwd l0 (scan_safe_nav l)"
  unfolding scan_safe_nav_def by (intro runs_rules)

lemma fwd_line_sep_loop: "runs l0 l \<Longrightarrow> fwd l0 (line_sep_loop state l)"
proof (induction state l rule: line_sep_loop.induct)
  case (1 state l)
  then show ?case by (subst line_sep_loop.simps) (auto intro!: runs_rules)
qed

lemma fwd_scan_import_list_delimiter [runs_rules]:
  "runs l0 l \<Longrightarrow> fwd l0 (scan_import_list_delimiter l)"
  unfolding scan_import_list_delimiter_def scan_line_sep_def
  by (intro runs_rules fwd_line_sep_loop)

lemma fwd_opt_kotlin_scan_rest [runs_rules]: "runs l0 l \<Longrightarrow> fwd_opt l0 (kotlin_scan_rest st l valid)"
  unfolding kotlin_scan_rest_def by (intro runs_rules)

lemma fwd_opt_kotlin_scan [runs_rules]: "runs l0 l \<Longrightarrow> fwd_opt l0 (kotlin_scan st l valid)"
  unfolding kotlin_scan_def by (intro runs_rules)

section \<open>The stack\<close>

text \<open>
  What a scan does to the stack: nothing, or one push of a delimiter, or one pop, the last two only
  when it succeeds; and it aborts only when the stack is full.
\<close>

definition stack_step :: "kotlin_stack \<Rightarrow> (bool \<times> kotlin_stack \<times> 'k lexer) option \<Rightarrow> bool" where
  "stack_step st r \<longleftrightarrow>
     (r = None \<longrightarrow> serialization_buffer_size \<le> length st) \<and>
     (\<forall>ok st' l. r = Some (ok, st', l) \<longrightarrow> st' = st \<or>
        ok \<and> (length st < serialization_buffer_size \<and> st' \<in> {st @ [34], st @ [35]} \<or>
              st \<noteq> [] \<and> st' = butlast st))"

named_theorems stack_rules

lemma stack_step_rules [stack_rules]:
  "stack_step st (Some (b, st, l))"
  "(c \<Longrightarrow> stack_step st p) \<Longrightarrow> (\<not> c \<Longrightarrow> stack_step st q) \<Longrightarrow> stack_step st (if c then p else q)"
  "(\<And>a l. stack_step st (g a l)) \<Longrightarrow> stack_step st (let (a, l) = r in g a l)"
  "(\<And>l. stack_step st (h l)) \<Longrightarrow> stack_step st (let l = (m :: 'k lexer) in h l)"
  "st \<noteq> [] \<Longrightarrow> stack_step st (map_option (\<lambda>p. (True, snd p, l)) (stack_pop st))"
  "stack_step st (map_option (\<lambda>stack. (True, stack, l)) (stack_push st (to_char c_dquote) triple))"
  "stack_step st p \<Longrightarrow> (\<And>s l. p = Some (True, s, l) \<Longrightarrow> stack_step st (C s l)) \<Longrightarrow>
    (\<And>l. stack_step st (D st l)) \<Longrightarrow>
    stack_step st (case p of None \<Rightarrow> None | Some (b, s, l) \<Rightarrow> if b then C s l else D s l)"
  by (fastforce simp: stack_step_def stack_pop_def stack_push_def to_char_def
      split: option.splits prod.splits)+

lemma stack_step_eqI:
  "p = Some (True, s, l) \<Longrightarrow> stack_step st p \<Longrightarrow> stack_step st (Some (True, s, l'))"
  by (simp add: stack_step_def)

lemma stack_step_string_start [stack_rules]: "stack_step st (kotlin_scan_string_start l st)"
  unfolding kotlin_scan_string_start_def by (intro stack_rules)

lemma stack_step_content_loop [stack_rules]:
  "st \<noteq> [] \<Longrightarrow> stack_step st (kotlin_content_loop e t h st l)"
proof (induction e t h st l rule: kotlin_content_loop.induct)
  case (1 e t h st l)
  have st: "stack_step st (Some (h, st, m))" for m by (rule stack_rules)
  show ?case
    by (subst kotlin_content_loop.simps) (intro stack_rules st 1; simp add: 1)
qed

lemma stack_step_string_content [stack_rules]: "stack_step st (kotlin_scan_string_content l st)"
  unfolding kotlin_scan_string_content_def by (intro stack_rules) simp_all

lemma stack_step_kotlin_scan_rest [stack_rules]: "stack_step st (kotlin_scan_rest st l valid)"
  unfolding kotlin_scan_rest_def
  by (intro stack_rules)
    (auto split: if_splits intro: stack_step_eqI stack_step_string_content stack_step_string_start)

lemma stack_step_kotlin_scan: "stack_step st (kotlin_scan st l valid)"
  unfolding kotlin_scan_def by (intro stack_rules)

text \<open>Every entry is a double quote, or one more for a triple quote.\<close>

definition kotlin_ok :: "kotlin_stack \<Rightarrow> bool" where
  "kotlin_ok st \<longleftrightarrow> length st \<le> serialization_buffer_size \<and> set st \<subseteq> {34, 35}"

lemma stack_step_ok: "stack_step st (Some (ok, st', l)) \<Longrightarrow> kotlin_ok st \<Longrightarrow> kotlin_ok st'"
  by (auto simp: stack_step_def kotlin_ok_def dest: in_set_butlastD)

interpretation kotlin:
  resetting_scanner kotlin_create kotlin_ok kotlin_serialize kotlin_deserialize kotlin_scan
proof unfold_locales
  fix s l valid ok s' l'
  assume scan: "kotlin_scan s l valid = Some (ok, s', l')"
  then show "runs l l'"
    using fwd_opt_kotlin_scan [OF runs_refl, of l s valid] by (simp add: fwd_optD)
  assume "kotlin_ok s"
  with scan show "kotlin_ok s'"
    using stack_step_kotlin_scan [of s l valid] by (simp add: stack_step_ok)
qed (auto simp: kotlin_ok_def kotlin_serialize_def kotlin_deserialize_def kotlin_create_def)

section \<open>Runs of plain characters\<close>

definition kotlin_plain :: "code_point \<Rightarrow> bool" where
  "kotlin_plain c \<longleftrightarrow> c \<notin> {0, c_dollar, c_bslash, c_dquote}"

lemma char_val_34 [simp]: "char_val 34 = c_dquote"
  by (simp add: char_val_def)

lemma kotlin_content_plain:
  assumes "list_all kotlin_plain xs" and "text_ahead l = xs @ ys"
  shows "kotlin_content_loop 34 t h st l =
    kotlin_content_loop 34 t (h \<or> xs \<noteq> []) st (advance_n False (length xs) l)"
  using assms
proof (induction xs arbitrary: l h)
  case (Cons x xs)
  have "text_ahead (advance l) = xs @ ys" and "lookahead l = x"
    using Cons.prems(2) by (simp_all add: map_tl lookahead_text)
  then show ?case
    using Cons.IH [of "advance l" True] Cons.prems(1)
    by (subst kotlin_content_loop.simps) (simp add: kotlin_plain_def advance_n_Suc)
qed simp


section \<open>Comments nest\<close>

definition kotlin_comment_closed :: "kotlin_token lexer \<Rightarrow> bool \<times> kotlin_token lexer" where
  "kotlin_comment_closed l = (True, mark_end (set_result MULTILINE_COMMENT l))"

interpretation kotlin_comment: nested_comment_loop kotlin_comment_loop kotlin_comment_closed fst
  by unfold_locales
    (subst kotlin_comment_loop.simps; simp add: kotlin_comment_closed_def Let_def)+

section \<open>Where a semicolon is inserted\<close>

text \<open>
  The reference decides on the text alone: \<open>inserts_semicolon cs\<close> for the text behind a statement,
  \<open>next_line_semicolon cs\<close> for the line that follows it. A keyword is a whole word, as the comments in
  the source have it: no semicolon before \<open>else\<close>, \<open>in\<close> or \<open>instanceof\<close>, but one before a name that only
  begins like one of them. From 128 on, every character is taken to belong to a name.
\<close>

definition kotlin_word_char :: "code_point \<Rightarrow> bool" where
  "kotlin_word_char c \<longleftrightarrow> iswalnum c \<or> c = c_underscore \<or> 128 \<le> c"

definition first_word :: "code_point list \<Rightarrow> code_point list" where
  "first_word cs = takeWhile kotlin_word_char cs"

definition next_line_semicolon :: "code_point list \<Rightarrow> bool" where
  "next_line_semicolon cs = (case cs of [] \<Rightarrow> True | c # r \<Rightarrow>
     if c \<in> set continuation_chars then False
     else if c = c_plus then hd0 r = c_plus \<or> iswdigit (hd0 r)
     else if c = c_minus then hd0 r = c_minus \<or> iswdigit (hd0 r)
     else if c = c_bang then hd0 r \<noteq> c_eq
     else first_word cs \<noteq> codes ''else'' \<and> first_word cs \<noteq> codes ''in'' \<and>
       first_word cs \<noteq> codes ''instanceof'')"

definition blank :: "code_point \<Rightarrow> bool" where
  "blank c \<longleftrightarrow> iswspace c \<and> c \<noteq> c_nl \<and> c \<noteq> c_cr"

definition inserts_semicolon :: "code_point list \<Rightarrow> bool" where
  "inserts_semicolon cs = (case dropWhile blank cs of [] \<Rightarrow> True | c # r \<Rightarrow>
     if c = c_semi then True
     else if c = c_nl \<or> c = c_cr then next_line_semicolon (dropWhile iswspace r)
     else first_word (c # r) = codes ''import'')"

text \<open>
  The scanner does not compare words but letters, and the letters of \<open>instanceof\<close> one character too
  late. Where that makes a difference: before \<open>instanceof\<close>, before a name that begins with \<open>in\<close>, any
  letter and \<open>stanceof\<close>, and where \<open>else\<close>, \<open>in\<close> or \<open>import\<close> is only the beginning of a name.
\<close>

definition misread_line :: "code_point list \<Rightarrow> bool" where
  "misread_line cs \<longleftrightarrow>
     prefix (codes ''else'') cs \<and> first_word cs \<noteq> codes ''else'' \<or>
     first_word cs = codes ''instanceof'' \<or>
     prefix (codes ''in'') cs \<and>
       (if iswalpha (hd0 (tl (tl cs))) then prefix (codes ''stanceof'') (tl (tl (tl cs)))
        else kotlin_word_char (hd0 (tl (tl cs))))"

definition misread :: "code_point list \<Rightarrow> bool" where
  "misread cs = (case dropWhile blank cs of [] \<Rightarrow> False | c # r \<Rightarrow>
     if c = c_nl \<or> c = c_cr then misread_line (dropWhile iswspace r)
     else prefix (codes ''import'') (c # r) \<and> first_word (c # r) \<noteq> codes ''import'')"

text \<open>What the letters decide.\<close>

definition next_line_letters :: "code_point list \<Rightarrow> bool" where
  "next_line_letters cs = (case cs of [] \<Rightarrow> True | c # r \<Rightarrow>
     if c \<in> set continuation_chars then False
     else if c = c_plus then hd0 r = c_plus \<or> iswdigit (hd0 r)
     else if c = c_minus then hd0 r = c_minus \<or> iswdigit (hd0 r)
     else if c = c_bang then hd0 r \<noteq> c_eq
     else if c = c_e then \<not> prefix (codes ''lse'') r
     else if c = c_i then
       hd0 r \<noteq> c_n \<or> iswalpha (hd0 (tl r)) \<and> \<not> prefix (codes ''stanceof'') (tl (tl r))
     else True)"

definition letters_semicolon :: "code_point list \<Rightarrow> bool" where
  "letters_semicolon cs = (case dropWhile blank cs of [] \<Rightarrow> True | c # r \<Rightarrow>
     if c = c_semi then True
     else if c = c_nl \<or> c = c_cr then next_line_letters (dropWhile iswspace r)
     else prefix (codes ''import'') (c # r))"

lemma first_word_prefix: "first_word cs = codes w \<Longrightarrow> prefix (codes w) cs"
  unfolding first_word_def by (metis prefixI takeWhile_dropWhile_id)

lemma alpha_word: "iswalpha c \<Longrightarrow> kotlin_word_char c"
  by (simp add: kotlin_word_char_def iswalnum_def)

lemma word_letters [simp]:
  "kotlin_word_char 97" "kotlin_word_char 99" "kotlin_word_char 101" "kotlin_word_char 102"
  "kotlin_word_char 105" "kotlin_word_char 108" "kotlin_word_char 109" "kotlin_word_char 110"
  "kotlin_word_char 111" "kotlin_word_char 112" "kotlin_word_char 114" "kotlin_word_char 115"
  "kotlin_word_char 116" "\<not> kotlin_word_char 0"
  by (simp_all add: kotlin_word_char_def iswalnum_def iswalpha_def iswdigit_def)

lemma next_line_else:
  "next_line_letters (c_e # r) \<longleftrightarrow> (next_line_semicolon (c_e # r) \<longleftrightarrow> \<not> misread_line (c_e # r))"
proof -
  have "first_word (c_e # r) = codes ''else'' \<Longrightarrow> prefix (codes ''lse'') r"
    using first_word_prefix [of "c_e # r" "''else''"] by simp
  moreover have "first_word (c_e # r) \<noteq> codes ''in''" "first_word (c_e # r) \<noteq> codes ''instanceof''"
    by (simp_all add: first_word_def)
  ultimately show ?thesis
    by (auto simp: next_line_letters_def next_line_semicolon_def misread_line_def continuation_chars_def)
qed

lemma next_line_in:
  "next_line_letters (c_i # r) \<longleftrightarrow> (next_line_semicolon (c_i # r) \<longleftrightarrow> \<not> misread_line (c_i # r))"
proof (cases "\<exists>q. r = c_n # q")
  case False
  then have "hd0 r \<noteq> c_n" by (cases r) auto
  moreover have "\<not> prefix (codes ''in'') (c_i # r)" using False by (cases r) auto
  moreover have "first_word (c_i # r) \<noteq> codes ''in''" "first_word (c_i # r) \<noteq> codes ''instanceof''"
    "first_word (c_i # r) \<noteq> codes ''else''"
    using False by (cases r; simp add: first_word_def)+
  ultimately show ?thesis
    by (simp add: next_line_letters_def next_line_semicolon_def misread_line_def continuation_chars_def)
next
  case True
  then obtain q where r: "r = c_n # q" by blast
  have w: "first_word (c_i # r) = c_i # c_n # takeWhile kotlin_word_char q" by (simp add: r first_word_def)
  have inst: "takeWhile kotlin_word_char q = codes ''stanceof'' \<Longrightarrow> hd0 q = c_s \<and> \<not> prefix (codes ''stanceof'') (tl q)"
    using first_word_prefix [of q "''stanceof''"] by (cases q; cases "tl q") (auto simp: first_word_def)
  have e: "takeWhile kotlin_word_char q = [] \<longleftrightarrow> \<not> kotlin_word_char (hd0 q)" by (cases q) auto
  show ?thesis
    using inst e alpha_word [of "hd0 q"] unfolding r
    by (auto simp: next_line_letters_def next_line_semicolon_def misread_line_def continuation_chars_def
        w [unfolded r] iswalpha_def)
qed

lemma next_line_misread: "next_line_letters cs \<longleftrightarrow> (next_line_semicolon cs \<longleftrightarrow> \<not> misread_line cs)"
proof (cases cs)
  case Nil
  then show ?thesis by (simp add: next_line_letters_def next_line_semicolon_def misread_line_def first_word_def)
next
  case (Cons c r)
  consider "c = c_e" | "c = c_i" | "c \<noteq> c_e" "c \<noteq> c_i" by blast
  then show ?thesis
  proof cases
    case 3
    then have first: "first_word cs \<noteq> codes ''else''" "first_word cs \<noteq> codes ''in''"
      "first_word cs \<noteq> codes ''instanceof''"
      using Cons by (auto simp: first_word_def)
    have "\<not> prefix (codes ''else'') cs" "\<not> prefix (codes ''in'') cs" using 3 Cons by simp_all
    then have "\<not> misread_line cs" using first by (simp add: misread_line_def)
    moreover have "next_line_letters cs = next_line_semicolon cs"
      using 3 first unfolding next_line_letters_def next_line_semicolon_def Cons by simp
    ultimately show ?thesis by simp
  qed (simp_all add: Cons next_line_else next_line_in)
qed

lemma letters_misread: "letters_semicolon cs \<longleftrightarrow> (inserts_semicolon cs \<longleftrightarrow> \<not> misread cs)"
proof (cases "dropWhile blank cs")
  case (Cons c r)
  have "first_word (c # r) = codes ''import'' \<Longrightarrow> prefix (codes ''import'') (c # r)"
    by (rule first_word_prefix)
  moreover have "\<not> prefix (codes ''import'') (c # r)" if "c = c_semi"
    using that by simp
  ultimately show ?thesis
    using Cons next_line_misread
    by (auto simp: letters_semicolon_def inserts_semicolon_def misread_def simp del: codes_Cons)
next
  case Nil
  show ?thesis unfolding letters_semicolon_def inserts_semicolon_def misread_def Nil by simp
qed

lemma skip_letters_prefix:
  "0 \<notin> set w \<Longrightarrow> fst (skip_letters w l) = prefix w (text_ahead l)"
proof (induction w arbitrary: l)
  case (Cons c w)
  then show ?case
    by (cases "ahead l") (auto simp: lookahead_def)
qed simp

lemma scan_for_word_prefix:
  assumes "0 \<notin> set (codes w)"
  shows "fst (scan_for_word l w) = prefix (codes w) (tl (text_ahead l))"
  using skip_letters_prefix [OF assms, of "skip l"] by (simp add: scan_for_word_def map_tl)

lemma semicolon_next_line_text: "fst (semicolon_next_line l) = next_line_letters (text_ahead l)"
proof (cases "ahead l")
  case Nil
  then show ?thesis
    by (simp add: semicolon_next_line_def next_line_letters_def lookahead_def continuation_chars_def)
next
  case (Cons c cs)
  have hd: "lookahead l = cp c" "lookahead (skip l) = hd0 (List.map cp cs)"
    "lookahead (skip (skip l)) = hd0 (tl (List.map cp cs))"
    using Cons by (simp_all add: lookahead_hd0 hd0_def map_tl)
  show ?thesis
    unfolding semicolon_next_line_def next_line_letters_def
    using Cons scan_for_word_prefix [of "''lse''" l] scan_for_word_prefix [of "''stanceof''" "skip (skip l)"]
    by (simp add: hd Let_def split_beta map_tl)
qed

lemma semicolon_same_line_text:
  assumes "lookahead l \<noteq> c_semi"
  shows "fst (semicolon_same_line l) = prefix (codes ''import'') (text_ahead l)"
proof (cases "ahead l")
  case Nil
  then show ?thesis by (simp add: semicolon_same_line_def lookahead_def)
next
  case (Cons c cs)
  with assms show ?thesis
    using scan_for_word_prefix [of "''mport''" l]
    by (simp add: semicolon_same_line_def lookahead_def)
qed

lemma semicolon_line_end_blank:
  assumes "blank (lookahead l)"
  shows "semicolon_line_end l = semicolon_line_end (skip l)"
proof -
  have "\<not> eof l" "lookahead l \<noteq> c_semi" "iswspace (lookahead l)" "lookahead l \<noteq> c_nl" "lookahead l \<noteq> c_cr"
    using assms lookahead_eof [of l] by (auto simp: blank_def iswspace_def)
  then show ?thesis by (simp add: semicolon_line_end.simps [of l])
qed

lemma semicolon_line_end_blanks:
  "semicolon_line_end l = semicolon_line_end (advance_while blank True l)"
proof (induction blank True l rule: advance_while.induct)
  case (1 l)
  then show ?case
    using semicolon_line_end_blank [of l] by (subst advance_while.simps) simp
qed


lemma semicolon_line_end_cases:
  "eof l \<Longrightarrow> semicolon_line_end l = ((True, True), l)"
  "lookahead l = c_semi \<Longrightarrow> semicolon_line_end l = ((True, True), mark_end (advance l))"
  "\<not> eof l \<Longrightarrow> \<not> iswspace (lookahead l) \<Longrightarrow> lookahead l \<noteq> c_semi \<Longrightarrow>
    semicolon_line_end l = ((False, True), l)"
  "lookahead l = c_nl \<Longrightarrow> semicolon_line_end l = ((False, False), skip l)"
  "lookahead l = c_cr \<Longrightarrow> semicolon_line_end l =
    ((False, False), if lookahead (skip l) = c_nl then skip (skip l) else skip l)"
  using lookahead_eof [of l]
  by (auto simp: semicolon_line_end.simps [of l] iswspace_def Let_def)

lemma semicolon_line_end_break:
  assumes "text_ahead l = c # cs" and "c = c_nl \<or> c = c_cr"
  shows "\<exists>l'. semicolon_line_end l = ((False, False), l') \<and> result_symbol l' = result_symbol l \<and>
    dropWhile iswspace (text_ahead l') = dropWhile iswspace cs"
proof (cases "c = c_nl")
  case True
  with text_ahead_ConsD [OF assms(1)] show ?thesis by (simp add: semicolon_line_end_cases)
next
  case False
  with assms(2) have c: "c = c_cr" by simp
  show ?thesis
  proof (cases "lookahead (skip l) = c_nl")
    case True
    then have "text_ahead (skip l) = c_nl # text_ahead (skip (skip l))"
      by (intro trans [OF text_ahead_nonzero [of _ True]]) simp_all
    then have "dropWhile iswspace cs = dropWhile iswspace (text_ahead (skip (skip l)))"
      unfolding text_ahead_ConsD(1) [OF assms(1)] by (simp add: iswspace_def)
    with True c text_ahead_ConsD [OF assms(1)] show ?thesis
      by (simp add: semicolon_line_end_cases)
  next
    case False
    with c text_ahead_ConsD [OF assms(1)] show ?thesis
      by (simp add: semicolon_line_end_cases)
  qed
qed

lemma kotlin_semicolon_text:
  "fst (kotlin_scan_automatic_semicolon l) = letters_semicolon (text_ahead l)"
proof -
  let ?l = "mark_end (set_result AUTOMATIC_SEMICOLON l)"
  define m where "m = advance_while blank True ?l"
  have m: "text_ahead m = dropWhile blank (text_ahead l)"
    by (simp add: m_def ahead_advance_while dropWhile_map comp_def)
  have nb: "\<not> blank (lookahead m)"
    using look_advance_while [of blank True ?l] by (auto simp: m_def blank_def)
  have semi: "kotlin_scan_automatic_semicolon l =
    (case semicolon_line_end m of ((done, sameline), l) \<Rightarrow> if done then (True, l)
      else
        let l = advance_while iswspace True l in
        if lookahead l = c_slash then (False, l)
        else if sameline then semicolon_same_line l else semicolon_next_line l)"
    unfolding kotlin_scan_automatic_semicolon_def m_def
    by (simp add: semicolon_line_end_blanks [of ?l] kotlin_scan_whitespace_and_comments_def
        Let_def split_beta)
  show ?thesis
  proof (cases "text_ahead m")
    case Nil
    then show ?thesis
      unfolding semi letters_semicolon_def m [symmetric]
      by (simp add: semicolon_line_end_cases eof_text)
  next
    case (Cons c cs)
    note c = text_ahead_ConsD [OF Cons]
    consider "c = c_semi" | "c = c_nl \<or> c = c_cr" | "\<not> iswspace c" "c \<noteq> c_semi"
      using nb c by (auto simp: blank_def)
    then show ?thesis
    proof cases
      case 1
      with c Cons show ?thesis
        unfolding semi letters_semicolon_def m [symmetric]
        by (simp add: semicolon_line_end_cases)
    next
      case 2
      then obtain l' where l': "semicolon_line_end m = ((False, False), l')"
        "dropWhile iswspace (text_ahead l') = dropWhile iswspace cs"
        using semicolon_line_end_break [OF Cons] by blast
      let ?n = "advance_while iswspace True l'"
      have n: "text_ahead ?n = dropWhile iswspace cs"
        using l'(2) by (simp add: ahead_advance_while dropWhile_map comp_def)
      have "letters_semicolon (text_ahead l) = next_line_letters (text_ahead ?n)"
        unfolding letters_semicolon_def m [symmetric] n using 2 Cons by auto
      moreover have "lookahead ?n = c_slash \<Longrightarrow> \<not> next_line_letters (text_ahead ?n)"
        using text_ahead_nonzero [of ?n True]
        by (simp add: next_line_letters_def continuation_chars_def)
      ultimately show ?thesis
        unfolding semi l'(1) by (auto simp: Let_def semicolon_next_line_text)
    next
      case 3
      then have w: "advance_while iswspace True m = m"
        using c by (subst advance_while.simps) simp
      have e: "semicolon_line_end m = ((False, True), m)"
        using 3 c by (simp add: semicolon_line_end_cases)
      have s: "fst (semicolon_same_line m) = prefix (codes ''import'') (c # cs)"
        using semicolon_same_line_text [of m] 3 c Cons by simp
      have "fst (kotlin_scan_automatic_semicolon l) =
          (if c = c_slash then False else fst (semicolon_same_line m))"
        using c unfolding semi by (simp add: e w Let_def)
      moreover have "letters_semicolon (text_ahead l) = prefix (codes ''import'') (c # cs)"
        using 3 unfolding letters_semicolon_def m [symmetric] Cons by (auto simp: iswspace_def)
      ultimately show ?thesis
        using s by auto
    qed
  qed
qed

section \<open>The reported symbol\<close>

lemma kotlin_keeps_symbol:
  "result_symbol (snd (kotlin_scan_whitespace_and_comments l)) = result_symbol l"
  "result_symbol (snd (skip_letters cs l)) = result_symbol l"
  "result_symbol (snd (scan_for_word l w)) = result_symbol l"
proof -
  show letters: "result_symbol (snd (skip_letters cs l)) = result_symbol l" for cs l
    by (induction cs arbitrary: l) simp_all
  show "result_symbol (snd (scan_for_word l w)) = result_symbol l"
    by (simp add: scan_for_word_def letters)
qed (simp add: kotlin_scan_whitespace_and_comments_def Let_def)

lemma line_sep_symbol: "result_symbol (snd (scan_line_sep l)) = result_symbol l"
proof -
  have "result_symbol (snd (line_sep_loop n l)) = result_symbol l" for n
  proof (induction n l rule: line_sep_loop.induct)
    case (1 n l)
    then show ?case by (subst line_sep_loop.simps) simp
  qed
  then show ?thesis by (simp add: scan_line_sep_def)
qed

lemma scan_safe_nav_symbol: "result_symbol (snd (scan_safe_nav l)) = Some SAFE_NAV"
  by (simp add: scan_safe_nav_def Let_def split_beta kotlin_keeps_symbol)

lemma import_list_symbol:
  "result_symbol (snd (scan_import_list_delimiter l)) = Some IMPORT_LIST_DELIMITER"
  by (simp add: scan_import_list_delimiter_def Let_def split_beta kotlin_keeps_symbol line_sep_symbol)

lemma semicolon_symbol:
  "result_symbol (snd (kotlin_scan_automatic_semicolon l)) = Some AUTOMATIC_SEMICOLON"
proof -
  have "result_symbol (snd (semicolon_line_end l)) = result_symbol l" for l :: "kotlin_token lexer"
  proof (induction l rule: semicolon_line_end.induct)
    case (1 l)
    then show ?case by (subst semicolon_line_end.simps) (simp add: Let_def)
  qed
  moreover have "result_symbol (snd (semicolon_same_line l)) = result_symbol l"
    "result_symbol (snd (semicolon_next_line l)) = result_symbol l" for l :: "kotlin_token lexer"
    by (simp_all add: semicolon_same_line_def semicolon_next_line_def Let_def split_beta
        kotlin_keeps_symbol)
  ultimately show ?thesis
    by (simp add: kotlin_scan_automatic_semicolon_def Let_def split_beta kotlin_keeps_symbol)
qed

lemma reports_content_loop:
  assumes "V STRING_CONTENT" and "V STRING_END"
  shows "reports_opt V (kotlin_content_loop e t h st l)"
proof (induction e t h st l rule: kotlin_content_loop.induct)
  case (1 e t h st l)
  have more: "result_symbol (kotlin_more_quotes e l) = result_symbol l" for l :: "kotlin_token lexer"
  proof (induction e l rule: kotlin_more_quotes.induct)
    case (1 e l)
    then show ?case by (subst kotlin_more_quotes.simps) simp
  qed
  show ?case
    by (subst kotlin_content_loop.simps)
      (intro answer_eq_rules 1 assms; simp add: assms reports3_def more)
qed

lemma reports_comment_loop: "V MULTILINE_COMMENT \<Longrightarrow> reports V (kotlin_comment_loop a d l)"
proof (induction a d l rule: kotlin_comment_loop.induct)
  case (1 a d l)
  then show ?case
    by (subst kotlin_comment_loop.simps) (auto simp: Let_def reports_def)
qed

lemma kotlin_rest_reports:
  assumes "\<And>k. valid k \<Longrightarrow> k \<noteq> AUTOMATIC_SEMICOLON \<Longrightarrow> V k" and "valid STRING_CONTENT \<Longrightarrow> V STRING_END"
  shows "reports_opt V (kotlin_scan_rest st l valid)"
proof -
  have sc: "reports_opt V (kotlin_scan_string_content l st)" if "valid STRING_CONTENT" for l
    unfolding kotlin_scan_string_content_def using that assms
    by (intro answer_rules reports_content_loop) simp_all
  have ml: "reports V (scan_multiline_comment l)" if "valid MULTILINE_COMMENT" for l
    unfolding scan_multiline_comment_def using that assms
    by (intro answer_rules reports_comment_loop) simp_all
  have "reports V (scan_safe_nav l)" if "valid SAFE_NAV" for l
    using that assms(1) [of SAFE_NAV] by (simp add: reports_def scan_safe_nav_symbol)
  moreover have "reports V (scan_import_list_delimiter l)" if "valid IMPORT_LIST_DELIMITER" for l
    using that assms(1) [of IMPORT_LIST_DELIMITER] by (simp add: reports_def import_list_symbol)
  ultimately show ?thesis
    unfolding kotlin_scan_rest_def
    by (intro answer_rules)
      (auto split: if_splits intro: assms reports_opt_eqI [OF _ sc] reports_eqI3 [OF _ ml])
qed

lemma kotlin_semicolon_scan:
  assumes "valid AUTOMATIC_SEMICOLON"
  shows "letters_semicolon (text_ahead l) \<longleftrightarrow>
    (\<exists>st' l'. kotlin_scan st l valid = Some (True, st', l') \<and> st' = st \<and>
       result_symbol l' = Some AUTOMATIC_SEMICOLON)"
proof -
  obtain ret l1 where semi: "kotlin_scan_automatic_semicolon l = (ret, l1)" by fastforce
  then have ret: "ret = letters_semicolon (text_ahead l)"
    "result_symbol l1 = Some AUTOMATIC_SEMICOLON"
    using kotlin_semicolon_text [of l] semicolon_symbol [of l] by simp_all
  have "reports_opt (\<lambda>k. k \<noteq> AUTOMATIC_SEMICOLON) (kotlin_scan_rest st l1 valid)"
    by (rule kotlin_rest_reports) simp_all
  then have "kotlin_scan_rest st l1 valid = Some (True, st', l') \<Longrightarrow>
      result_symbol l' \<noteq> Some AUTOMATIC_SEMICOLON" for st' l'
    by (auto simp: reports_opt_def reports3_def)
  then show ?thesis
    using assms semi ret scan_safe_nav_symbol [of l1]
    by (auto simp: kotlin_scan_def Let_def split: prod.splits)
qed

section \<open>Properties\<close>

text \<open>C1. A semicolon is inserted exactly where the comments of the scanner ask for it: at the end of the
input, at a semicolon, before the word \<open>import\<close> on the same line, and after a line break unless the next
line goes on with an operator, an opening bracket or one of the words \<open>else\<close>, \<open>in\<close> and \<open>instanceof\<close>.
Left out are the texts of \<open>misread\<close>, where letters are compared instead of words. The state is not
touched.\<close>

theorem kotlin_inserted_semicolon:
  assumes "valid AUTOMATIC_SEMICOLON" and "\<not> misread (text_ahead l)"
  shows "inserts_semicolon (text_ahead l) \<longleftrightarrow>
    (\<exists>st' l'. kotlin_scan st l valid = Some (True, st', l') \<and> st' = st \<and>
       result_symbol l' = Some AUTOMATIC_SEMICOLON)"
  using kotlin_semicolon_scan [where valid = valid and l = l and st = st]
    letters_misread [of "text_ahead l"] assms by simp

theorem kotlin_inserted_semicolon_witness:
  "(\<exists>st' l'. kotlin_scan [] (lexer_on (10 # codes ''  val x'')) (\<lambda>k. k = AUTOMATIC_SEMICOLON) =
     Some (True, st', l') \<and> st' = [] \<and> result_symbol l' = Some AUTOMATIC_SEMICOLON) \<and>
   \<not> (\<exists>st' l'. kotlin_scan [] (lexer_on (10 # codes ''  in x'')) (\<lambda>k. k = AUTOMATIC_SEMICOLON) =
     Some (True, st', l') \<and> st' = [] \<and> result_symbol l' = Some AUTOMATIC_SEMICOLON)"
  using kotlin_inserted_semicolon [of "\<lambda>k. k = AUTOMATIC_SEMICOLON" "lexer_on (10 # codes ''  val x'')" "[]"]
    kotlin_inserted_semicolon [of "\<lambda>k. k = AUTOMATIC_SEMICOLON" "lexer_on (10 # codes ''  in x'')" "[]"]
  by (simp add: inserts_semicolon_def misread_def misread_line_def first_word_def kotlin_word_char_def blank_def
      iswspace_def iswalnum_def iswalpha_def iswdigit_def next_line_semicolon_def continuation_chars_def)

text \<open>Where letters are compared instead of words, the answer is the opposite: a semicolon is inserted
before \<open>instanceof\<close>, and none before a name like \<open>elsewhere\<close> or \<open>in2\<close>.\<close>

theorem kotlin_words_misread:
  assumes "valid AUTOMATIC_SEMICOLON" and "misread (text_ahead l)"
  shows "\<not> inserts_semicolon (text_ahead l) \<longleftrightarrow>
    (\<exists>st' l'. kotlin_scan st l valid = Some (True, st', l') \<and> st' = st \<and>
       result_symbol l' = Some AUTOMATIC_SEMICOLON)"
  using kotlin_semicolon_scan [where valid = valid and l = l and st = st]
    letters_misread [of "text_ahead l"] assms by simp

theorem kotlin_words_misread_witness:
  "\<exists>st' l'. kotlin_scan [] (lexer_on (10 # codes ''instanceof T'')) (\<lambda>k. k = AUTOMATIC_SEMICOLON) =
     Some (True, st', l') \<and> st' = [] \<and> result_symbol l' = Some AUTOMATIC_SEMICOLON"
  using kotlin_words_misread [of "\<lambda>k. k = AUTOMATIC_SEMICOLON" "lexer_on (10 # codes ''instanceof T'')" "[]"]
  by (simp add: inserts_semicolon_def misread_def misread_line_def first_word_def kotlin_word_char_def blank_def
      iswspace_def iswalnum_def iswalpha_def iswdigit_def next_line_semicolon_def continuation_chars_def)

text \<open>C17. The stack of open strings changes by at most one delimiter a scan, and only when the scan
succeeds; it holds only delimiters of plain and triple quoted strings and never more than the buffer
takes, and the scan ends with \<open>abort()\<close> only when the stack is full.\<close>

theorem kotlin_stack_safe:
  assumes "kotlin_ok st"
  shows "case kotlin_scan st l valid of
      None \<Rightarrow> length st = serialization_buffer_size
    | Some (ok, st', l') \<Rightarrow> kotlin_ok st' \<and>
        (st' \<noteq> st \<longrightarrow> ok \<and> (st' = st @ [34] \<or> st' = st @ [35] \<or> st \<noteq> [] \<and> st' = butlast st))"
proof (cases "kotlin_scan st l valid")
  case None
  then show ?thesis
    using stack_step_kotlin_scan [of st l valid] assms by (simp add: stack_step_def kotlin_ok_def)
next
  case (Some r)
  obtain ok st' l' where r: "r = (ok, st', l')" by (cases r)
  have step: "stack_step st (Some (ok, st', l'))"
    using stack_step_kotlin_scan [of st l valid] Some r by simp
  then have "kotlin_ok st'" using assms by (rule stack_step_ok)
  with step show ?thesis using Some r by (auto simp: stack_step_def)
qed

theorem kotlin_stack_safe_witness:
  "case kotlin_scan [34] (lexer_on (codes ''a'')) (\<lambda>k. k = STRING_CONTENT) of
      None \<Rightarrow> False | Some (ok, st', l') \<Rightarrow> kotlin_ok st'"
  using kotlin_stack_safe [of "[34]" "lexer_on (codes ''a'')" "\<lambda>k. k = STRING_CONTENT"]
  by (auto simp: kotlin_ok_def serialization_buffer_size_def split: option.splits)


text \<open>C25. A Kotlin block comment nests: after white space and \<open>/*\<close>, the scan succeeds exactly when
the reference finds the \<open>*/\<close> that closes the outermost comment, and the token ends right behind it.\<close>

theorem kotlin_block_comment:
  assumes "text_ahead l = ws @ c_slash # c_star # cs" and "list_all iswspace ws"
    and "valid MULTILINE_COMMENT"
    and "\<forall>k. valid k \<longrightarrow> k = MULTILINE_COMMENT \<or> k = STRING_START"
  shows "case comment_close (\<lambda>c. c = 0) 1 cs of
      None \<Rightarrow> \<exists>l'. kotlin_scan st l valid = Some (False, st, l')
    | Some n \<Rightarrow> \<exists>l'. kotlin_scan st l valid = Some (True, st, l') \<and>
        token_end l' = pos l + length ws + 2 + n \<and> text_ahead l' = drop n cs \<and>
        result_symbol l' = Some MULTILINE_COMMENT"
proof -
  define l1 where "l1 = advance_n True (length ws) l"
  define l2 where "l2 = advance (advance l1)"
  have sk: "advance_while iswspace True l = l1"
    unfolding l1_def by (rule advance_while_run [OF assms(1,2)]) (simp add: iswspace_def)
  have l1: "text_ahead l1 = c_slash # c_star # cs" "pos l1 = pos l + length ws"
    unfolding l1_def using text_ahead_advance_n [OF assms(1)] pos_advance_n_text [OF assms(1)]
    by simp_all
  note a = text_ahead_ConsD [OF l1(1)]
  note b = text_ahead_ConsD [OF a(1)]
  have V: "\<not> valid AUTOMATIC_SEMICOLON" "\<not> valid IMPORT_LIST_DELIMITER" "\<not> valid STRING_CONTENT"
    "\<not> valid SAFE_NAV"
    using assms(4) by blast+
  have "kotlin_scan_string_start l1 st = Some (False, st, l1)"
    using a by (simp add: kotlin_scan_string_start_def)
  then have scan: "kotlin_scan st l valid =
      (case kotlin_comment_loop False 1 l2 of (b, l) \<Rightarrow> Some (b, st, l))"
    using assms(3) a b
    by (simp add: kotlin_scan_def kotlin_scan_rest_def V sk scan_multiline_comment_def l2_def Let_def
        split: prod.split)
  note close = kotlin_comment.loop_finds_close [where d = 1 and l = l2]
  have t2: "text_ahead l2 = cs" "pos l2 = pos l + length ws + 2"
    using a b l1 by (simp_all add: l2_def)
  show ?thesis
  proof (cases "comment_close (\<lambda>c. c = 0) 1 cs")
    case None
    with close scan t2 show ?thesis by (auto split: prod.splits)
  next
    case (Some n)
    have "n \<le> remaining l2"
      using comment_close_le [OF Some] arg_cong [OF t2(1), of length] by simp
    with Some close scan t2 show ?thesis
      using text_ahead_drop [of False n l2]
      by (simp add: kotlin_comment_closed_def pos_advance_n)
  qed
qed

theorem kotlin_block_comment_witness:
  "case comment_close (\<lambda>c. c = 0) 1 (codes ''a/*b*/c*/ x'') of
      None \<Rightarrow> False
    | Some n \<Rightarrow> \<exists>l'. kotlin_scan [] (lexer_on (codes '' /*a/*b*/c*/ x'')) (\<lambda>k. k = MULTILINE_COMMENT) =
        Some (True, [], l') \<and> token_end l' = 12 \<and> text_ahead l' = codes '' x'' \<and>
        result_symbol l' = Some MULTILINE_COMMENT"
  using kotlin_block_comment [of "lexer_on (codes '' /*a/*b*/c*/ x'')" "codes '' ''"
      "codes ''a/*b*/c*/ x''" "\<lambda>k. k = MULTILINE_COMMENT" "[]"]
  by (simp add: iswspace_def eval_nat_numeral)

subsection \<open>A string as three tokens\<close>

definition quote_count :: "bool \<Rightarrow> nat" where
  "quote_count triple = (if triple then 3 else 1)"

definition quote_entry :: "bool \<Rightarrow> delimiter" where
  "quote_entry triple = (if triple then 35 else 34)"

definition quotes :: "bool \<Rightarrow> code_point list" where
  "quotes triple = replicate (quote_count triple) c_dquote"

lemma quotes_simps:
  "quotes False = [c_dquote]" "quotes True = [c_dquote, c_dquote, c_dquote]"
  "length (quotes t) = quote_count t"
  by (simp_all add: quotes_def quote_count_def eval_nat_numeral)

lemma string_content_entry:
  "kotlin_scan_string_content l (st @ [quote_entry t]) =
    kotlin_content_loop 34 t False (st @ [quote_entry t]) l"
  by (simp add: kotlin_scan_string_content_def quote_entry_def)

lemma kotlin_scan_content:
  assumes "valid STRING_CONTENT" "\<not> valid AUTOMATIC_SEMICOLON" "\<not> valid IMPORT_LIST_DELIMITER"
    and "kotlin_scan_string_content l st = Some (True, st', l')"
  shows "kotlin_scan st l valid = Some (True, st', l')"
  using assms by (simp add: kotlin_scan_def kotlin_scan_rest_def)

lemma string_start_quotes:
  assumes "text_ahead l = quotes t @ cs" and "cs = [] \<or> hd cs \<noteq> c_dquote"
    and "length st < serialization_buffer_size"
  shows "\<exists>l'. kotlin_scan_string_start l st = Some (True, st @ [quote_entry t], l') \<and>
    token_end l' = pos l + quote_count t"
proof (cases t)
  case False
  then have t: "text_ahead l = c_dquote # cs" using assms(1) by (simp add: quotes_simps)
  have "lookahead (advance l) \<noteq> c_dquote"
    unfolding lookahead_text text_ahead_ConsD(1) [OF t] using assms(2) by (cases cs) simp_all
  with False text_ahead_ConsD [OF t] assms(3) show ?thesis
    by (simp add: kotlin_scan_string_start_def Let_def delimiter_length_def numeral_eq_Suc
        stack_push_def quote_entry_def quote_count_def to_char_def)
next
  case True
  then have t: "text_ahead l = c_dquote # c_dquote # c_dquote # cs"
    using assms(1) by (simp add: quotes_simps)
  note a = text_ahead_ConsD [OF t]
  have "text_ahead (mark_end (advance l)) = c_dquote # c_dquote # cs" using a by simp
  note b = text_ahead_ConsD [OF this]
  note c = text_ahead_ConsD [OF b(1)]
  from a b c True assms(3) show ?thesis
    by (simp add: kotlin_scan_string_start_def Let_def delimiter_length_def numeral_eq_Suc
        stack_push_def quote_entry_def quote_count_def to_char_def)
qed

lemma end_quotes_close:
  assumes "text_ahead l = quotes True @ cs"
  shows "kotlin_end_quotes (delimiter_length - 1) 34 (mark_end l) =
      (True, advance (advance (mark_end l)))"
    and "lookahead (advance (advance (mark_end l))) = c_dquote"
    and "text_ahead (advance (advance (advance (mark_end l)))) = cs"
    and "pos (advance (advance (advance (mark_end l)))) = pos l + 3"
proof -
  have t: "text_ahead (mark_end l) = c_dquote # c_dquote # c_dquote # cs"
    using assms by (simp add: quotes_simps)
  note a = text_ahead_ConsD [OF t]
  note b = text_ahead_ConsD [OF a(1)]
  note c = text_ahead_ConsD [OF b(1)]
  from a b c show "kotlin_end_quotes (delimiter_length - 1) 34 (mark_end l) =
      (True, advance (advance (mark_end l)))"
    "lookahead (advance (advance (mark_end l))) = c_dquote"
    "text_ahead (advance (advance (advance (mark_end l)))) = cs"
    "pos (advance (advance (advance (mark_end l)))) = pos l + 3"
    by (simp_all add: delimiter_length_def numeral_eq_Suc Let_def)
qed

lemma more_quotes_stop:
  "text_ahead l = cs \<Longrightarrow> cs = [] \<or> hd cs \<noteq> c_dquote \<Longrightarrow> kotlin_more_quotes 34 l = l"
  by (subst kotlin_more_quotes.simps) (auto simp: lookahead_def eof_def split: list.splits)

lemma string_content_stops:
  assumes "text_ahead l = quotes t @ cs"
  shows "\<exists>l'. kotlin_content_loop 34 t True st l = Some (True, st, l') \<and>
    token_end l' = pos l \<and> result_symbol l' = Some STRING_CONTENT"
proof (cases t)
  case False
  then have t: "text_ahead l = c_dquote # cs" using assms(1) by (simp add: quotes_simps)
  from False text_ahead_ConsD [OF t] show ?thesis
    by (subst kotlin_content_loop.simps) simp
next
  case True
  then have t: "text_ahead l = c_dquote # c_dquote # c_dquote # cs"
    using assms(1) by (simp add: quotes_simps)
  note a = text_ahead_ConsD [OF t]
  have "text_ahead l = quotes True @ cs" using assms(1) True by simp
  note q = end_quotes_close [OF this]
  from True a q(1,2) show ?thesis
    by (subst kotlin_content_loop.simps) (simp add: Let_def token_end_def)
qed

lemma string_content_ends:
  assumes "text_ahead l = quotes t @ cs" and "t \<Longrightarrow> cs = [] \<or> hd cs \<noteq> c_dquote" and "st \<noteq> []"
  shows "\<exists>l'. kotlin_content_loop 34 t False st l = Some (True, butlast st, l') \<and>
    token_end l' = pos l + quote_count t \<and> result_symbol l' = Some STRING_END"
proof (cases t)
  case False
  then have t: "text_ahead l = c_dquote # cs" using assms(1) by (simp add: quotes_simps)
  from False text_ahead_ConsD [OF t] assms(3) show ?thesis
    by (subst kotlin_content_loop.simps) (simp add: stack_pop_def quote_count_def)
next
  case True
  then have t: "text_ahead l = c_dquote # c_dquote # c_dquote # cs"
    using assms(1) by (simp add: quotes_simps)
  note a = text_ahead_ConsD [OF t]
  have "text_ahead l = quotes True @ cs" using assms(1) True by simp
  note q = end_quotes_close [OF this]
  let ?m = "mark_end (set_result STRING_END (advance (advance (mark_end l))))"
  have ne: "\<not> eof ?m" using q(2) lookahead_eof [of "advance (advance (mark_end l))"] by auto
  have "kotlin_more_quotes 34 ?m = kotlin_more_quotes 34 (mark_end (advance ?m))"
    using q(2) ne by (subst kotlin_more_quotes.simps) simp
  also have "\<dots> = mark_end (advance ?m)"
    by (rule more_quotes_stop [OF _ assms(2) [OF True]]) (use q(3) in simp)
  finally have more: "kotlin_more_quotes 34 ?m = mark_end (advance ?m)" .
  have p: "pos (advance ?m) = pos l + 3"
    using ne q(4) by (simp add: pos_advance eof_def)
  from True a q(1,2) more p assms(3) show ?thesis
    by (subst kotlin_content_loop.simps) (simp add: Let_def stack_pop_def quote_count_def)
qed

lemma string_content_body:
  assumes "list_all kotlin_plain xs" and "xs \<noteq> []" and "text_ahead l = xs @ quotes t @ cs"
  shows "\<exists>l'. kotlin_content_loop 34 t False st l = Some (True, st, l') \<and>
    token_end l' = pos l + length xs \<and> result_symbol l' = Some STRING_CONTENT"
proof -
  let ?l = "advance_n False (length xs) l"
  have "text_ahead ?l = quotes t @ cs" "pos ?l = pos l + length xs"
    using text_ahead_advance_n [OF assms(3)] pos_advance_n_text [OF assms(3)] by simp_all
  then show ?thesis
    using string_content_stops [of ?l t cs st] kotlin_content_plain [OF assms(1,3)] assms(2) by simp
qed

text \<open>C24. A string of plain characters, quoted once or three times, is scanned as its opening
quotes, its text and its closing quotes, with the delimiter pushed by the first scan and popped by the
third.\<close>

theorem kotlin_string_tokens:
  assumes "List.map cp cs = quotes triple @ xs @ quotes triple @ rest"
    and "list_all kotlin_plain xs" and "xs \<noteq> []" and "rest = [] \<or> hd rest \<noteq> c_dquote"
    and "length st < serialization_buffer_size"
    and "v STRING_START" "\<forall>k. v k \<longrightarrow> k = STRING_START \<or> k = MULTILINE_COMMENT"
    and "w STRING_CONTENT" "\<not> w AUTOMATIC_SEMICOLON" "\<not> w IMPORT_LIST_DELIMITER"
    and "n = quote_count triple"
  shows "\<exists>l1 l2 l3.
    kotlin_scan st (lexer_at cs e 0) v = Some (True, st @ [quote_entry triple], l1) \<and>
    token_end l1 = n \<and> result_symbol l1 = Some STRING_START \<and>
    kotlin_scan (st @ [quote_entry triple]) (lexer_at cs e n) w =
      Some (True, st @ [quote_entry triple], l2) \<and>
    token_end l2 = n + length xs \<and> result_symbol l2 = Some STRING_CONTENT \<and>
    kotlin_scan (st @ [quote_entry triple]) (lexer_at cs e (n + length xs)) w = Some (True, st, l3) \<and>
    token_end l3 = n + length xs + n \<and> result_symbol l3 = Some STRING_END"
proof -
  let ?s = "st @ [quote_entry triple]"
  have "c_dquote \<notin> set xs" using assms(2) by (auto simp: list_all_iff kotlin_plain_def)
  then have body: "xs @ quotes triple @ rest = [] \<or> hd (xs @ quotes triple @ rest) \<noteq> c_dquote"
    using assms(3) by (cases xs) auto
  have t: "text_ahead (lexer_at cs e 0 :: kotlin_token lexer) = quotes triple @ xs @ quotes triple @ rest"
    "text_ahead (lexer_at cs e n :: kotlin_token lexer) = xs @ quotes triple @ rest"
    "text_ahead (lexer_at cs e (n + length xs) :: kotlin_token lexer) = quotes triple @ rest"
    using assms(1,11) by (simp_all add: drop_map [symmetric] quotes_simps(3))
  have V: "\<not> v AUTOMATIC_SEMICOLON" "\<not> v IMPORT_LIST_DELIMITER" "\<not> v STRING_CONTENT"
    using assms(7) by blast+
  have "lookahead (lexer_at cs e 0 :: kotlin_token lexer) = c_dquote"
    unfolding lookahead_text t by (cases triple) (simp_all add: quotes_simps)
  then have nows: "advance_while iswspace True (lexer_at cs e 0 :: kotlin_token lexer) = lexer_at cs e 0"
    by (subst advance_while.simps) (simp add: iswspace_def)
  obtain l1 where l1: "kotlin_scan_string_start (lexer_at cs e 0) st = Some (True, ?s, l1)"
    "token_end l1 = n"
    using string_start_quotes [OF t(1) body assms(5)] assms(11) by auto
  then have s1: "kotlin_scan st (lexer_at cs e 0) v = Some (True, ?s, set_result STRING_START l1)"
    using assms(6) V by (simp add: kotlin_scan_def kotlin_scan_rest_def nows Let_def)
  obtain l2 where l2: "kotlin_content_loop 34 triple False ?s (lexer_at cs e n) = Some (True, ?s, l2)"
    "token_end l2 = n + length xs" "result_symbol l2 = Some STRING_CONTENT"
    using string_content_body [OF assms(2,3) t(2), of ?s] by auto
  obtain l3 where l3: "kotlin_content_loop 34 triple False ?s (lexer_at cs e (n + length xs)) =
      Some (True, st, l3)"
    "token_end l3 = n + length xs + n" "result_symbol l3 = Some STRING_END"
    using string_content_ends [OF t(3), of ?s] assms(4,11) by auto
  note scan = kotlin_scan_content [OF assms(8-10), unfolded string_content_entry]
  show ?thesis
    using s1 l1(2) kotlin_scan_content [OF assms(8-10), of "lexer_at cs e n" ?s]
      kotlin_scan_content [OF assms(8-10), of "lexer_at cs e (n + length xs)" ?s] l2 l3
    by (intro exI [of _ "set_result STRING_START l1"] exI [of _ l2] exI [of _ l3])
      (simp add: string_content_entry)
qed

theorem kotlin_string_tokens_witness:
  "\<exists>l1 l2 l3.
    kotlin_scan [] (lexer_at (cells_of 0 ([34] @ codes ''ab'' @ [34] @ codes '';'')) end_cell 0)
      (\<lambda>k. k = STRING_START) = Some (True, [34], l1) \<and> token_end l1 = 1 \<and>
    kotlin_scan [34] (lexer_at (cells_of 0 ([34] @ codes ''ab'' @ [34] @ codes '';'')) end_cell 1)
      (\<lambda>k. k = STRING_CONTENT) = Some (True, [34], l2) \<and> token_end l2 = 3 \<and>
    kotlin_scan [34] (lexer_at (cells_of 0 ([34] @ codes ''ab'' @ [34] @ codes '';'')) end_cell 3)
      (\<lambda>k. k = STRING_CONTENT) = Some (True, [], l3) \<and> token_end l3 = 4"
proof -
  have "serialization_buffer_size > 0" by (simp add: serialization_buffer_size_def)
  then show ?thesis
    using kotlin_string_tokens [of "cells_of 0 ([34] @ codes ''ab'' @ [34] @ codes '';'')" False
        "codes ''ab''" "codes '';''" "[]" "\<lambda>k. k = STRING_START" "\<lambda>k. k = STRING_CONTENT" 1 end_cell]
    by (auto simp: quotes_simps quote_count_def quote_entry_def kotlin_plain_def eval_nat_numeral
        simp del: cells_of.simps)
qed

text \<open>An escaped dollar swallows the character behind it: in \<open>\$\<close> followed by another dollar the
second dollar is text, so an interpolation right behind an escaped dollar is not seen and the content
runs on to the closing quote.\<close>

theorem kotlin_escaped_dollar_swallows:
  assumes "text_ahead l = c_bslash # c_dollar # c_dollar # xs @ c_dquote # rest"
    and "list_all kotlin_plain xs"
    and "valid STRING_CONTENT" "\<not> valid AUTOMATIC_SEMICOLON" "\<not> valid IMPORT_LIST_DELIMITER"
  shows "\<exists>l'. kotlin_scan (st @ [34]) l valid = Some (True, st @ [34], l') \<and>
    token_end l' = pos l + 3 + length xs \<and> result_symbol l' = Some STRING_CONTENT"
proof -
  let ?s = "st @ [quote_entry False]"
  note a = text_ahead_ConsD [OF assms(1)]
  note b = text_ahead_ConsD [OF a(1)]
  note c = text_ahead_ConsD [OF b(1)]
  let ?l = "advance_n False (length xs) (advance (advance (advance l)))"
  have p: "text_ahead ?l = quotes False @ rest" "pos ?l = pos l + 3 + length xs"
    using text_ahead_advance_n [OF c(1)] pos_advance_n_text [OF c(1)] a b c
    by (simp_all add: quotes_simps)
  have "kotlin_content_loop 34 False False ?s l =
      kotlin_content_loop 34 False True ?s (advance (advance (advance l)))"
    using a b c by (subst kotlin_content_loop.simps) simp
  also have "\<dots> = kotlin_content_loop 34 False True ?s ?l"
    using kotlin_content_plain [OF assms(2) c(1)] by simp
  finally have "kotlin_content_loop 34 False False ?s l = kotlin_content_loop 34 False True ?s ?l" .
  then show ?thesis
    using string_content_stops [OF p(1), of ?s] p(2) kotlin_scan_content [OF assms(3-5), of l ?s]
    by (auto simp: string_content_entry) (auto simp: quote_entry_def)
qed

theorem kotlin_escaped_dollar_swallows_witness:
  "\<exists>l'. kotlin_scan [34] (lexer_on ([92, 36, 36] @ codes ''{x}'' @ [34])) (\<lambda>k. k = STRING_CONTENT) =
      Some (True, [34], l') \<and> token_end l' = 6 \<and> result_symbol l' = Some STRING_CONTENT"
  using kotlin_escaped_dollar_swallows [of "lexer_on ([92, 36, 36] @ codes ''{x}'' @ [34])"
      "codes ''{x}''" "[]" "\<lambda>k. k = STRING_CONTENT" "[]"]
  by (simp add: kotlin_plain_def)

text \<open>In a triple quoted string a backslash and a dollar before a quote end the string at that
one quote, although three are needed.\<close>

theorem kotlin_triple_ends_early:
  assumes "text_ahead l = xs @ c_bslash # c_dollar # c_dquote # rest"
    and "list_all kotlin_plain xs"
    and "valid STRING_CONTENT" "\<not> valid AUTOMATIC_SEMICOLON" "\<not> valid IMPORT_LIST_DELIMITER"
  shows "\<exists>l'. kotlin_scan (st @ [35]) l valid = Some (True, st, l') \<and>
    token_end l' = pos l + length xs + 3 \<and> result_symbol l' = Some STRING_END"
proof -
  let ?s = "st @ [quote_entry True]"
  let ?l = "advance_n False (length xs) l"
  have t: "text_ahead ?l = c_bslash # c_dollar # c_dquote # rest" "pos ?l = pos l + length xs"
    using text_ahead_advance_n [OF assms(1)] pos_advance_n_text [OF assms(1)] by simp_all
  note a = text_ahead_ConsD [OF t(1)]
  note b = text_ahead_ConsD [OF a(1)]
  note c = text_ahead_ConsD [OF b(1)]
  let ?m = "set_result STRING_END (mark_end (advance (advance (advance ?l))))"
  have "kotlin_content_loop 34 True h ?s ?l = Some (True, st, ?m)" for h
    using a b c by (subst kotlin_content_loop.simps) (simp add: stack_pop_def)
  then have "kotlin_content_loop 34 True False ?s l = Some (True, st, ?m)"
    using kotlin_content_plain [OF assms(2,1)] by simp
  moreover have "token_end ?m = pos l + length xs + 3" using a b c t(2) by simp
  ultimately show ?thesis
    using kotlin_scan_content [OF assms(3-5), of l ?s st ?m]
    by (simp add: string_content_entry) (simp add: quote_entry_def)
qed

theorem kotlin_triple_ends_early_witness:
  "\<exists>l'. kotlin_scan [35] (lexer_on (codes ''a'' @ [92, 36, 34] @ codes ''b'' @ [34, 34, 34]))
      (\<lambda>k. k = STRING_CONTENT) = Some (True, [], l') \<and> token_end l' = 4 \<and>
    result_symbol l' = Some STRING_END"
  using kotlin_triple_ends_early [of "lexer_on (codes ''a'' @ [92, 36, 34] @ codes ''b'' @ [34, 34, 34])"
      "codes ''a''" "codes ''b'' @ [34, 34, 34]" "\<lambda>k. k = STRING_CONTENT" "[]"]
  by (simp add: kotlin_plain_def)

end
