(* ===== verification/Terraform.thy ===== *)
theory Terraform
  imports Scanner_Interface
begin

text \<open>
  \<^verbatim>\<open>codegraph-kernel/grammars/terraform/scanner.c\<close>: quoted templates, interpolations, directives and
  heredocs of HCL, with a stack of the contexts that are open. The vector macros are lists (the top
  at the end), the \<open>String\<close> of a context the list of its bytes; allocation is not modelled. A read
  beyond the buffer, a context type that is not of the enumeration or a failed \<open>assert\<close> in
  \<open>deserialize\<close> is \<open>None\<close>.
\<close>

section \<open>State\<close>

datatype terraform_token =
    QUOTED_TEMPLATE_START | QUOTED_TEMPLATE_END | TEMPLATE_LITERAL_CHUNK
  | TEMPLATE_INTERPOLATION_START | TEMPLATE_INTERPOLATION_END
  | TEMPLATE_DIRECTIVE_START | TEMPLATE_DIRECTIVE_END | HEREDOC_IDENTIFIER

datatype context_type =
    TEMPLATE_INTERPOLATION | TEMPLATE_DIRECTIVE | QUOTED_TEMPLATE | HEREDOC_TEMPLATE

record tf_context =
  ctype :: context_type
  heredoc_identifier :: "byte list"

record terraform_scanner =
  context_stack :: "tf_context list"

definition char_max :: nat where
  "char_max = 127"

definition string_new :: "byte list" where
  "string_new = []"

definition vec_push :: "tf_context \<Rightarrow> terraform_scanner \<Rightarrow> terraform_scanner" where
  "vec_push ctx s = s\<lparr>context_stack := context_stack s @ [ctx]\<rparr>"

definition vec_pop :: "terraform_scanner \<Rightarrow> terraform_scanner" where
  "vec_pop s = s\<lparr>context_stack := butlast (context_stack s)\<rparr>"

definition vec_back :: "terraform_scanner \<Rightarrow> tf_context" where
  "vec_back s = last (context_stack s)"

definition terraform_create :: terraform_scanner where
  "terraform_create = \<lparr>context_stack = []\<rparr>"

section \<open>Serialization\<close>

text \<open>The type of a context as the value of the C enumeration.\<close>

fun context_code :: "context_type \<Rightarrow> 32 word" where
  "context_code TEMPLATE_INTERPOLATION = 0"
| "context_code TEMPLATE_DIRECTIVE = 1"
| "context_code QUOTED_TEMPLATE = 2"
| "context_code HEREDOC_TEMPLATE = 3"

definition context_of_code :: "32 word \<Rightarrow> context_type option" where
  "context_of_code w =
     (if w = 0 then Some TEMPLATE_INTERPOLATION else if w = 1 then Some TEMPLATE_DIRECTIVE
      else if w = 2 then Some QUOTED_TEMPLATE else if w = 3 then Some HEREDOC_TEMPLATE else None)"

text \<open>The loop of \<open>serialize\<close>, from the offset \<open>sz\<close> on; \<open>None\<close> is its \<open>return 0\<close>.\<close>

fun serialize_contexts :: "nat \<Rightarrow> tf_context list \<Rightarrow> byte list option" where
  "serialize_contexts sz [] = Some []"
| "serialize_contexts sz (ctx # cs) =
     (if sz + 4 + 4 + length (heredoc_identifier ctx) \<ge> serialization_buffer_size then None
      else if length (heredoc_identifier ctx) > char_max then None
      else
        map_option
          (\<lambda>rest. bytes_of_u32 (context_code (ctype ctx)) @
                  bytes_of_u32 (of_nat (length (heredoc_identifier ctx))) @
                  heredoc_identifier ctx @ rest)
          (serialize_contexts (sz + 4 + 4 + length (heredoc_identifier ctx)) cs))"

definition terraform_serialize :: "terraform_scanner \<Rightarrow> byte list" where
  "terraform_serialize s =
     (if length (context_stack s) > char_max then []
      else
        case serialize_contexts 4 (context_stack s) of
          None \<Rightarrow> []
        | Some bs \<Rightarrow> bytes_of_u32 (of_nat (length (context_stack s))) @ bs)"

definition read_u32 :: "byte list \<Rightarrow> (32 word \<times> byte list) option" where
  "read_u32 bs = (if length bs < 4 then None else Some (u32_of_bytes bs, drop 4 bs))"

text \<open>The loop of \<open>deserialize\<close>, with the bytes not yet read.\<close>

fun deserialize_contexts :: "nat \<Rightarrow> byte list \<Rightarrow> (tf_context list \<times> byte list) option" where
  "deserialize_contexts 0 bs = Some ([], bs)"
| "deserialize_contexts (Suc n) bs =
     (case read_u32 bs of None \<Rightarrow> None | Some (w, bs) \<Rightarrow>
        case context_of_code w of None \<Rightarrow> None | Some type \<Rightarrow>
          case read_u32 bs of None \<Rightarrow> None | Some (sz, bs) \<Rightarrow>
            if length bs < unat sz then None
            else
              let identifier = (if sz > 0 then take (unat sz) bs else string_new) in
              case deserialize_contexts n (drop (unat sz) bs) of
                None \<Rightarrow> None
              | Some (cs, bs) \<Rightarrow>
                  Some (\<lparr>ctype = type, heredoc_identifier = identifier\<rparr> # cs, bs))"

definition terraform_deserialize :: "terraform_scanner \<Rightarrow> byte list \<Rightarrow> terraform_scanner option" where
  "terraform_deserialize s buffer =
     (if length buffer = 0 then Some (s\<lparr>context_stack := []\<rparr>)
      else
        case read_u32 buffer of None \<Rightarrow> None | Some (context_stack_size, bs) \<Rightarrow>
          case deserialize_contexts (unat context_stack_size) bs of None \<Rightarrow> None | Some (cs, bs) \<Rightarrow>
            if bs = [] then Some (s\<lparr>context_stack := cs\<rparr>) else None)"

section \<open>Helpers of the scan\<close>

type_synonym terraform_result = "bool \<times> terraform_scanner \<times> terraform_token lexer"

definition accept_inplace ::
  "terraform_scanner \<Rightarrow> terraform_token lexer \<Rightarrow> terraform_token \<Rightarrow> terraform_result" where
  "accept_inplace s l token = (True, s, set_result token l)"

definition accept_and_advance ::
  "terraform_scanner \<Rightarrow> terraform_token lexer \<Rightarrow> terraform_token \<Rightarrow> terraform_result" where
  "accept_and_advance s l token = (let l = advance l in accept_inplace s l token)"

definition consume_wxdigit :: "'k lexer \<Rightarrow> bool \<times> 'k lexer" where
  "consume_wxdigit l = (let l = advance l in (iswxdigit (lookahead l), l))"

text \<open>The loops over the digits of \<open>\u\<close> and \<open>\U\<close>.\<close>

primrec consume_wxdigits :: "nat \<Rightarrow> 'k lexer \<Rightarrow> bool \<times> 'k lexer" where
  "consume_wxdigits 0 l = (True, l)"
| "consume_wxdigits (Suc n) l =
     (let (b, l) = consume_wxdigit l in if b then consume_wxdigits n l else (False, l))"

text \<open>The second loop of \<open>skip_comment\<close>, a function the scan does not use.\<close>

function skip_comment_loop :: "'k lexer \<Rightarrow> bool \<times> 'k lexer" where
  "skip_comment_loop l =
     (if lookahead l = c_nl then (True, l)
      else let l' = skip l in if eof l' then (False, l') else skip_comment_loop l')"
  by pat_completeness auto
termination
proof (relation "measure remaining", goal_cases)
  case (2 l l')
  then have "ahead l \<noteq> []" by (auto simp: eof_def)
  with 2 show ?case by simp
qed simp

declare skip_comment_loop.simps [simp del]

definition skip_comment :: "'k lexer \<Rightarrow> bool \<times> 'k lexer" where
  "skip_comment l =
     (let l = advance_while iswspace True l in
      if lookahead l \<noteq> c_hash then (False, l)
      else let l = skip l in skip_comment_loop l)"

definition in_context_type :: "terraform_scanner \<Rightarrow> context_type \<Rightarrow> bool" where
  "in_context_type s type \<longleftrightarrow> (if length (context_stack s) = 0 then False else ctype (vec_back s) = type)"

definition in_quoted_context :: "terraform_scanner \<Rightarrow> bool" where
  "in_quoted_context s = in_context_type s QUOTED_TEMPLATE"

definition in_heredoc_context :: "terraform_scanner \<Rightarrow> bool" where
  "in_heredoc_context s = in_context_type s HEREDOC_TEMPLATE"

definition in_template_context :: "terraform_scanner \<Rightarrow> bool" where
  "in_template_context s \<longleftrightarrow> in_quoted_context s \<or> in_heredoc_context s"

definition in_interpolation_context :: "terraform_scanner \<Rightarrow> bool" where
  "in_interpolation_context s = in_context_type s TEMPLATE_INTERPOLATION"

definition in_directive_context :: "terraform_scanner \<Rightarrow> bool" where
  "in_directive_context s = in_context_type s TEMPLATE_DIRECTIVE"

section \<open>The scan\<close>

text \<open>The loop over the leading white space.\<close>

function leading_whitespace :: "bool \<Rightarrow> 'k lexer \<Rightarrow> bool \<times> 'k lexer" where
  "leading_whitespace newline l =
     (if iswspace (lookahead l)
      then leading_whitespace (if lookahead l = c_nl then True else newline) (skip l)
      else (newline, l))"
  by pat_completeness auto
termination
proof (relation "measure (\<lambda>(_, l). remaining l)", goal_cases)
  case (2 newline l)
  then have "lookahead l \<noteq> 0" by auto
  then show ?case by simp
qed simp

declare leading_whitespace.simps [simp del]

text \<open>The loop that reads the identifier of a heredoc; \<open>STRING_PUSH\<close> narrows to \<open>char\<close>.\<close>

definition identifier_char :: "code_point \<Rightarrow> bool" where
  "identifier_char c \<longleftrightarrow> iswalnum c \<or> c = c_underscore \<or> c = c_minus"

function read_identifier :: "byte list \<Rightarrow> 'k lexer \<Rightarrow> byte list \<times> 'k lexer" where
  "read_identifier identifier l =
     (if identifier_char (lookahead l)
      then read_identifier (identifier @ [to_char (lookahead l)]) (advance l)
      else (identifier, l))"
  by pat_completeness auto
termination
proof (relation "measure (\<lambda>(_, l). remaining l)", goal_cases)
  case (2 i l)
  then have "lookahead l \<noteq> 0" by (auto simp: identifier_char_def)
  then show ?case by simp
qed simp

declare read_identifier.simps [simp del]

text \<open>The loop that compares with the identifier of the open heredoc.\<close>

primrec match_identifier :: "byte list \<Rightarrow> 'k lexer \<Rightarrow> bool \<times> 'k lexer" where
  "match_identifier [] l = (True, l)"
| "match_identifier (c # cs) l =
     (if lookahead l = char_val c then match_identifier cs (advance l) else (False, l))"

text \<open>A line of a heredoc that may be its end.\<close>

definition scan_heredoc_end :: "terraform_scanner \<Rightarrow> terraform_token lexer \<Rightarrow> terraform_result" where
  "scan_heredoc_end s l =
     (let (b, l) = match_identifier (heredoc_identifier (vec_back s)) l in
      if \<not> b then accept_inplace s l TEMPLATE_LITERAL_CHUNK
      else
        let l = mark_end l;
            l = advance_while (\<lambda>c. iswspace c \<and> c \<noteq> c_nl) False l in
        if lookahead l = c_nl then accept_inplace (vec_pop s) l HEREDOC_IDENTIFIER
        else
          let l = mark_end (advance l) in accept_inplace s l TEMPLATE_LITERAL_CHUNK)"

text \<open>An escape sequence of a quoted template, at its backslash.\<close>

definition scan_escape :: "terraform_scanner \<Rightarrow> terraform_token lexer \<Rightarrow> terraform_result" where
  "scan_escape s l =
     (let l = advance l in
      if lookahead l \<in> {c_dquote, c_n, c_r, c_t, c_bslash}
      then accept_and_advance s l TEMPLATE_LITERAL_CHUNK
      else if lookahead l = c_u then
        let (b, l) = consume_wxdigits 4 l in
        if b then accept_and_advance s l TEMPLATE_LITERAL_CHUNK else (False, s, l)
      else if lookahead l = c_upper_U then
        let (b, l) = consume_wxdigits 8 l in
        if b then accept_and_advance s l TEMPLATE_LITERAL_CHUNK else (False, s, l)
      else (False, s, l))"

text \<open>A dollar or a percent sign \<open>c\<close> of a template: the start of \<open>type\<close>, or text.\<close>

definition scan_template_start ::
  "code_point \<Rightarrow> context_type \<Rightarrow> terraform_token \<Rightarrow> terraform_scanner \<Rightarrow> terraform_token lexer \<Rightarrow>
   terraform_result" where
  "scan_template_start c type token s l =
     (let l = advance l in
      if lookahead l = c_lbrace then
        accept_and_advance (vec_push \<lparr>ctype = type, heredoc_identifier = string_new\<rparr> s) l token
      else if lookahead l = c then
        let l = advance l in
        if lookahead l = c_lbrace then accept_and_advance s l TEMPLATE_LITERAL_CHUNK
        else accept_inplace s l TEMPLATE_LITERAL_CHUNK
      else accept_inplace s l TEMPLATE_LITERAL_CHUNK)"

definition terraform_scan ::
  "terraform_scanner \<Rightarrow> terraform_token lexer \<Rightarrow> (terraform_token \<Rightarrow> bool) \<Rightarrow> terraform_result" where
  "terraform_scan s l valid =
     (let (has_leading_whitespace_with_newline, l) = leading_whitespace False l in
      if lookahead l = 0 then (False, s, l)
      else if valid QUOTED_TEMPLATE_START \<and> \<not> in_quoted_context s \<and> lookahead l = c_dquote then
        accept_and_advance (vec_push \<lparr>ctype = QUOTED_TEMPLATE, heredoc_identifier = string_new\<rparr> s) l
          QUOTED_TEMPLATE_START
      else if valid QUOTED_TEMPLATE_END \<and> in_quoted_context s \<and> lookahead l = c_dquote then
        accept_and_advance (vec_pop s) l QUOTED_TEMPLATE_END
      else if valid TEMPLATE_INTERPOLATION_START \<and> valid TEMPLATE_LITERAL_CHUNK \<and>
              \<not> in_interpolation_context s \<and> lookahead l = c_dollar then
        scan_template_start c_dollar TEMPLATE_INTERPOLATION TEMPLATE_INTERPOLATION_START s l
      else if valid TEMPLATE_INTERPOLATION_END \<and> in_interpolation_context s \<and> lookahead l = c_rbrace
      then accept_and_advance (vec_pop s) l TEMPLATE_INTERPOLATION_END
      else if valid TEMPLATE_DIRECTIVE_START \<and> valid TEMPLATE_LITERAL_CHUNK \<and>
              \<not> in_directive_context s \<and> lookahead l = c_percent then
        scan_template_start c_percent TEMPLATE_DIRECTIVE TEMPLATE_DIRECTIVE_START s l
      else if valid TEMPLATE_DIRECTIVE_END \<and> in_directive_context s \<and> lookahead l = c_rbrace
      then accept_and_advance (vec_pop s) l TEMPLATE_DIRECTIVE_END
      else if valid HEREDOC_IDENTIFIER \<and> \<not> in_heredoc_context s then
        let (identifier, l) = read_identifier string_new l in
        accept_inplace (vec_push \<lparr>ctype = HEREDOC_TEMPLATE, heredoc_identifier = identifier\<rparr> s) l
          HEREDOC_IDENTIFIER
      else if valid HEREDOC_IDENTIFIER \<and> in_heredoc_context s \<and> has_leading_whitespace_with_newline
      then scan_heredoc_end s l
      else if valid TEMPLATE_LITERAL_CHUNK \<and> in_quoted_context s \<and> lookahead l = c_bslash
      then scan_escape s l
      else if valid TEMPLATE_LITERAL_CHUNK \<and> in_template_context s
      then accept_and_advance s l TEMPLATE_LITERAL_CHUNK
      else (False, s, l))"

definition terraform_scan_fun :: "(terraform_scanner, terraform_token) scan_fun" where
  "terraform_scan_fun s l valid = Some (terraform_scan s l valid)"

section \<open>The cursor\<close>

lemma fwd3_accept [runs_rules]:
  "runs l0 l \<Longrightarrow> fwd3 l0 (accept_inplace s l k)" "runs l0 l \<Longrightarrow> fwd3 l0 (accept_and_advance s l k)"
  by (simp_all add: accept_inplace_def accept_and_advance_def fwd3_def)

lemma fwd_consume_wxdigits [runs_rules]: "runs l0 l \<Longrightarrow> fwd l0 (consume_wxdigits n l)"
  by (induction n arbitrary: l) (auto simp: consume_wxdigit_def Let_def intro!: runs_rules)

lemma fwd_leading_whitespace [runs_rules]: "runs l0 l \<Longrightarrow> fwd l0 (leading_whitespace nl l)"
proof (induction nl l rule: leading_whitespace.induct)
  case (1 nl l)
  then show ?case by (subst leading_whitespace.simps) (auto intro!: runs_rules)
qed

lemma fwd_read_identifier [runs_rules]: "runs l0 l \<Longrightarrow> fwd l0 (read_identifier i l)"
proof (induction i l rule: read_identifier.induct)
  case (1 i l)
  then show ?case by (subst read_identifier.simps) (auto intro!: runs_rules)
qed

lemma fwd_match_identifier [runs_rules]: "runs l0 l \<Longrightarrow> fwd l0 (match_identifier i l)"
  by (induction i arbitrary: l) (auto intro!: runs_rules)

lemma fwd_skip_comment: "runs l0 l \<Longrightarrow> fwd l0 (skip_comment l)"
proof -
  have "runs l0 l \<Longrightarrow> fwd l0 (skip_comment_loop l)" for l :: "'a lexer"
  proof (induction l rule: skip_comment_loop.induct)
    case (1 l)
    then show ?case by (subst skip_comment_loop.simps) (auto simp: Let_def intro!: runs_rules)
  qed
  then show "runs l0 l \<Longrightarrow> fwd l0 (skip_comment l)"
    unfolding skip_comment_def by (intro runs_rules) 
qed

lemma fwd3_terraform_parts [runs_rules]:
  "runs l0 l \<Longrightarrow> fwd3 l0 (scan_heredoc_end s l)" "runs l0 l \<Longrightarrow> fwd3 l0 (scan_escape s l)"
  "runs l0 l \<Longrightarrow> fwd3 l0 (scan_template_start c type k s l)"
  unfolding scan_heredoc_end_def scan_escape_def scan_template_start_def
  by (intro runs_rules; assumption?)+

lemma fwd3_terraform_scan: "runs l0 l \<Longrightarrow> fwd3 l0 (terraform_scan s l valid)"
  unfolding terraform_scan_def by (intro runs_rules)

section \<open>What can be stored\<close>

definition stored_length :: "tf_context list \<Rightarrow> nat" where
  "stored_length cs = (\<Sum>c\<leftarrow>cs. 8 + length (heredoc_identifier c))"

definition terraform_storable :: "terraform_scanner \<Rightarrow> bool" where
  "terraform_storable s \<longleftrightarrow>
     length (context_stack s) \<le> char_max \<and>
     list_all (\<lambda>c. length (heredoc_identifier c) \<le> char_max) (context_stack s) \<and>
     4 + stored_length (context_stack s) < serialization_buffer_size"

lemma serialize_contexts_defined:
  assumes "n < serialization_buffer_size"
  shows "serialize_contexts n cs \<noteq> None \<longleftrightarrow>
    list_all (\<lambda>c. length (heredoc_identifier c) \<le> char_max) cs \<and>
    n + stored_length cs < serialization_buffer_size"
  using assms
proof (induction n cs rule: serialize_contexts.induct)
  case (2 n c cs)
  then show ?case by (auto simp: stored_length_def)
qed (simp add: stored_length_def)

lemma serialize_contexts_length:
  "serialize_contexts n cs = Some bs \<Longrightarrow> length bs = stored_length cs"
  by (induction n cs arbitrary: bs rule: serialize_contexts.induct)
    (auto simp: stored_length_def split: if_splits)

lemma context_of_code [simp]: "context_of_code (context_code t) = Some t"
  by (cases t) (simp_all add: context_of_code_def)

lemma read_u32_bytes [simp]: "read_u32 (bytes_of_u32 w @ bs) = Some (w, bs)"
  by (simp add: read_u32_def)

lemma unat_small [simp]: "n \<le> char_max \<Longrightarrow> unat (of_nat n :: 32 word) = n"
  by (simp add: char_max_def unat_of_nat)

lemma deserialize_contexts_serialize:
  "serialize_contexts n cs = Some bs \<Longrightarrow>
    deserialize_contexts (length cs) (bs @ rest) = Some (cs, rest)"
proof (induction n cs arbitrary: bs rule: serialize_contexts.induct)
  case (2 n c cs)
  then obtain bs' where len: "length (heredoc_identifier c) \<le> char_max"
    and bs': "serialize_contexts (n + 4 + 4 + length (heredoc_identifier c)) cs = Some bs'"
    and bs: "bs = bytes_of_u32 (context_code (ctype c)) @
      bytes_of_u32 (of_nat (length (heredoc_identifier c))) @ heredoc_identifier c @ bs'"
    by (auto split: if_splits)
  have IH: "deserialize_contexts (length cs) (bs' @ rest) = Some (cs, rest)"
    by (rule "2.IH" [OF _ _ bs']) (use "2.prems" len in \<open>auto split: if_splits\<close>)
  from len have "\<not> 0 < (of_nat (length (heredoc_identifier c)) :: 32 word) \<Longrightarrow>
      string_new = heredoc_identifier c"
    by (auto simp: string_new_def word_gt_0 dest: arg_cong [of _ _ unat])
  with len IH show ?case by (simp add: bs)
qed simp

text \<open>The parser passes to \<open>deserialize\<close> only what \<open>serialize\<close> wrote.\<close>

definition terraform_restore :: "terraform_scanner \<Rightarrow> byte list \<Rightarrow> terraform_scanner" where
  "terraform_restore s bs = (case terraform_deserialize s bs of None \<Rightarrow> s | Some s' \<Rightarrow> s')"

lemma terraform_stored:
  assumes "terraform_storable s"
  obtains bs where "serialize_contexts 4 (context_stack s) = Some bs"
    and "terraform_serialize s = bytes_of_u32 (of_nat (length (context_stack s))) @ bs"
proof -
  have "serialize_contexts 4 (context_stack s) \<noteq> None"
    using assms by (subst serialize_contexts_defined)
      (simp_all add: terraform_storable_def serialization_buffer_size_def)
  with that assms show thesis
    by (auto simp: terraform_serialize_def terraform_storable_def)
qed

lemma terraform_deserialize_serialize:
  assumes "terraform_storable s"
  shows "terraform_deserialize t (terraform_serialize s) = Some s"
proof -
  obtain bs where bs: "serialize_contexts 4 (context_stack s) = Some bs"
    "terraform_serialize s = bytes_of_u32 (of_nat (length (context_stack s))) @ bs"
    using terraform_stored [OF assms] by blast
  show ?thesis
    using assms deserialize_contexts_serialize [OF bs(1), of "[]"]
    by (simp add: terraform_deserialize_def bs(2) terraform_storable_def)
qed

lemma terraform_serialize_length:
  "terraform_storable s \<Longrightarrow>
    length (terraform_serialize s) = 4 + stored_length (context_stack s)"
  by (elim terraform_stored) (simp add: serialize_contexts_length)

lemma terraform_serialize_overflow: "\<not> terraform_storable s \<Longrightarrow> terraform_serialize s = []"
  using serialize_contexts_defined [of 4 "context_stack s"]
  by (auto simp: terraform_serialize_def terraform_storable_def serialization_buffer_size_def)

interpretation terraform: storing_scanner terraform_create terraform_storable terraform_serialize
  terraform_restore terraform_scan_fun
proof unfold_locales
  show "terraform_storable terraform_create"
    by (simp add: terraform_storable_def terraform_create_def stored_length_def
        serialization_buffer_size_def)
  fix s t :: terraform_scanner
  assume s: "terraform_storable s"
  then show "length (terraform_serialize s) \<le> serialization_buffer_size"
    by (simp add: terraform_serialize_length) (simp add: terraform_storable_def)
  from s show "terraform_restore t (terraform_serialize s) = s"
    by (simp add: terraform_restore_def terraform_deserialize_serialize)
next
  fix s l v ok s' l'
  assume "terraform_scan_fun s l v = Some (ok, s', l')"
  then show "runs l l'"
    using fwd3_terraform_scan [OF runs_refl, of l s v] by (simp add: terraform_scan_fun_def fwd3D)
qed

section \<open>What a scan does to the contexts\<close>

text \<open>The change of the stack that goes with a token.\<close>

definition opens :: "context_type \<Rightarrow> terraform_scanner \<Rightarrow> terraform_scanner \<Rightarrow> bool" where
  "opens type s s' \<longleftrightarrow> \<not> in_context_type s type \<and>
     (\<exists>i. s' = vec_push \<lparr>ctype = type, heredoc_identifier = i\<rparr> s \<and> (type \<noteq> HEREDOC_TEMPLATE \<longrightarrow> i = []))"

definition closes :: "context_type \<Rightarrow> terraform_scanner \<Rightarrow> terraform_scanner \<Rightarrow> bool" where
  "closes type s s' \<longleftrightarrow> in_context_type s type \<and> s' = vec_pop s"

fun context_step :: "terraform_token \<Rightarrow> terraform_scanner \<Rightarrow> terraform_scanner \<Rightarrow> bool" where
  "context_step QUOTED_TEMPLATE_START = opens QUOTED_TEMPLATE"
| "context_step QUOTED_TEMPLATE_END = closes QUOTED_TEMPLATE"
| "context_step TEMPLATE_INTERPOLATION_START = opens TEMPLATE_INTERPOLATION"
| "context_step TEMPLATE_INTERPOLATION_END = closes TEMPLATE_INTERPOLATION"
| "context_step TEMPLATE_DIRECTIVE_START = opens TEMPLATE_DIRECTIVE"
| "context_step TEMPLATE_DIRECTIVE_END = closes TEMPLATE_DIRECTIVE"
| "context_step HEREDOC_IDENTIFIER =
     (\<lambda>s s'. opens HEREDOC_TEMPLATE s s' \<or> closes HEREDOC_TEMPLATE s s')"
| "context_step TEMPLATE_LITERAL_CHUNK = (=)"

definition tf_answer ::
  "(terraform_token \<Rightarrow> bool) \<Rightarrow> terraform_scanner \<Rightarrow> terraform_result \<Rightarrow> bool" where
  "tf_answer V s r \<longleftrightarrow> (if fst r
     then \<exists>k. result_symbol (snd (snd r)) = Some k \<and> V k \<and> context_step k s (fst (snd r))
     else fst (snd r) = s)"

lemma tf_answer_accept [simp]:
  "tf_answer V s (accept_inplace s' l k) \<longleftrightarrow> V k \<and> context_step k s s'"
  "tf_answer V s (accept_and_advance s' l k) \<longleftrightarrow> V k \<and> context_step k s s'"
  "tf_answer V s (False, s', l) \<longleftrightarrow> s' = s"
  by (auto simp: tf_answer_def accept_inplace_def accept_and_advance_def Let_def)

lemma tf_answer_parts:
  "in_heredoc_context s \<Longrightarrow> V HEREDOC_IDENTIFIER \<Longrightarrow> V TEMPLATE_LITERAL_CHUNK \<Longrightarrow>
    tf_answer V s (scan_heredoc_end s l)"
  "V TEMPLATE_LITERAL_CHUNK \<Longrightarrow> tf_answer V s (scan_escape s l)"
  "V TEMPLATE_LITERAL_CHUNK \<Longrightarrow> V k \<Longrightarrow> (\<And>i. context_step k s (vec_push \<lparr>ctype = type, heredoc_identifier = []\<rparr> s)) \<Longrightarrow>
    tf_answer V s (scan_template_start c type k s l)"
  by (simp_all add: scan_heredoc_end_def scan_escape_def scan_template_start_def Let_def split_beta
      closes_def in_heredoc_context_def string_new_def)

lemma opens_push [simp]:
  "\<not> in_context_type s type \<Longrightarrow> type = HEREDOC_TEMPLATE \<or> i = [] \<Longrightarrow>
    opens type s (vec_push \<lparr>ctype = type, heredoc_identifier = i\<rparr> s)"
  by (auto simp: opens_def)

lemma tf_answer_rules:
  "(c \<Longrightarrow> tf_answer V s x) \<Longrightarrow> (\<not> c \<Longrightarrow> tf_answer V s y) \<Longrightarrow> tf_answer V s (if c then x else y)"
  "(\<And>a l. tf_answer V s (f a l)) \<Longrightarrow> tf_answer V s (let (a, l) = p in f a l)"
  by (simp_all split: prod.split)

lemma terraform_scan_answer:
  assumes "\<And>k. valid k \<Longrightarrow> V k" and "valid HEREDOC_IDENTIFIER \<Longrightarrow> V TEMPLATE_LITERAL_CHUNK"
  shows "tf_answer V s (terraform_scan s l valid)"
  unfolding terraform_scan_def
  by (intro tf_answer_rules tf_answer_parts)
    (simp_all add: assms closes_def in_quoted_context_def in_heredoc_context_def
      in_interpolation_context_def in_directive_context_def string_new_def)

section \<open>Runs of characters\<close>

lemma leading_whitespace_run:
  "leading_whitespace nl l =
    (nl \<or> c_nl \<in> set (takeWhile iswspace (text_ahead l)), advance_while iswspace True l)"
proof (induction nl l rule: leading_whitespace.induct)
  case (1 nl l)
  show ?case
  proof (cases "iswspace (lookahead l)")
    case True
    then have "text_ahead l = lookahead l # text_ahead (skip l)" and "\<not> eof l"
      using text_ahead_nonzero [of l True] lookahead_nonzero [of l] by fastforce+
    with True 1 show ?thesis
      by (subst leading_whitespace.simps, subst advance_while.simps) auto
  next
    case False
    then have "takeWhile iswspace (text_ahead l) = []"
      by (cases "ahead l") (simp_all add: lookahead_def)
    with False show ?thesis
      by (subst leading_whitespace.simps, subst advance_while.simps) simp
  qed
qed

lemma read_identifier_run:
  "read_identifier i l = (i @ List.map to_char (takeWhile identifier_char (text_ahead l)),
    advance_while identifier_char False l)"
proof (induction i l rule: read_identifier.induct)
  case (1 i l)
  show ?case
  proof (cases "identifier_char (lookahead l)")
    case True
    then have "lookahead l \<noteq> 0" by (auto simp: identifier_char_def)
    then have "text_ahead l = lookahead l # text_ahead (advance l)" and "\<not> eof l"
      using text_ahead_nonzero lookahead_nonzero by blast+
    with True 1 show ?thesis
      by (subst read_identifier.simps, subst advance_while.simps) simp
  next
    case False
    then have "takeWhile identifier_char (text_ahead l) = []"
      by (cases "ahead l") (simp_all add: lookahead_def)
    with False show ?thesis
      by (subst read_identifier.simps, subst advance_while.simps) simp
  qed
qed

lemma identifier_char_ascii: "identifier_char c \<Longrightarrow> char_val (to_char c) = c"
  by (rule char_val_to_char)
    (auto simp: identifier_char_def iswalnum_def iswalpha_def iswdigit_def)

lemma match_identifier_text:
  "list_all identifier_char i \<Longrightarrow> text_ahead l = i @ cs \<Longrightarrow>
    match_identifier (List.map to_char i) l = (True, advance_n False (length i) l)"
proof (induction i arbitrary: l)
  case (Cons c i)
  from Cons.prems(2) have "text_ahead l = c # i @ cs" by simp
  note c = text_ahead_ConsD [OF this]
  show ?case
    using Cons.IH [of "advance l"] Cons.prems(1) c
    by (simp add: identifier_char_ascii advance_n_Suc)
qed simp

lemma leading_whitespace_text:
  assumes "text_ahead l = ws @ c # cs" and "list_all iswspace ws" and "\<not> iswspace c"
  shows "leading_whitespace False l = (c_nl \<in> set ws, advance_n True (length ws) l)"
proof -
  have "takeWhile iswspace (text_ahead l) = ws"
    unfolding assms(1) using assms(2,3) by (simp add: takeWhile_append2 list_all_iff)
  moreover have "advance_while iswspace True l = advance_n True (length ws) l"
    by (rule advance_while_run [OF assms(1,2)]) (simp add: assms(3))
  ultimately show ?thesis by (simp add: leading_whitespace_run)
qed

lemma read_identifier_text:
  assumes "text_ahead l = i @ cs" and "list_all identifier_char i"
    and "cs = [] \<or> \<not> identifier_char (hd cs)"
  shows "read_identifier [] l = (List.map to_char i, advance_n False (length i) l)"
proof -
  have "takeWhile identifier_char (text_ahead l) = i"
    unfolding assms(1) using assms(2,3) by (cases cs) (simp_all add: takeWhile_append2 list_all_iff)
  moreover have "advance_while identifier_char False l = advance_n False (length i) l"
    by (rule advance_while_run [OF assms])
  ultimately show ?thesis by (simp add: read_identifier_run)
qed

lemma identifier_char_other:
  "identifier_char c \<Longrightarrow> c \<notin> {0, c_dquote, c_dollar, c_percent, c_rbrace, c_bslash} \<and> \<not> iswspace c"
  by (auto simp: identifier_char_def iswalnum_def iswalpha_def iswdigit_def iswspace_def)

lemma at_identifier:
  assumes "text_ahead l = ws @ i @ cs" and "list_all iswspace ws" and "list_all identifier_char i"
    and "i \<noteq> []" and "m = advance_n True (length ws) l"
  shows "leading_whitespace False l = (c_nl \<in> set ws, m)" and "text_ahead m = i @ cs"
    and "identifier_char (lookahead m)" and "pos m = pos l + length ws"
proof -
  obtain c i' where i: "i = c # i'" using assms(4) by (cases i) auto
  then have c: "identifier_char c" using assms(3) by simp
  show "leading_whitespace False l = (c_nl \<in> set ws, m)"
    unfolding assms(5)
    by (rule leading_whitespace_text [where c = c and cs = "i' @ cs"])
      (use assms i identifier_char_other [OF c] in simp_all)
  show t: "text_ahead m = i @ cs"
    unfolding assms(5) using text_ahead_advance_n [OF assms(1)] .
  then show "identifier_char (lookahead m)"
    unfolding lookahead_text t using c i by simp
  show "pos m = pos l + length ws"
    unfolding assms(5) using pos_advance_n_text [OF assms(1)] .
qed

lemma heredoc_opens:
  assumes "text_ahead l = ws @ i @ cs" and "list_all iswspace ws" and "list_all identifier_char i"
    and "i \<noteq> []" and "cs = [] \<or> \<not> identifier_char (hd cs)"
    and "\<not> in_heredoc_context s" and "valid HEREDOC_IDENTIFIER"
  shows "terraform_scan s l valid =
    (True, vec_push \<lparr>ctype = HEREDOC_TEMPLATE, heredoc_identifier = List.map to_char i\<rparr> s,
     set_result HEREDOC_IDENTIFIER (advance_n False (length i) (advance_n True (length ws) l)))"
proof -
  note m = at_identifier [OF assms(1-4) refl]
  from identifier_char_other [OF m(3)] assms(6,7) show ?thesis
    by (simp add: terraform_scan_def m(1) read_identifier_text [OF m(2) assms(3,5)]
        accept_inplace_def string_new_def)
qed

lemma heredoc_closes:
  assumes "text_ahead l = ws @ i @ blanks @ c_nl # rest" and "list_all iswspace ws"
    and "list_all identifier_char i" and "i \<noteq> []" and "c_nl \<in> set ws"
    and "list_all (\<lambda>c. iswspace c \<and> c \<noteq> c_nl) blanks" and "in_heredoc_context s"
    and "heredoc_identifier (vec_back s) = List.map to_char i" and "valid HEREDOC_IDENTIFIER"
  shows "\<exists>l'. terraform_scan s l valid = (True, vec_pop s, l') \<and>
    token_end l' = pos l + length ws + length i \<and> result_symbol l' = Some HEREDOC_IDENTIFIER"
proof -
  define m where "m = advance_n True (length ws) l"
  define q where "q = advance_n False (length i) m"
  note m = at_identifier [OF assms(1-4) m_def]
  have q: "text_ahead (mark_end q) = blanks @ c_nl # rest" "pos q = pos l + length ws + length i"
    unfolding q_def
    using text_ahead_advance_n [OF m(2)] pos_advance_n_text [OF m(2)] m(4) by simp_all
  have run: "advance_while (\<lambda>c. iswspace c \<and> c \<noteq> c_nl) False (mark_end q) =
      advance_n False (length blanks) (mark_end q)"
    by (rule advance_while_run [OF q(1) assms(6)]) simp
  have "lookahead (advance_n False (length blanks) (mark_end q)) = c_nl"
    using text_ahead_advance_n [OF q(1)] by (rule lookahead_Cons)
  then have "scan_heredoc_end s m = (True, vec_pop s,
      set_result HEREDOC_IDENTIFIER (advance_n False (length blanks) (mark_end q)))"
    using match_identifier_text [OF assms(3) m(2)]
    by (simp add: scan_heredoc_end_def assms(8) q_def [symmetric] run accept_inplace_def Let_def)
  moreover have "\<not> in_quoted_context s" "\<not> in_interpolation_context s" "\<not> in_directive_context s"
    using assms(7) by (simp_all add: in_context_type_def in_quoted_context_def in_heredoc_context_def
        in_interpolation_context_def in_directive_context_def)
  ultimately have "terraform_scan s l valid = (True, vec_pop s,
      set_result HEREDOC_IDENTIFIER (advance_n False (length blanks) (mark_end q)))"
    using identifier_char_other [OF m(3)] assms(5,7,9) by (simp add: terraform_scan_def m(1))
  with q(2) show ?thesis by simp
qed

section \<open>Properties\<close>

text \<open>C26. The contexts survive the buffer exactly when they fit: a state of at most 127 contexts with
identifiers of at most 127 bytes whose encoding is shorter than the buffer is restored as it was; for
every other state nothing is written, and restoring it gives no open context at all.\<close>

theorem terraform_roundtrip:
  "if terraform_storable s
   then length (terraform_serialize s) < serialization_buffer_size \<and>
        terraform_deserialize t (terraform_serialize s) = Some s
   else terraform_serialize s = [] \<and>
        terraform_deserialize t (terraform_serialize s) = Some terraform_create"
proof (cases "terraform_storable s")
  case True
  then show ?thesis
    by (simp add: terraform_deserialize_serialize terraform_serialize_length)
      (simp add: terraform_storable_def)
next
  case False
  then show ?thesis
    by (simp add: terraform_serialize_overflow terraform_deserialize_def terraform_create_def)
qed

text \<open>C6. The stack of contexts follows the tokens: the start of a quoted template, interpolation,
directive or heredoc pushes its context and is reported only where that context is not on top, the end
pops the context that is on top, a piece of text changes nothing, and a failed scan leaves the stack as
it was. The token is a valid one, or text where the end of a heredoc was tried.\<close>

theorem terraform_context_protocol:
  "case terraform_scan s l valid of
     (False, s', l') \<Rightarrow> s' = s
   | (True, s', l') \<Rightarrow> \<exists>k. result_symbol l' = Some k \<and> context_step k s s' \<and>
       (valid k \<or> k = TEMPLATE_LITERAL_CHUNK \<and> valid HEREDOC_IDENTIFIER)"
  using terraform_scan_answer [of valid "\<lambda>k. valid k \<or> k = TEMPLATE_LITERAL_CHUNK \<and> valid HEREDOC_IDENTIFIER" s l]
  by (auto simp: tf_answer_def split: prod.splits bool.splits)

text \<open>As long as every state fits into the buffer, a parse that stores and restores the contexts
around every token gives the same answers as one that keeps them.\<close>

theorem terraform_session:
  assumes "session_fits terraform_storable terraform_scan_fun terraform_create rs"
  shows "session_saved terraform_scan_fun terraform_serialize terraform_restore s
      (terraform_serialize terraform_create) rs =
    session_direct terraform_scan_fun terraform_create rs"
  using assms by (rule terraform.session_saved_fits)

theorem terraform_session_witness:
  "session_saved terraform_scan_fun terraform_serialize terraform_restore terraform_create
      (terraform_serialize terraform_create) [(lexer_on [], \<lambda>k. True)] =
    session_direct terraform_scan_fun terraform_create [(lexer_on [], \<lambda>k. True)]"
proof (rule terraform_session)
  have "\<exists>l'. terraform_scan terraform_create (lexer_on []) (\<lambda>k. True) = (False, terraform_create, l')"
    by (simp add: terraform_scan_def leading_whitespace_run lookahead_text split_beta
        ahead_advance_while Let_def lexer_on_def start_lexer_def)
  then show "session_fits terraform_storable terraform_scan_fun terraform_create
      [(lexer_on [], \<lambda>k. True)]"
    by (auto simp: terraform_scan_fun_def terraform.storable_create)
qed

text \<open>C27. A heredoc ends at its own identifier: the identifier read at the start is pushed, and on a
later line that holds nothing else but white space and this identifier, up to a line feed, the scan
reports the identifier, ending behind it, and pops the heredoc.\<close>

theorem terraform_heredoc:
  assumes "List.map cp cs = i @ body @ ws @ i @ blanks @ c_nl # rest"
    and "list_all identifier_char i" and "i \<noteq> []"
    and "body \<noteq> []" and "\<not> identifier_char (hd body)"
    and "list_all iswspace ws" and "c_nl \<in> set ws"
    and "list_all (\<lambda>c. iswspace c \<and> c \<noteq> c_nl) blanks"
    and "\<not> in_heredoc_context s" and "valid HEREDOC_IDENTIFIER"
    and "n = length i + length body + length ws"
  shows "\<exists>s1 l1 l2.
    terraform_scan s (lexer_at cs e 0) valid = (True, s1, l1) \<and>
    token_end l1 = length i \<and> result_symbol l1 = Some HEREDOC_IDENTIFIER \<and>
    s1 = vec_push \<lparr>ctype = HEREDOC_TEMPLATE, heredoc_identifier = List.map to_char i\<rparr> s \<and>
    terraform_scan s1 (lexer_at cs e (length i + length body)) valid = (True, s, l2) \<and>
    token_end l2 = n + length i \<and> result_symbol l2 = Some HEREDOC_IDENTIFIER"
proof -
  define s1 where
    "s1 = vec_push \<lparr>ctype = HEREDOC_TEMPLATE, heredoc_identifier = List.map to_char i\<rparr> s"
  let ?l = "lexer_at cs e 0 :: terraform_token lexer"
  let ?m = "lexer_at cs e (length i + length body) :: terraform_token lexer"
  have l: "text_ahead ?l = [] @ i @ (body @ ws @ i @ blanks @ c_nl # rest)"
    and m: "text_ahead ?m = ws @ i @ blanks @ c_nl # rest"
    using assms(1) by (simp_all add: drop_map [symmetric])
  have first: "terraform_scan s ?l valid =
      (True, s1, set_result HEREDOC_IDENTIFIER (advance_n False (length i) ?l))"
    using heredoc_opens [OF l] assms(2-5,9,10) by (simp add: s1_def)
  have s1: "in_heredoc_context s1" "heredoc_identifier (vec_back s1) = List.map to_char i"
    "vec_pop s1 = s"
    by (simp_all add: s1_def in_heredoc_context_def in_context_type_def vec_push_def vec_back_def
        vec_pop_def)
  obtain l2 where "terraform_scan s1 ?m valid = (True, s, l2)"
    "token_end l2 = n + length i" "result_symbol l2 = Some HEREDOC_IDENTIFIER"
    using heredoc_closes [OF m assms(6,2,3,7,8) s1(1,2), of valid] s1(3) assms(10,11) by auto
  moreover have "pos (advance_n False (length i) ?l) = length i"
    using pos_advance_n_text [of ?l i] l by simp
  ultimately show ?thesis
    using first by (auto simp: s1_def token_end_def)
qed

theorem terraform_heredoc_witness:
  "\<exists>s1 l1 l2.
    terraform_scan terraform_create
      (lexer_at (cells_of 0 (codes ''EOT'' @ codes '' x'' @ [10, 32] @ codes ''EOT'' @ [32, 10])) end_cell 0)
      (\<lambda>k. k = HEREDOC_IDENTIFIER) = (True, s1, l1) \<and> token_end l1 = 3 \<and>
    terraform_scan s1
      (lexer_at (cells_of 0 (codes ''EOT'' @ codes '' x'' @ [10, 32] @ codes ''EOT'' @ [32, 10])) end_cell 5)
      (\<lambda>k. k = HEREDOC_IDENTIFIER) = (True, terraform_create, l2) \<and> token_end l2 = 10"
proof -
  have "\<not> in_heredoc_context terraform_create"
    by (simp add: in_heredoc_context_def in_context_type_def terraform_create_def)
  then show ?thesis
    using terraform_heredoc [of
        "cells_of 0 (codes ''EOT'' @ codes '' x'' @ [10, 32] @ codes ''EOT'' @ [32, 10])"
        "codes ''EOT''" "codes '' x''" "[10, 32]" "[32]" "[]" terraform_create
        "\<lambda>k. k = HEREDOC_IDENTIFIER" 7 end_cell]
    by (auto simp: identifier_char_def iswalnum_def iswalpha_def iswdigit_def iswspace_def
        eval_nat_numeral simp del: cells_of.simps)
qed

end
