(* ===== verification/Vbnet.thy ===== *)
theory Vbnet
  imports Scanner_Interface
begin

text \<open>
  \<^verbatim>\<open>codegraph-kernel/grammars/vbnet/scanner.c\<close>: the line break that continues a LINQ query, and XML
  literals as one token. The scanner keeps no state. The counters are C \<open>int\<close>s that never exceed
  the length of the input; they are \<open>int\<close> or \<open>nat\<close> here.
\<close>

section \<open>Query continuations\<close>

datatype vbnet_token = QUERY_CLAUSE_CONTINUATION | XML_LITERAL

definition vbnet_create :: unit where
  "vbnet_create = ()"

definition vbnet_serialize :: "unit \<Rightarrow> byte list" where
  "vbnet_serialize p = []"

definition vbnet_deserialize :: "unit \<Rightarrow> byte list \<Rightarrow> unit" where
  "vbnet_deserialize p b = ()"

text \<open>
  \<open>read_word\<close>: the buffer up to its terminating 0, and the number of letters, which may exceed what
  the buffer keeps.
\<close>

function read_word_loop :: "nat \<Rightarrow> byte list \<Rightarrow> nat \<Rightarrow> 'k lexer \<Rightarrow> (byte list \<times> nat) \<times> 'k lexer" where
  "read_word_loop cap buf n l =
     (if iswalpha (lookahead l) then
        read_word_loop cap (if n < cap - 1 then buf @ [to_char (towlower (lookahead l))] else buf)
          (n + 1) (advance l)
      else ((buf, n), l))"
  by pat_completeness auto
termination
proof (relation "measure (\<lambda>(_, _, _, l). remaining l)", goal_cases)
  case (2 cap buf n l)
  then have "lookahead l \<noteq> 0" by auto
  then show ?case by simp
qed simp

declare read_word_loop.simps [simp del]

definition read_word :: "'k lexer \<Rightarrow> nat \<Rightarrow> (byte list \<times> nat) \<times> 'k lexer" where
  "read_word l cap = read_word_loop cap [] 0 l"

definition query_keywords :: "string list" where
  "query_keywords =
     [''where'', ''select'', ''order'', ''group'', ''join'', ''let'', ''skip'', ''take'',
      ''distinct'', ''aggregate'', ''from'', ''into'', ''on'']"

definition chars_of :: "string \<Rightarrow> byte list" where
  "chars_of s = List.map of_char s"

definition is_query_keyword :: "byte list \<Rightarrow> bool" where
  "is_query_keyword w = list_ex (\<lambda>k. w = chars_of k) query_keywords"

text \<open>The loop over the white space before the next clause.\<close>

function query_whitespace :: "bool \<Rightarrow> 'k lexer \<Rightarrow> bool \<times> 'k lexer" where
  "query_whitespace saw_newline l =
     (if lookahead l \<in> {c_space, c_tab, c_cr} then query_whitespace saw_newline (advance l)
      else if lookahead l = c_nl then query_whitespace True (advance l)
      else (saw_newline, l))"
  by pat_completeness auto
termination by (relation "measure (\<lambda>(_, l). remaining l)") auto

declare query_whitespace.simps [simp del]

definition scan_query_continuation :: "vbnet_token lexer \<Rightarrow> bool \<times> vbnet_token lexer" where
  "scan_query_continuation l =
     (let (saw_newline, l) = query_whitespace False l in
      if \<not> saw_newline then (False, l)
      else
        let l = mark_end l;
            ((w, n), l) = read_word l 12 in
        if n = 0 \<or> n \<ge> 12 then (False, l)
        else if \<not> is_query_keyword w then (False, l)
        else if w = chars_of ''select'' then
          let l = advance_while (\<lambda>c. c = c_space \<or> c = c_tab) False l;
              ((w2, m), l) = read_word l 8 in
          if m > 0 \<and> m < 8 \<and> w2 = chars_of ''case'' then (False, l)
          else (True, set_result QUERY_CLAUSE_CONTINUATION l)
        else (True, set_result QUERY_CLAUSE_CONTINUATION l))"

section \<open>XML literals\<close>

function vb_string_loop :: "'k lexer \<Rightarrow> 'k lexer" where
  "vb_string_loop l =
     (if lookahead l = 0 then l
      else if lookahead l = c_dquote then
        let l = advance l in
        if lookahead l \<noteq> c_dquote then l else vb_string_loop (advance l)
      else vb_string_loop (advance l))"
  by pat_completeness auto
termination by (relation "measure remaining") auto

declare vb_string_loop.simps [simp del]

definition consume_vb_string :: "'k lexer \<Rightarrow> 'k lexer" where
  "consume_vb_string l = vb_string_loop (advance l)"

lemma runs_vb_string_loop: "runs l0 l \<Longrightarrow> runs l0 (vb_string_loop l)"
proof (induction l rule: vb_string_loop.induct)
  case (1 l)
  then show ?case by (subst vb_string_loop.simps) (auto simp: Let_def)
qed

lemma runs_consume_vb_string [runs_rules]: "runs l0 l \<Longrightarrow> runs l0 (consume_vb_string l)"
  by (simp add: consume_vb_string_def runs_vb_string_loop)

lemma consume_vb_string_progress:
  "lookahead l \<noteq> 0 \<Longrightarrow> remaining (consume_vb_string l) < remaining l"
  using runs_remaining [OF runs_vb_string_loop [OF runs_refl, of "advance l"]] lookahead_nonzero [of l]
  by (auto simp: consume_vb_string_def intro: le_less_trans)

function embedded_loop :: "int \<Rightarrow> 'k lexer \<Rightarrow> bool \<times> 'k lexer" where
  "embedded_loop depth l =
     (if lookahead l = 0 then (False, l)
      else if lookahead l = c_dquote then embedded_loop depth (consume_vb_string l)
      else if lookahead l = c_lt then
        let l' = advance l in
        if lookahead l' = c_percent then embedded_loop (depth + 1) (advance l')
        else embedded_loop depth l'
      else if lookahead l = c_percent then
        let l' = advance l in
        if lookahead l' = c_gt then
          let l'' = advance l'; depth' = depth - 1 in
          if depth' = 0 then (True, l'') else embedded_loop depth' l''
        else embedded_loop depth l'
      else embedded_loop depth (advance l))"
  by pat_completeness auto
termination
  by (relation "measure (\<lambda>(_, l). remaining l)") (auto simp: consume_vb_string_progress)

declare embedded_loop.simps [simp del]

definition consume_embedded_expression :: "'k lexer \<Rightarrow> bool \<times> 'k lexer" where
  "consume_embedded_expression l = (let l = advance l in embedded_loop 1 l)"

text \<open>The loops of \<open>consume_bang_construct\<close> to a run of at least two \<open>mark\<close>s and a \<open>>\<close>.\<close>

function marked_end_loop :: "code_point \<Rightarrow> nat \<Rightarrow> 'k lexer \<Rightarrow> bool \<times> 'k lexer" where
  "marked_end_loop mark n l =
     (if lookahead l = 0 then (False, l)
      else if lookahead l = mark then marked_end_loop mark (n + 1) (advance l)
      else if lookahead l = c_gt \<and> n \<ge> 2 then (True, advance l)
      else marked_end_loop mark 0 (advance l))"
  by pat_completeness auto
termination by (relation "measure (\<lambda>(_, _, l). remaining l)") auto

declare marked_end_loop.simps [simp del]

function to_gt_loop :: "'k lexer \<Rightarrow> bool \<times> 'k lexer" where
  "to_gt_loop l =
     (if lookahead l = 0 then (False, l)
      else if lookahead l = c_gt then (True, advance l)
      else to_gt_loop (advance l))"
  by pat_completeness auto
termination by (relation "measure remaining") auto

declare to_gt_loop.simps [simp del]

definition consume_bang_construct :: "'k lexer \<Rightarrow> bool \<times> 'k lexer" where
  "consume_bang_construct l =
     (let l = advance l in
      if lookahead l = c_minus then marked_end_loop c_minus 0 l
      else if lookahead l = c_lbrack then marked_end_loop c_rbrack 0 l
      else to_gt_loop l)"

function pi_loop :: "'k lexer \<Rightarrow> bool \<times> 'k lexer" where
  "pi_loop l =
     (if lookahead l = 0 then (False, l)
      else if lookahead l = c_quest then
        let l' = advance l in if lookahead l' = c_gt then (True, advance l') else pi_loop l'
      else pi_loop (advance l))"
  by pat_completeness auto
termination by (relation "measure remaining") auto

declare pi_loop.simps [simp del]

definition consume_processing_instruction :: "'k lexer \<Rightarrow> bool \<times> 'k lexer" where
  "consume_processing_instruction l = pi_loop (advance l)"

definition is_name_start :: "code_point \<Rightarrow> bool" where
  "is_name_start c \<longleftrightarrow> iswalpha c \<or> c = c_underscore"

lemma fwd_embedded_loop [runs_rules]: "runs l0 l \<Longrightarrow> fwd l0 (embedded_loop d l)"
proof (induction d l rule: embedded_loop.induct)
  case (1 d l)
  then show ?case
    by (subst embedded_loop.simps) (auto simp: Let_def intro!: runs_rules)
qed

lemma fwd_marked_end_loop [runs_rules]: "runs l0 l \<Longrightarrow> fwd l0 (marked_end_loop m n l)"
proof (induction m n l rule: marked_end_loop.induct)
  case (1 m n l)
  then show ?case by (subst marked_end_loop.simps) (auto intro!: runs_rules)
qed

lemma fwd_to_gt_loop [runs_rules]: "runs l0 l \<Longrightarrow> fwd l0 (to_gt_loop l)"
proof (induction l rule: to_gt_loop.induct)
  case (1 l)
  then show ?case by (subst to_gt_loop.simps) (auto intro!: runs_rules)
qed

lemma fwd_pi_loop [runs_rules]: "runs l0 l \<Longrightarrow> fwd l0 (pi_loop l)"
proof (induction l rule: pi_loop.induct)
  case (1 l)
  then show ?case by (subst pi_loop.simps) (auto simp: Let_def intro!: runs_rules)
qed

lemma fwd_consume_markup [runs_rules]:
  "runs l0 l \<Longrightarrow> fwd l0 (consume_embedded_expression l)"
  "runs l0 l \<Longrightarrow> fwd l0 (consume_bang_construct l)"
  "runs l0 l \<Longrightarrow> fwd l0 (consume_processing_instruction l)"
  unfolding consume_embedded_expression_def consume_bang_construct_def consume_processing_instruction_def
  by (intro runs_rules; assumption?)+

lemma consume_markup_runs:
  "consume_embedded_expression m = (b, l2) \<Longrightarrow> runs l0 m \<Longrightarrow> runs l0 l2"
  "consume_bang_construct m = (b, l2) \<Longrightarrow> runs l0 m \<Longrightarrow> runs l0 l2"
  "consume_processing_instruction m = (b, l2) \<Longrightarrow> runs l0 m \<Longrightarrow> runs l0 l2"
  using fwd_consume_markup [of l0 m] by (simp_all add: fwd_def)

lemma consume_markup_progress:
  assumes "lookahead l = c_lt"
  shows "consume_embedded_expression (advance l) = (b, l2) \<Longrightarrow> remaining l2 < remaining l"
    "consume_bang_construct (advance l) = (b, l2) \<Longrightarrow> remaining l2 < remaining l"
    "consume_processing_instruction (advance l) = (b, l2) \<Longrightarrow> remaining l2 < remaining l"
proof -
  have "remaining (advance l) < remaining l" using assms by simp
  then have step: "runs (advance l) l2 \<Longrightarrow> remaining l2 < remaining l"
    using runs_remaining by fastforce
  show "consume_embedded_expression (advance l) = (b, l2) \<Longrightarrow> remaining l2 < remaining l"
    "consume_bang_construct (advance l) = (b, l2) \<Longrightarrow> remaining l2 < remaining l"
    "consume_processing_instruction (advance l) = (b, l2) \<Longrightarrow> remaining l2 < remaining l"
    by (rule step, erule consume_markup_runs, rule runs_refl)+
qed

text \<open>The main loop of \<open>scan_xml_literal\<close>: \<open>True\<close> when it breaks.\<close>

function xml_loop :: "int \<Rightarrow> bool \<Rightarrow> bool \<Rightarrow> code_point \<Rightarrow> 'k lexer \<Rightarrow> bool \<times> 'k lexer" where
  "xml_loop depth in_tag closing qt l =
     (let c = lookahead l; l1 = advance l in
      if c = 0 then (False, l)
      else if in_tag then
        if qt \<noteq> 0 then xml_loop depth in_tag closing (if c = qt then 0 else qt) l1
        else if c = c_dquote \<or> c = c_squote then xml_loop depth in_tag closing c l1
        else if c = c_lt then
          if lookahead l1 = c_percent then
            case consume_embedded_expression l1 of (b, l2) \<Rightarrow>
              if \<not> b then (False, l2) else xml_loop depth in_tag closing qt l2
          else xml_loop depth in_tag closing qt l1
        else if c = c_slash then
          if lookahead l1 = c_gt then
            let l2 = advance l1 in
            if depth = 0 then (True, l2) else xml_loop depth False closing qt l2
          else xml_loop depth in_tag closing qt l1
        else if c = c_gt then
          if closing then
            if depth - 1 \<le> 0 then (True, l1) else xml_loop (depth - 1) False closing qt l1
          else xml_loop (depth + 1) False closing qt l1
        else xml_loop depth in_tag closing qt l1
      else if c = c_lt then
        let d = lookahead l1 in
        if d = c_slash then xml_loop depth True True qt (advance l1)
        else if d = c_percent then
          case consume_embedded_expression l1 of (b, l2) \<Rightarrow>
            if \<not> b then (False, l2) else xml_loop depth in_tag closing qt l2
        else if d = c_bang then
          case consume_bang_construct l1 of (b, l2) \<Rightarrow>
            if \<not> b then (False, l2) else xml_loop depth in_tag closing qt l2
        else if d = c_quest then
          case consume_processing_instruction l1 of (b, l2) \<Rightarrow>
            if \<not> b then (False, l2) else xml_loop depth in_tag closing qt l2
        else xml_loop depth True False qt l1
      else xml_loop depth in_tag closing qt l1)"
  by pat_completeness auto
termination
  by (relation "measure (\<lambda>(_, _, _, _, l). remaining l)")
    (auto intro: consume_markup_progress sym)

declare xml_loop.simps [simp del]

definition scan_xml_literal :: "vbnet_token lexer \<Rightarrow> bool \<times> vbnet_token lexer" where
  "scan_xml_literal l =
     (let l = advance_while (\<lambda>c. c = c_space \<or> c = c_tab) True l in
      if lookahead l \<noteq> c_lt then (False, l)
      else
        let l = advance l in
        if \<not> is_name_start (lookahead l) then (False, l)
        else
          let (b, l) = xml_loop 0 True False 0 l in
          if b then (True, set_result XML_LITERAL (mark_end l)) else (False, l))"

section \<open>The scan\<close>

definition vbnet_scan :: "vbnet_token lexer \<Rightarrow> (vbnet_token \<Rightarrow> bool) \<Rightarrow> bool \<times> vbnet_token lexer" where
  "vbnet_scan l valid =
     (let c = lookahead l; ws = (c = c_space \<or> c = c_tab \<or> c = c_nl \<or> c = c_cr) in
      if valid QUERY_CLAUSE_CONTINUATION \<and> ws then scan_query_continuation l
      else if valid XML_LITERAL \<and> (c = c_lt \<or> ws) then scan_xml_literal l
      else (False, l))"

definition vbnet_scan_fun :: "(unit, vbnet_token) scan_fun" where
  "vbnet_scan_fun p l valid = (case vbnet_scan l valid of (ok, l') \<Rightarrow> Some (ok, (), l'))"

section \<open>The cursor\<close>

lemma fwd_read_word [runs_rules]: "runs l0 l \<Longrightarrow> fwd l0 (read_word l cap)"
proof -
  have "runs l0 l \<Longrightarrow> fwd l0 (read_word_loop cap buf n l)" for buf n
  proof (induction cap buf n l rule: read_word_loop.induct)
    case (1 cap buf n l)
    then show ?case by (subst read_word_loop.simps) (auto intro!: runs_rules)
  qed
  then show "runs l0 l \<Longrightarrow> fwd l0 (read_word l cap)" by (simp add: read_word_def)
qed

lemma fwd_query_whitespace [runs_rules]: "runs l0 l \<Longrightarrow> fwd l0 (query_whitespace b l)"
proof (induction b l rule: query_whitespace.induct)
  case (1 b l)
  then show ?case by (subst query_whitespace.simps) (auto intro!: runs_rules)
qed

lemma fwd_scan_query_continuation [runs_rules]: "runs l0 l \<Longrightarrow> fwd l0 (scan_query_continuation l)"
  unfolding scan_query_continuation_def by (intro runs_rules) (auto intro!: runs_rules)

lemma fwd_case_eq:
  "(\<And>a l. p = (a, l) \<Longrightarrow> fwd l0 (f a l)) \<Longrightarrow> fwd l0 (case p of (a, l) \<Rightarrow> f a l)"
  by (cases p) simp

lemma fwd_xml_loop [runs_rules]: "runs l0 l \<Longrightarrow> fwd l0 (xml_loop d t c q l)"
proof (induction "remaining l" arbitrary: d t c q l rule: less_induct)
  case less
  show ?case
    by (subst xml_loop.simps, unfold Let_def, intro fwd_if fwd_Pair fwd_case_eq less.hyps)
      (auto intro: consume_markup_progress consume_markup_runs less.prems runs_advance)
qed

lemma fwd_scan_xml_literal [runs_rules]: "runs l0 l \<Longrightarrow> fwd l0 (scan_xml_literal l)"
  unfolding scan_xml_literal_def by (intro runs_rules)

lemma fwd_vbnet_scan [runs_rules]: "runs l0 l \<Longrightarrow> fwd l0 (vbnet_scan l valid)"
  unfolding vbnet_scan_def Let_def by (intro runs_rules)

interpretation vbnet:
  resetting_scanner vbnet_create "\<lambda>_. True" vbnet_serialize vbnet_deserialize vbnet_scan_fun
proof unfold_locales
  fix s l valid ok s' l'
  assume "vbnet_scan_fun s l valid = Some (ok, s', l')"
  then have "vbnet_scan l valid = (ok, l')" by (simp add: vbnet_scan_fun_def split: prod.splits)
  then show "runs l l'"
    using fwd_vbnet_scan [OF runs_refl, of l valid] by (simp add: fwdD)
qed (simp_all add: vbnet_serialize_def serialization_buffer_size_def)

section \<open>Words\<close>

lemma read_word_loop_run:
  "read_word_loop cap buf n l =
    ((buf @ List.map (\<lambda>c. to_char (towlower c)) (take (cap - 1 - n) (takeWhile iswalpha (text_ahead l))),
      n + length (takeWhile iswalpha (text_ahead l))), advance_while iswalpha False l)"
proof (induction cap buf n l rule: read_word_loop.induct)
  case (1 cap buf n l)
  have na: "\<not> iswalpha 0" by simp
  have cap: "cap - Suc n = Suc (cap - Suc (Suc n))" if "n < cap - Suc 0" using that by simp
  from na show ?case
  proof (cases rule: class_run_cases [where P = iswalpha and l = l and b = False])
    case more
    have "read_word_loop cap buf n l = read_word_loop cap
        (if n < cap - 1 then buf @ [to_char (towlower (lookahead l))] else buf) (n + 1) (advance l)"
      using more(1) by (simp add: read_word_loop.simps [of cap buf n l])
    with 1 [OF more(1)] show ?thesis
      unfolding more(3,4) by (cases "n < cap - 1") (simp_all add: cap)
  next
    case stop
    then show ?thesis by (simp add: read_word_loop.simps [of cap buf n l])
  qed
qed

text \<open>A word in the buffer is a keyword exactly when its letters in lower case spell it.\<close>

lemma to_char_letter:
  "iswalpha c \<Longrightarrow> to_char (towlower c) = of_char k \<longleftrightarrow> towlower c = of_char k"
proof -
  assume c: "iswalpha c"
  have i: "(of_char k :: int) = int (of_char k)" and w: "(of_char k :: byte) = word_of_int (of_char k)"
    by (simp_all add: of_nat_of_char of_int_of_char)
  then have "(of_char k :: int) < 256" "(0 :: int) \<le> of_char k"
    using nat_of_char_less_256 [of k] by linarith+
  moreover have "0 \<le> towlower c" "towlower c < 256"
    using c by (auto simp: iswalpha_def towlower_def)
  ultimately show ?thesis
    by (simp add: to_char_def w word_uint_eq_iff uint_word_of_int)
qed

lemma keyword_chars:
  "list_all iswalpha w \<Longrightarrow> List.map (\<lambda>c. to_char (towlower c)) w = chars_of k \<longleftrightarrow>
    List.map towlower w = codes k"
proof (induction w arbitrary: k)
  case Nil
  then show ?case by (cases k) (simp_all add: chars_of_def)
next
  case (Cons c w)
  then show ?case by (cases k) (auto simp: chars_of_def to_char_letter)
qed

definition next_word :: "code_point list \<Rightarrow> code_point list" where
  "next_word cs = List.map towlower (takeWhile iswalpha cs)"

lemma read_word_is:
  assumes "read_word l cap = ((w, n), l')" and "length k < cap"
  shows "n < cap \<and> w = chars_of k \<longleftrightarrow> next_word (text_ahead l) = codes k"
    and "n = length (next_word (text_ahead l))" and "l' = advance_while iswalpha False l"
proof -
  let ?w = "takeWhile iswalpha (text_ahead l)"
  have "((List.map (\<lambda>c. to_char (towlower c)) (take (cap - 1) ?w), length ?w),
      advance_while iswalpha False l) = ((w, n), l')"
    using assms(1) unfolding read_word_def read_word_loop_run by simp
  then have r: "w = List.map (\<lambda>c. to_char (towlower c)) (take (cap - 1) ?w)" "n = length ?w"
    "l' = advance_while iswalpha False l"
    by blast+
  from r(2) show "n = length (next_word (text_ahead l))" by (simp add: next_word_def)
  from r(3) show "l' = advance_while iswalpha False l" .
  show "n < cap \<and> w = chars_of k \<longleftrightarrow> next_word (text_ahead l) = codes k"
  proof (cases "n < cap")
    case True
    then have "take (cap - 1) ?w = ?w" using r(2) by simp
    moreover have "list_all iswalpha ?w" by (auto simp: list_all_iff dest: set_takeWhileD)
    ultimately show ?thesis
      unfolding next_word_def r(1) using True keyword_chars [of ?w k] by simp
  next
    case False
    then have "length (next_word (text_ahead l)) \<noteq> length (codes k)"
      using r(2) assms(2) by (simp add: next_word_def)
    then have "next_word (text_ahead l) \<noteq> codes k" by (metis (no_types))
    with False show ?thesis by simp
  qed
qed

section \<open>Where a query goes on\<close>

definition query_space :: "code_point \<Rightarrow> bool" where
  "query_space c \<longleftrightarrow> c \<in> {c_space, c_tab, c_cr, c_nl}"

definition blank_tab :: "code_point \<Rightarrow> bool" where
  "blank_tab c \<longleftrightarrow> c = c_space \<or> c = c_tab"

text \<open>The reference on the text behind a clause.\<close>

definition continues_query :: "code_point list \<Rightarrow> bool" where
  "continues_query cs =
     (let rest = dropWhile query_space cs; behind = dropWhile iswalpha rest in
      c_nl \<in> set (takeWhile query_space cs) \<and>
      next_word rest \<in> set (List.map codes query_keywords) \<and>
      \<not> (next_word rest = codes ''select'' \<and>
         next_word (dropWhile blank_tab behind) = codes ''case''))"

lemma query_whitespace_run:
  "query_whitespace b l =
    (b \<or> c_nl \<in> set (takeWhile query_space (text_ahead l)), advance_while query_space False l)"
proof (induction b l rule: query_whitespace.induct)
  case (1 b l)
  have nq: "\<not> query_space 0" by (simp add: query_space_def)
  from nq show ?case
  proof (cases rule: class_run_cases [where P = query_space and l = l and b = False])
    case more
    then have c: "lookahead l = c_nl \<or> lookahead l \<in> {c_space, c_tab, c_cr}"
      by (auto simp: query_space_def)
    then have "query_whitespace b l = query_whitespace (b \<or> lookahead l = c_nl) (advance l)"
      by (auto simp: query_whitespace.simps [of b l])
    also have "\<dots> = (b \<or> lookahead l = c_nl \<or> c_nl \<in> set (takeWhile query_space (text_ahead (advance l))),
        advance_while query_space False (advance l))"
      using c 1 by auto
    finally show ?thesis unfolding more(3,4) by auto
  next
    case stop
    then have "query_whitespace b l = (b, l)"
      by (simp add: query_whitespace.simps [of b l] query_space_def)
    then show ?thesis unfolding stop(2,3) by simp
  qed
qed

lemma is_query_keyword_word:
  assumes "read_word l 12 = ((w, n), l')"
  shows "\<not> (n = 0 \<or> n \<ge> 12) \<and> is_query_keyword w \<longleftrightarrow>
    next_word (text_ahead l) \<in> set (List.map codes query_keywords)"
proof -
  have len: "length k < 12 \<and> 0 < length k" if "k \<in> set query_keywords" for k
    using that by (auto simp: query_keywords_def)
  have word: "n < 12 \<and> w = chars_of k \<longleftrightarrow> next_word (text_ahead l) = codes k" if "k \<in> set query_keywords" for k
    using read_word_is(1) [OF assms] len [OF that] by blast
  have n: "n = length (next_word (text_ahead l))"
    by (rule read_word_is(2) [OF assms, of "''on''"]) simp
  have "n < 12 \<and> is_query_keyword w \<longleftrightarrow> (\<exists>k \<in> set query_keywords. n < 12 \<and> w = chars_of k)"
    by (auto simp: is_query_keyword_def list_ex_iff)
  also have "\<dots> \<longleftrightarrow> (\<exists>k \<in> set query_keywords. next_word (text_ahead l) = codes k)"
    using word by (rule bex_cong [OF refl])
  finally have "n < 12 \<and> is_query_keyword w \<longleftrightarrow>
    (\<exists>k \<in> set query_keywords. next_word (text_ahead l) = codes k)" .
  moreover have "n \<noteq> 0" if "k \<in> set query_keywords" "next_word (text_ahead l) = codes k" for k
    using n len [OF that(1)] that(2) by simp
  ultimately show ?thesis by (auto simp: image_iff)
qed

lemma query_keywords_plain:
  "list_all (\<lambda>k. list_all iswalpha (codes k) \<and> List.map towlower (codes k) = codes k \<and>
     codes k \<noteq> [] \<and> \<not> query_space (hd (codes k))) query_keywords"
  by (simp add: query_keywords_def iswalpha_def towlower_def query_space_def)

lemma query_continuation_text:
  assumes "valid QUERY_CLAUSE_CONTINUATION" and "query_space (lookahead l)"
  shows "\<exists>ok l'. vbnet_scan l valid = (ok, l') \<and> ok = continues_query (text_ahead l) \<and>
    (ok \<longrightarrow> result_symbol l' = Some QUERY_CLAUSE_CONTINUATION \<and>
      token_end l' = pos l + length (takeWhile query_space (text_ahead l)))"
proof -
  define l1 where "l1 = advance_while query_space False l"
  obtain w n l2 where w: "read_word (mark_end l1) 12 = ((w, n), l2)"
    using prod.exhaust by metis
  define l3 where "l3 = advance_while blank_tab False l2"
  obtain w2 m l4 where w2: "read_word l3 8 = ((w2, m), l4)"
    using prod.exhaust by metis
  have t1: "text_ahead (mark_end l1) = dropWhile query_space (text_ahead l)"
    by (simp add: l1_def ahead_advance_while dropWhile_map comp_def)
  have l2: "l2 = advance_while iswalpha False (mark_end l1)"
    by (rule read_word_is(3) [OF w, of "''on''"]) simp
  have l4: "l4 = advance_while iswalpha False l3"
    by (rule read_word_is(3) [OF w2, of "''on''"]) simp
  have t3: "text_ahead l3 = dropWhile blank_tab (dropWhile iswalpha (dropWhile query_space (text_ahead l)))"
    unfolding l3_def l2 text_ahead_while t1 ..
  have p1: "pos l1 = pos l + length (takeWhile query_space (text_ahead l))"
    unfolding l1_def by (rule pos_advance_while)
  have te: "token_end l2 = pos l1" "token_end l4 = pos l1"
    by (simp_all add: l4 l3_def l2 token_end_def)
  have nl: "fst (query_whitespace False l) = (c_nl \<in> set (takeWhile query_space (text_ahead l)))"
    "snd (query_whitespace False l) = l1"
    by (simp_all add: query_whitespace_run l1_def)
  have sel: "w = chars_of ''select'' \<longleftrightarrow> next_word (text_ahead (mark_end l1)) = codes ''select''" if "n < 12"
    using read_word_is(1) [OF w, of "''select''"] that by simp
  have cas: "m > 0 \<and> m < 8 \<and> w2 = chars_of ''case'' \<longleftrightarrow> next_word (text_ahead l3) = codes ''case''"
    using read_word_is(1,2) [OF w2, of "''case''"] by auto
  define q where "q = continues_query (text_ahead l)"
  have q: "q \<longleftrightarrow> c_nl \<in> set (takeWhile query_space (text_ahead l)) \<and>
      (\<not> (n = 0 \<or> n \<ge> 12) \<and> is_query_keyword w) \<and>
      \<not> (next_word (text_ahead (mark_end l1)) = codes ''select'' \<and>
         next_word (text_ahead l3) = codes ''case'')"
    unfolding q_def continues_query_def Let_def is_query_keyword_word [OF w] t1 t3 ..
  have "scan_query_continuation l = (q, snd (scan_query_continuation l)) \<and>
    (q \<longrightarrow> snd (scan_query_continuation l) \<in> {set_result QUERY_CLAUSE_CONTINUATION l2,
                                            set_result QUERY_CLAUSE_CONTINUATION l4})"
    unfolding scan_query_continuation_def
    using nl sel cas
    by (cases "query_whitespace False l") (auto simp: q w w2 Let_def l3_def [unfolded blank_tab_def, symmetric])
  moreover have "vbnet_scan l valid = scan_query_continuation l"
    using assms by (auto simp: vbnet_scan_def query_space_def Let_def)
  ultimately show ?thesis
    using te p1 by (intro exI [of _ q] exI [of _ "snd (scan_query_continuation l)"])
      (auto simp: q_def)
qed

section \<open>Elements\<close>

text \<open>
  A grammar of XML elements: a tag is text and quoted attribute values, an element is empty or has
  content and a closing tag, content is text, elements, comments and processing instructions.
\<close>

datatype tag_part = Plain code_point | Quoted code_point "code_point list"

datatype xml =
    Empty "tag_part list"
  | Element "tag_part list" "xml list" "tag_part list"
  | Text "code_point list"
  | PI "code_point list"

fun render_part :: "tag_part \<Rightarrow> code_point list" where
  "render_part (Plain c) = [c]"
| "render_part (Quoted q s) = q # s @ [q]"

definition render_tag :: "tag_part list \<Rightarrow> code_point list" where
  "render_tag t = concat (List.map render_part t)"

fun render :: "xml \<Rightarrow> code_point list" where
  "render (Empty t) = c_lt # render_tag t @ [c_slash, c_gt]"
| "render (Element t xs e) =
     c_lt # render_tag t @ c_gt # concat (List.map render xs) @ c_lt # c_slash # render_tag e @ [c_gt]"
| "render (Text s) = s"
| "render (PI s) = c_lt # c_quest # s @ [c_quest, c_gt]"

fun part_ok :: "tag_part \<Rightarrow> bool" where
  "part_ok (Plain c) \<longleftrightarrow> c \<notin> {0, c_dquote, c_squote, c_lt, c_slash, c_gt}"
| "part_ok (Quoted q s) \<longleftrightarrow> (q = c_dquote \<or> q = c_squote) \<and> 0 \<notin> set s \<and> q \<notin> set s"

definition tag_ok :: "tag_part list \<Rightarrow> bool" where
  "tag_ok t \<longleftrightarrow> list_all part_ok t \<and> (\<exists>c ps. t = Plain c # ps \<and> is_name_start c)"

fun xml_ok :: "xml \<Rightarrow> bool" where
  "xml_ok (Empty t) \<longleftrightarrow> tag_ok t"
| "xml_ok (Element t xs e) \<longleftrightarrow> tag_ok t \<and> list_all xml_ok xs \<and> list_all part_ok e"
| "xml_ok (Text s) \<longleftrightarrow> 0 \<notin> set s \<and> c_lt \<notin> set s"
| "xml_ok (PI s) \<longleftrightarrow> 0 \<notin> set s \<and> c_quest \<notin> set s"

lemma is_name_startD:
  "is_name_start c \<Longrightarrow> c \<notin> {0, c_slash, c_percent, c_bang, c_quest, c_lt, c_gt, c_dquote, c_squote}"
  by (auto simp: is_name_start_def iswalpha_def)

lemma tag_okD:
  assumes "tag_ok t"
  obtains c cs where "render_tag t = c # cs" "is_name_start c"
  using assms by (auto simp: tag_ok_def render_tag_def)

text \<open>Steps of the loop over a piece of the text.\<close>

lemma xml_loop_plain:
  assumes "lookahead l = c" and "c \<notin> {0, c_dquote, c_squote, c_lt, c_slash, c_gt}"
  shows "xml_loop d True cl 0 l = xml_loop d True cl 0 (advance l)"
  using assms by (simp add: xml_loop.simps [of d True cl 0 l] Let_def)

lemma xml_loop_quoted:
  "text_ahead l = s @ q # cs \<Longrightarrow> q \<noteq> 0 \<Longrightarrow> 0 \<notin> set s \<Longrightarrow> q \<notin> set s \<Longrightarrow>
    xml_loop d True cl q l = xml_loop d True cl 0 (advance_n False (Suc (length s)) l)"
proof (induction s arbitrary: l)
  case Nil
  then have "lookahead l = q" by (simp add: lookahead_text)
  with Nil show ?case by (simp add: xml_loop.simps [of d True cl q l] Let_def)
next
  case (Cons c s)
  then have "text_ahead l = c # s @ q # cs" by simp
  note c = text_ahead_ConsD [OF this]
  have "xml_loop d True cl q l = xml_loop d True cl q (advance l)"
    using Cons.prems c by (simp add: xml_loop.simps [of d True cl q l] Let_def)
  with Cons.IH [OF c(1)] Cons.prems show ?case
    by (simp add: advance_n_Suc)
qed

lemma xml_loop_part:
  assumes "part_ok p" and "text_ahead l = render_part p @ cs"
  shows "xml_loop d True cl 0 l = xml_loop d True cl 0 (advance_n False (length (render_part p)) l)"
proof (cases p)
  case (Plain c)
  with assms show ?thesis
    using xml_loop_plain [of l c d cl] by (simp add: lookahead_text)
next
  case (Quoted q s)
  with assms(2) have "text_ahead l = q # s @ q # cs" by simp
  note q = text_ahead_ConsD [OF this]
  have "xml_loop d True cl 0 l = xml_loop d True cl q (advance l)"
    using assms(1) Quoted q by (auto simp: xml_loop.simps [of d True cl 0 l] Let_def)
  also have "\<dots> = xml_loop d True cl 0 (advance_n False (Suc (length s)) (advance l))"
    using assms(1) Quoted by (intro xml_loop_quoted [OF q(1)]) auto
  finally show ?thesis using Quoted by (simp add: advance_n_Suc)
qed

lemma xml_loop_tag:
  "list_all part_ok t \<Longrightarrow> text_ahead l = render_tag t @ cs \<Longrightarrow>
    xml_loop d True cl 0 l = xml_loop d True cl 0 (advance_n False (length (render_tag t)) l)"
proof (induction t arbitrary: l)
  case (Cons p t)
  then have t: "text_ahead l = render_part p @ (render_tag t @ cs)" by (simp add: render_tag_def)
  have "xml_loop d True cl 0 l = xml_loop d True cl 0 (advance_n False (length (render_part p)) l)"
    using Cons.prems t by (intro xml_loop_part) simp_all
  also have "\<dots> = xml_loop d True cl 0
      (advance_n False (length (render_tag t)) (advance_n False (length (render_part p)) l))"
    using Cons.prems text_ahead_advance_n [OF t] by (intro Cons.IH) simp_all
  finally show ?case by (simp add: advance_n_add render_tag_def)
qed (simp add: render_tag_def)

lemma xml_loop_text:
  "text_ahead l = s @ cs \<Longrightarrow> 0 \<notin> set s \<Longrightarrow> c_lt \<notin> set s \<Longrightarrow>
    xml_loop d False cl 0 l = xml_loop d False cl 0 (advance_n False (length s) l)"
proof (induction s arbitrary: l)
  case (Cons c s)
  then have "text_ahead l = c # s @ cs" by simp
  note c = text_ahead_ConsD [OF this]
  have "xml_loop d False cl 0 l = xml_loop d False cl 0 (advance l)"
    using Cons.prems c by (simp add: xml_loop.simps [of d False cl 0 l] Let_def)
  with Cons.IH [OF c(1)] Cons.prems show ?case by (simp add: advance_n_Suc)
qed simp

lemma pi_loop_text:
  "text_ahead l = s @ c_quest # c_gt # cs \<Longrightarrow> 0 \<notin> set s \<Longrightarrow> c_quest \<notin> set s \<Longrightarrow>
    pi_loop l = (True, advance_n False (length s + 2) l)"
proof (induction s arbitrary: l)
  case Nil
  then have "text_ahead l = c_quest # c_gt # cs" by simp
  note c = text_ahead_ConsD [OF this]
  note d = text_ahead_ConsD [OF c(1)]
  from c d show ?case
    by (simp add: pi_loop.simps [of l] Let_def numeral_2_eq_2 advance_n_Suc)
next
  case (Cons c s)
  then have "text_ahead l = c # s @ c_quest # c_gt # cs" by simp
  note c = text_ahead_ConsD [OF this]
  have "pi_loop l = pi_loop (advance l)"
    using Cons.prems c by (simp add: pi_loop.simps [of l] Let_def)
  with Cons.IH [OF c(1)] Cons.prems show ?case by (simp add: advance_n_Suc)
qed

text \<open>The loop between two tags goes on behind whatever the grammar produces.\<close>

definition passes :: "code_point list \<Rightarrow> bool" where
  "passes s \<longleftrightarrow> (\<forall>d cl l cs. text_ahead (l :: vbnet_token lexer) = s @ cs \<longrightarrow> 0 < d \<longrightarrow>
     (\<exists>cl'. xml_loop d False cl 0 l = xml_loop d False cl' 0 (advance_n False (length s) l)))"

lemma passesD:
  "passes s \<Longrightarrow> text_ahead (l :: vbnet_token lexer) = s @ cs \<Longrightarrow> 0 < d \<Longrightarrow>
    \<exists>cl'. xml_loop d False cl 0 l = xml_loop d False cl' 0 (advance_n False (length s) l)"
  by (simp add: passes_def)

lemma passesI:
  "(\<And>d cl l cs. text_ahead (l :: vbnet_token lexer) = s @ cs \<Longrightarrow> 0 < d \<Longrightarrow>
      \<exists>cl'. xml_loop d False cl 0 l = xml_loop d False cl' 0 (advance_n False (length s) l)) \<Longrightarrow> passes s"
  by (auto simp: passes_def)

lemma passes_concat: "list_all passes ss \<Longrightarrow> passes (concat ss)"
proof (induction ss)
  case (Cons s ss)
  show ?case
  proof (rule passesI)
    fix d :: int and cl and l :: "vbnet_token lexer" and cs
    assume t: "text_ahead l = concat (s # ss) @ cs" and d: "0 < d"
    from t have t1: "text_ahead l = s @ (concat ss @ cs)" by simp
    obtain c1 where
      c1: "xml_loop d False cl 0 l = xml_loop d False c1 0 (advance_n False (length s) l)"
      using passesD [OF _ t1 d] Cons.prems by fastforce
    have t2: "text_ahead (advance_n False (length s) l) = concat ss @ cs"
      by (rule text_ahead_advance_n [OF t1])
    obtain c2 where
      "xml_loop d False c1 0 (advance_n False (length s) l) =
       xml_loop d False c2 0 (advance_n False (length (concat ss)) (advance_n False (length s) l))"
      using passesD [OF _ t2 d] Cons by fastforce
    with c1 show "\<exists>cl'. xml_loop d False cl 0 l =
        xml_loop d False cl' 0 (advance_n False (length (concat (s # ss))) l)"
      by (auto simp: advance_n_add)
  qed
qed (auto simp: passes_def)

text \<open>From behind the \<open><\<close> of a tag to the end of its element, at depth \<open>d\<close>.\<close>

lemma xml_loop_empty:
  assumes "tag_ok t" and "text_ahead l = render_tag t @ c_slash # c_gt # cs"
  shows "xml_loop d True False 0 l =
    (if d = 0 then (True, advance_n False (length (render_tag t) + 2) l)
     else xml_loop d False False 0 (advance_n False (length (render_tag t) + 2) l))"
proof -
  let ?m = "advance_n False (length (render_tag t)) l"
  have tag: "xml_loop d True False 0 l = xml_loop d True False 0 ?m"
    using assms by (intro xml_loop_tag) (simp_all add: tag_ok_def)
  have m: "text_ahead ?m = c_slash # c_gt # cs" by (rule text_ahead_advance_n [OF assms(2)])
  note a = text_ahead_ConsD [OF m]
  have "xml_loop d True False 0 ?m = (if d = 0 then (True, advance (advance ?m))
      else xml_loop d False False 0 (advance (advance ?m)))"
    using a(2) text_ahead_ConsD(2) [OF a(1)]
    by (simp add: xml_loop.simps [of d True False 0 ?m] Let_def)
  then show ?thesis by (simp add: tag lex_advance_advance_n)
qed

lemma xml_loop_element:
  fixes l :: "vbnet_token lexer"
  assumes "tag_ok t" and "list_all part_ok e" and "passes body" and "0 \<le> d"
    and "text_ahead l = render_tag t @ c_gt # body @ c_lt # c_slash # render_tag e @ c_gt # cs"
    and "n = length (render_tag t) + length body + length (render_tag e) + 4"
  shows "xml_loop d True False 0 l =
    (if d = 0 then (True, advance_n False n l) else xml_loop d False True 0 (advance_n False n l))"
proof -
  let ?m = "advance_n False (length (render_tag t)) l"
  let ?b = "advance_n False (length body) (advance ?m)"
  let ?e = "advance_n False (length (render_tag e)) (advance (advance ?b))"
  have "xml_loop d True False 0 l = xml_loop d True False 0 ?m"
    using assms(1,5) by (intro xml_loop_tag) (simp_all add: tag_ok_def)
  also have m: "text_ahead ?m = c_gt # body @ c_lt # c_slash # render_tag e @ c_gt # cs"
    by (rule text_ahead_advance_n [OF assms(5)])
  note m' = text_ahead_ConsD [OF m]
  have "xml_loop d True False 0 ?m = xml_loop (d + 1) False False 0 (advance ?m)"
    using m' by (simp add: xml_loop.simps [of d True False 0 ?m] Let_def)
  also obtain cl where "xml_loop (d + 1) False False 0 (advance ?m) = xml_loop (d + 1) False cl 0 ?b"
    using passesD [OF assms(3) m'(1), of "d + 1" False] assms(4) by auto
  also have b: "text_ahead ?b = c_lt # c_slash # render_tag e @ c_gt # cs"
    by (rule text_ahead_advance_n [OF m'(1)])
  note b' = text_ahead_ConsD [OF b]
  note b'' = text_ahead_ConsD [OF b'(1)]
  have "xml_loop (d + 1) False cl 0 ?b = xml_loop (d + 1) True True 0 (advance (advance ?b))"
    using b' b'' by (simp add: xml_loop.simps [of "d + 1" False cl 0 ?b] Let_def)
  also have "\<dots> = xml_loop (d + 1) True True 0 ?e"
    using assms(2) by (intro xml_loop_tag [OF _ b''(1)])
  also have e: "text_ahead ?e = c_gt # cs"
    by (rule text_ahead_advance_n [OF b''(1)])
  note e' = text_ahead_ConsD [OF e]
  have "xml_loop (d + 1) True True 0 ?e =
      (if d = 0 then (True, advance ?e) else xml_loop d False True 0 (advance ?e))"
    using e' assms(4) by (simp add: xml_loop.simps [of "d + 1" True True 0 ?e] Let_def)
  also have "advance ?e = advance_n False n l"
    unfolding assms(6)
    by (simp add: advance_n_add lex_advance_advance_n ac_simps eval_nat_numeral)
  finally show ?thesis .
qed

lemma xml_loop_opens:
  assumes "lookahead l = c_lt" and "is_name_start (lookahead (advance l))"
  shows "xml_loop d False cl 0 l = xml_loop d True False 0 (advance l)"
  using assms(1) is_name_startD [OF assms(2)]
  by (simp add: xml_loop.simps [of d False cl 0 l] Let_def)

lemma passes_xml: "xml_ok x \<Longrightarrow> passes (render x)"
proof (induction x)
  case (Empty t)
  show ?case
  proof (rule passesI)
    fix d :: int and cl cs and l :: "vbnet_token lexer"
    assume "text_ahead l = render (Empty t) @ cs" and d: "0 < d"
    then have "text_ahead l = c_lt # (render_tag t @ c_slash # c_gt # cs)" by simp
    note a = text_ahead_ConsD [OF this]
    obtain c cs' where c: "render_tag t = c # cs'" "is_name_start c"
      using Empty tag_okD by auto
    then have "lookahead (advance l) = c" using a(1) by (simp add: lookahead_text)
    then have "xml_loop d False cl 0 l = xml_loop d True False 0 (advance l)"
      using a(2) c(2) by (intro xml_loop_opens) simp_all
    with xml_loop_empty [OF _ a(1), of d] Empty d show "\<exists>cl'. xml_loop d False cl 0 l =
        xml_loop d False cl' 0 (advance_n False (length (render (Empty t))) l)"
      by (auto simp: advance_n_Suc)
  qed
next
  case (Element t xs e)
  have body: "passes (concat (List.map render xs))"
    using Element by (intro passes_concat) (auto simp: list_all_iff)
  show ?case
  proof (rule passesI)
    fix d :: int and cl cs and l :: "vbnet_token lexer"
    assume "text_ahead l = render (Element t xs e) @ cs" and d: "0 < d"
    then have "text_ahead l = c_lt # (render_tag t @ c_gt # concat (List.map render xs) @
        c_lt # c_slash # render_tag e @ c_gt # cs)" by simp
    note a = text_ahead_ConsD [OF this]
    obtain c cs' where c: "render_tag t = c # cs'" "is_name_start c"
      using Element.prems tag_okD by auto
    then have "lookahead (advance l) = c" using a(1) by (simp add: lookahead_text)
    then have "xml_loop d False cl 0 l = xml_loop d True False 0 (advance l)"
      using a(2) c(2) by (intro xml_loop_opens) simp_all
    moreover have "length (render (Element t xs e)) = Suc (length (render_tag t) +
        length (concat (List.map render xs)) + length (render_tag e) + 4)" by simp
    ultimately show "\<exists>cl'. xml_loop d False cl 0 l =
        xml_loop d False cl' 0 (advance_n False (length (render (Element t xs e))) l)"
      using xml_loop_element [OF _ _ body _ a(1) refl, of d] Element.prems d
      by (simp only: advance_n_Suc) auto
  qed
next
  case (Text s)
  then show ?case using xml_loop_text by (fastforce intro!: passesI)
next
  case (PI s)
  show ?case
  proof (rule passesI)
    fix d :: int and cl cs and l :: "vbnet_token lexer"
    assume "text_ahead l = render (PI s) @ cs"
    then have "text_ahead l = c_lt # c_quest # s @ c_quest # c_gt # cs" by simp
    note a = text_ahead_ConsD [OF this]
    note b = text_ahead_ConsD [OF a(1)]
    have "xml_loop d False cl 0 l =
        xml_loop d False cl 0 (advance_n False (length s + 2) (advance (advance l)))"
      using a(2) b(2) pi_loop_text [OF b(1)] PI
      by (simp add: xml_loop.simps [of d False cl 0 l] Let_def consume_processing_instruction_def)
    then show "\<exists>cl'. xml_loop d False cl 0 l =
        xml_loop d False cl' 0 (advance_n False (length (render (PI s))) l)"
      by (auto simp: advance_n_Suc)
  qed
qed

section \<open>Properties\<close>

text \<open>C12. A line break continues a query exactly when the reference says so: the white space behind
the clause has a line feed, and the letters that follow spell, in any case, a query keyword, which is
not the \<open>Select\<close> of \<open>Select Case\<close>. The token is that white space.\<close>

theorem vbnet_query_continuation:
  assumes "valid QUERY_CLAUSE_CONTINUATION" and "query_space (lookahead l)"
  shows "\<exists>ok l'. vbnet_scan l valid = (ok, l') \<and> ok = continues_query (text_ahead l) \<and>
    (ok \<longrightarrow> result_symbol l' = Some QUERY_CLAUSE_CONTINUATION \<and>
      token_end l' = pos l + length (takeWhile query_space (text_ahead l)))"
  using assms by (rule query_continuation_text)

theorem vbnet_query_continuation_witness:
  "\<exists>ok l'. vbnet_scan (lexer_on (10 # codes ''  Where x'')) (\<lambda>k. True) = (ok, l') \<and> ok \<and>
    result_symbol l' = Some QUERY_CLAUSE_CONTINUATION \<and> token_end l' = 3"
  using vbnet_query_continuation [of "\<lambda>k. True" "lexer_on (10 # codes ''  Where x'')"]
  by (auto simp: lookahead_text query_space_def continues_query_def next_word_def query_keywords_def
      iswalpha_def towlower_def blank_tab_def eval_nat_numeral)

text \<open>C28. An XML literal is taken as a whole: after blanks, a well formed element, empty or with any
nesting of elements, text and processing instructions inside, is one token that ends right behind the
element's own closing tag.\<close>

theorem vbnet_xml_element:
  assumes "text_ahead l = ws @ render x @ rest" and "list_all blank_tab ws"
    and "xml_ok x" and "\<exists>t xs e. x = Empty t \<or> x = Element t xs e"
    and "valid XML_LITERAL" and "\<not> valid QUERY_CLAUSE_CONTINUATION"
  shows "\<exists>l'. vbnet_scan l valid = (True, l') \<and> result_symbol l' = Some XML_LITERAL \<and>
    token_end l' = pos l + length ws + length (render x) \<and> text_ahead l' = rest"
proof -
  define m where "m = advance_n True (length ws) l"
  obtain body where x: "render x = c_lt # body" using assms(4) by auto
  have skip: "advance_while (\<lambda>c. c = c_space \<or> c = c_tab) True l = m"
    unfolding m_def
    by (rule advance_while_run [OF assms(1)])
      (use assms(2) x in \<open>simp_all add: blank_tab_def [abs_def]\<close>)
  have m: "text_ahead m = render x @ rest" "pos m = pos l + length ws"
    unfolding m_def using text_ahead_advance_n [OF assms(1)] pos_advance_n_text [OF assms(1)]
    by simp_all
  then have "text_ahead m = c_lt # body @ rest" by (simp add: x)
  note a = text_ahead_ConsD [OF this]
  have loop: "is_name_start (lookahead (advance m)) \<and>
      xml_loop 0 True False 0 (advance m) = (True, advance_n False (length (render x)) m)"
  proof (cases x)
    case (Empty t)
    with assms(3) obtain c cs where "render_tag t = c # cs" "is_name_start c"
      using tag_okD by auto
    with Empty a(1) x xml_loop_empty [of t "advance m" rest 0] assms(3) show ?thesis
      by (auto simp: lookahead_text advance_n_Suc)
  next
    case (Element t xs e)
    with assms(3) obtain c cs where "render_tag t = c # cs" "is_name_start c"
      using tag_okD by auto
    moreover have "passes (concat (List.map render xs))"
      using Element assms(3) passes_xml by (intro passes_concat) (auto simp: list_all_iff)
    ultimately show ?thesis
      using Element a(1) x assms(3)
        xml_loop_element [of t e "concat (List.map render xs)" 0 "advance m" rest]
      by (auto simp: lookahead_text advance_n_Suc eval_nat_numeral ac_simps)
  qed (use assms(4) in auto)
  have "lookahead l \<in> {c_lt, c_space, c_tab}"
    using assms(1,2) x by (cases ws) (auto simp: lookahead_text blank_tab_def)
  then have "vbnet_scan l valid = scan_xml_literal l"
    using assms(5,6) by (auto simp: vbnet_scan_def Let_def)
  also have "\<dots> = (True, set_result XML_LITERAL (mark_end (advance_n False (length (render x)) m)))"
    using loop a(2) by (simp add: scan_xml_literal_def skip)
  finally show ?thesis
    using text_ahead_advance_n [OF m(1)] pos_advance_n_text [OF m(1)] m(2) by simp
qed

theorem vbnet_xml_element_witness:
  "\<exists>l'. vbnet_scan (lexer_on (codes '' <a x=1><b/>t</a>;'')) (\<lambda>k. k = XML_LITERAL) = (True, l') \<and>
    result_symbol l' = Some XML_LITERAL \<and> token_end l' = 17 \<and> text_ahead l' = codes '';''"
proof -
  define x where "x = Element (List.map Plain (codes ''a x=1''))
    [Empty [Plain 98], Text (codes ''t'')] [Plain 97]"
  have ok: "xml_ok x" "\<exists>t xs e. x = Empty t \<or> x = Element t xs e"
    by (auto simp: x_def tag_ok_def is_name_start_def iswalpha_def)
  have r: "codes '' <a x=1><b/>t</a>;'' = codes '' '' @ render x @ codes '';''" "length (render x) = 16"
    by (simp_all add: x_def render_tag_def)
  show ?thesis
    using vbnet_xml_element [of "lexer_on (codes '' <a x=1><b/>t</a>;'')" "codes '' ''" x "codes '';''"
        "\<lambda>k. k = XML_LITERAL"] ok r
    by (simp add: blank_tab_def)
qed

text \<open>The keyword has no right boundary: a next line whose first word merely starts with the
letters of a query keyword other than \<open>select\<close>, followed by a digit or an underscore, is taken for
the continuation of the query.\<close>

theorem vbnet_keyword_prefix_continues:
  assumes "k \<in> set query_keywords" and "k \<noteq> ''select''" and "rest = [] \<or> \<not> iswalpha (hd rest)"
    and "valid QUERY_CLAUSE_CONTINUATION" and "text_ahead l = c_nl # codes k @ rest"
  shows "\<exists>l'. vbnet_scan l valid = (True, l') \<and>
    result_symbol l' = Some QUERY_CLAUSE_CONTINUATION \<and> token_end l' = pos l + 1"
proof -
  have k: "list_all iswalpha (codes k)" "List.map towlower (codes k) = codes k"
    "codes k \<noteq> []" "\<not> query_space (hd (codes k))" "codes k \<noteq> codes ''select''"
    using query_keywords_plain assms(1,2) by (auto simp: list_all_iff codes_eq_iff simp del: codes_Cons)
  then obtain c ks where ck: "codes k = c # ks" "\<not> query_space c" by (cases "codes k") auto
  have tw: "takeWhile query_space (text_ahead l) = [c_nl]"
    "dropWhile query_space (text_ahead l) = codes k @ rest"
    unfolding assms(5) ck(1) using ck(2) by (simp_all add: query_space_def)
  have "takeWhile iswalpha (codes k @ rest) = codes k"
    using k(1) assms(3) by (cases rest) (simp_all add: takeWhile_append2 list_all_iff)
  then have "next_word (codes k @ rest) = codes k"
    by (simp add: next_word_def k(2))
  then have "continues_query (text_ahead l)"
    using assms(1) k(5) by (auto simp: continues_query_def tw Let_def)
  moreover have "query_space (lookahead l)"
    using lookahead_Cons [OF assms(5)] by (simp add: query_space_def)
  ultimately show ?thesis
    using query_continuation_text [of valid l] assms(4) tw(1) by auto
qed

theorem vbnet_keyword_prefix_continues_witness:
  "\<exists>l'. vbnet_scan (lexer_on (10 # codes ''from'' @ codes ''_date = 1'')) (\<lambda>k. True) = (True, l') \<and>
    result_symbol l' = Some QUERY_CLAUSE_CONTINUATION \<and> token_end l' = 1"
  using vbnet_keyword_prefix_continues [of "''from''" "codes ''_date = 1''" "\<lambda>k. True"
      "lexer_on (10 # codes ''from'' @ codes ''_date = 1'')"]
  by (simp add: query_keywords_def iswalpha_def)

end
