(* ===== verification/Cobol.thy ===== *)
theory Cobol
  imports Scanner_Interface "HOL-Library.Sublist"
begin

text \<open>
  \<^verbatim>\<open>codegraph-kernel/grammars/cobol/scanner.c\<close>: the columns of fixed format COBOL (sequence area,
  comment lines, the area behind the right margin), comment entries, string literals that continue
  over lines, and \<open>EXEC ... END-EXEC\<close> blocks. The state is one byte, the wide flag, which the sentinel
  \<open>CGWIDE\<close> in the sequence area sets. The columns are those \<open>get_column\<close> reports.
\<close>

section \<open>State and tables\<close>

datatype cobol_token =
    WHITE_SPACES | LINE_PREFIX_COMMENT | LINE_SUFFIX_COMMENT | LINE_COMMENT | COMMENT_ENTRY
  | multiline_string | EXEC_BLOCK

type_synonym cobol_result = "bool \<times> byte \<times> cobol_token lexer"

definition cg_fixed_width :: nat where
  "cg_fixed_width = 72"

definition cg_wide_width :: nat where
  "cg_wide_width = 4096"

definition cg_wide_sentinel :: "code_point list" where
  "cg_wide_sentinel = codes ''CGWIDE''"

definition cobol_create :: byte where
  "cobol_create = 0"

definition cobol_serialize :: "byte \<Rightarrow> byte list" where
  "cobol_serialize wide = [wide]"

definition cobol_deserialize :: "byte \<Rightarrow> byte list \<Rightarrow> byte" where
  "cobol_deserialize wide buffer = (if length buffer \<ge> 1 then hd buffer else 0)"

definition is_white_space :: "code_point \<Rightarrow> bool" where
  "is_white_space c \<longleftrightarrow> iswspace c \<or> c = c_semi \<or> c = c_comma"

definition any_content_keyword :: "string list" where
  "any_content_keyword =
     [''author'', ''installlation'', ''date-written'', ''date-compiled'', ''security'',
      ''identification division'', ''environment division'', ''data division'',
      ''procedure division'']"

definition cg_cobol_max_words :: nat where
  "cg_cobol_max_words = 64"

section \<open>Keywords at the start of a line\<close>

text \<open>
  The pointers into the keywords move together, so one offset \<open>n\<close> stands for them all. \<open>kw_char\<close> is
  the character of a keyword there, 0 at its end; behind the end the C code reads on, but only for
  keywords that no longer match, whose character it does not use.
\<close>

definition kw_char :: "string \<Rightarrow> nat \<Rightarrow> code_point" where
  "kw_char w n = (if n < length w then of_char (w ! n) else 0)"

definition same_letter :: "code_point \<Rightarrow> code_point \<Rightarrow> bool" where
  "same_letter c k \<longleftrightarrow> char_val (to_char c) = towupper k \<or> char_val (to_char c) = towlower k"

text \<open>The \<open>for\<close> loop to the right margin.\<close>

function to_margin :: "nat \<Rightarrow> 'k lexer \<Rightarrow> 'k lexer" where
  "to_margin width l =
     (if get_column l < width - 1 \<and> lookahead l \<noteq> c_nl \<and> lookahead l \<noteq> 0
      then to_margin width (skip l) else l)"
  by pat_completeness auto
termination by (relation "measure (\<lambda>(_, l). remaining l)") auto

declare to_margin.simps [simp del]

function start_word_loop ::
  "nat \<Rightarrow> string list \<Rightarrow> nat \<Rightarrow> bool list \<Rightarrow> 'k lexer \<Rightarrow> bool \<times> 'k lexer" where
  "start_word_loop width words n continue_check l =
     (if get_column l > width - 1 \<or> lookahead l = c_nl \<or> lookahead l = 0 then (False, l)
      else if \<not> list_ex id continue_check then (False, to_margin width l)
      else if list_ex (\<lambda>(w, check). kw_char w n = 0 \<and> check) (zip words continue_check)
      then (True, l)
      else
        start_word_loop width words (n + 1)
          (List.map (\<lambda>(w, check). if check then same_letter (lookahead l) (kw_char w n) else check)
             (zip words continue_check))
          (skip l))"
  by pat_completeness auto
termination by (relation "measure (\<lambda>(_, _, _, _, l). remaining l)") auto

declare start_word_loop.simps [simp del]

definition start_with_word :: "'k lexer \<Rightarrow> string list \<Rightarrow> nat \<Rightarrow> bool \<times> 'k lexer" where
  "start_with_word l words width =
     (let l = advance_while (\<lambda>c. c = c_space \<or> c = c_tab) True l;
          words = take cg_cobol_max_words words in
      start_word_loop width words 0 (replicate (length words) True) l)"

section \<open>The parts of the scan\<close>

definition to_line_end :: "'k lexer \<Rightarrow> 'k lexer" where
  "to_line_end l = advance_while (\<lambda>c. c \<noteq> c_nl \<and> c \<noteq> 0) True l"

text \<open>The sequence area.\<close>

function prefix_loop :: "int \<Rightarrow> 'k lexer \<Rightarrow> int \<times> 'k lexer" where
  "prefix_loop match l =
     (if get_column l \<le> 5 \<and> \<not> eof l \<and> lookahead l \<noteq> c_nl \<and> lookahead l \<noteq> c_cr then
        prefix_loop
          (if match \<ge> 0 \<and> match < 6 \<and> lookahead l = cg_wide_sentinel ! nat match
           then match + 1 else -1)
          (skip l)
      else (match, l))"
  by pat_completeness auto
termination by (relation "measure (\<lambda>(_, l). remaining l)") auto

declare prefix_loop.simps [simp del]

definition scan_line_prefix :: "byte \<Rightarrow> cobol_token lexer \<Rightarrow> cobol_result" where
  "scan_line_prefix wide l =
     (let start_column = get_column l;
          (match, l) = prefix_loop 0 l in
      if get_column l = start_column then (False, wide, l)
      else
        let wide = (if match = 6 then 1 else wide) in
        (True, wide, mark_end (set_result LINE_PREFIX_COMMENT l)))"

text \<open>The loop over the word EXEC, and the one that looks for END-EXEC through a ring of 8 bytes.\<close>

primrec exec_word :: "code_point list \<Rightarrow> 'k lexer \<Rightarrow> bool \<times> 'k lexer" where
  "exec_word [] l = (True, l)"
| "exec_word (k # ks) l =
     (if lookahead l = towupper k \<or> lookahead l = towlower k then exec_word ks (advance l)
      else (False, l))"

definition end_exec :: "byte list" where
  "end_exec = List.map of_char ''end-exec''"

function exec_loop :: "byte list \<Rightarrow> cobol_token lexer \<Rightarrow> bool \<times> cobol_token lexer" where
  "exec_loop ring l =
     (if lookahead l \<noteq> 0 then
        let ring' = tl ring @ [to_char (towlower (lookahead l))]; l' = advance l in
        if ring' = end_exec then (True, mark_end (set_result EXEC_BLOCK l'))
        else exec_loop ring' l'
      else (False, l))"
  by pat_completeness auto
termination by (relation "measure (\<lambda>(_, l). remaining l)") auto

declare exec_loop.simps [simp del]

definition scan_exec_block :: "cobol_token lexer \<Rightarrow> bool \<times> cobol_token lexer" where
  "scan_exec_block l =
     (let (b, l) = exec_word (codes ''exec'') l in
      if b \<and> (lookahead l = c_space \<or> lookahead l = c_tab \<or> lookahead l = c_nl \<or> lookahead l = c_cr)
      then exec_loop (replicate 8 0) l
      else (False, l))"

text \<open>
  String literals. \<open>string_chars\<close> is the innermost loop, \<open>string_body\<close> the loop over the doubled
  quotes of one line, \<open>string_lines\<close> the loop over the lines. The quote is never 0.
\<close>

function string_chars :: "code_point \<Rightarrow> nat \<Rightarrow> 'k lexer \<Rightarrow> 'k lexer" where
  "string_chars qt width l =
     (if lookahead l \<noteq> qt \<and> lookahead l \<noteq> 0 \<and> get_column l < width
      then string_chars qt width (advance l) else l)"
  by pat_completeness auto
termination by (relation "measure (\<lambda>(_, _, l). remaining l)") auto

declare string_chars.simps [simp del]

lemma runs_string_chars [runs_rules]: "runs l0 l \<Longrightarrow> runs l0 (string_chars q width l)"
proof (induction q width l rule: string_chars.induct)
  case (1 q width l)
  then show ?case by (subst string_chars.simps) simp
qed

function string_body :: "code_point \<Rightarrow> nat \<Rightarrow> 'k lexer \<Rightarrow> bool \<times> 'k lexer" where
  "string_body qt width l =
     (let l1 = string_chars qt width l in
      if lookahead l1 \<noteq> qt \<or> lookahead l1 = 0 then (False, l1)
      else
        let l2 = advance l1 in
        if lookahead l2 = qt then string_body qt width (advance l2)
        else (True, l2))"
  by pat_completeness auto
termination
proof (relation "measure (\<lambda>(_, _, l). remaining l)", goal_cases)
  case (2 q width l l1 l2)
  then have "ahead l1 \<noteq> []" using lookahead_nonzero [of l1] by (auto simp: eof_def)
  then have "remaining (advance l2) < remaining l1" using 2 by simp
  moreover have "remaining l1 \<le> remaining l"
    using runs_remaining [OF runs_string_chars [OF runs_refl]] 2(1) by metis
  ultimately show ?case by simp
qed simp

declare string_body.simps [simp del]

lemma fwd_string_body [runs_rules]: "runs l0 l \<Longrightarrow> fwd l0 (string_body q width l)"
proof (induction q width l rule: string_body.induct)
  case (1 q width l)
  then show ?case
    by (subst string_body.simps) (auto simp: Let_def intro!: runs_rules)
qed

text \<open>The six columns of the sequence area on a continuation line.\<close>

primrec skip_sequence_area :: "nat \<Rightarrow> 'k lexer \<Rightarrow> bool \<times> 'k lexer" where
  "skip_sequence_area 0 l = (True, l)"
| "skip_sequence_area (Suc n) l =
     (if lookahead l = 0 \<or> lookahead l = c_nl then (False, l) else skip_sequence_area n (skip l))"

lemma fwd_skip_sequence_area [runs_rules]: "runs l0 l \<Longrightarrow> fwd l0 (skip_sequence_area n l)"
  by (induction n arbitrary: l) (auto intro!: runs_rules)

function continuation_blanks :: "nat \<Rightarrow> 'k lexer \<Rightarrow> 'k lexer" where
  "continuation_blanks width l =
     (if lookahead l = c_space \<and> get_column l < width then continuation_blanks width (skip l) else l)"
  by pat_completeness auto
termination by (relation "measure (\<lambda>(_, l). remaining l)") auto

declare continuation_blanks.simps [simp del]

lemma runs_continuation_blanks [runs_rules]: "runs l0 l \<Longrightarrow> runs l0 (continuation_blanks width l)"
proof (induction width l rule: continuation_blanks.induct)
  case (1 width l)
  then show ?case by (subst continuation_blanks.simps) simp
qed

text \<open>From behind the text of one line to the quote that continues the literal on the next.\<close>

definition next_string_line :: "nat \<Rightarrow> 'k lexer \<Rightarrow> bool \<times> 'k lexer" where
  "next_string_line width l =
     (let l = to_line_end l in
      if lookahead l = 0 then (False, l)
      else
        let l = skip l;
            (b, l) = skip_sequence_area 6 l in
        if \<not> b then (False, l)
        else if lookahead l \<noteq> c_minus then (False, l)
        else (True, continuation_blanks width (skip l)))"

lemma fwd_next_string_line [runs_rules]: "runs l0 l \<Longrightarrow> fwd l0 (next_string_line width l)"
  unfolding next_string_line_def to_line_end_def by (intro runs_rules)

function string_lines :: "code_point \<Rightarrow> nat \<Rightarrow> cobol_token lexer \<Rightarrow> bool \<times> cobol_token lexer" where
  "string_lines qt width l =
     (if lookahead l \<noteq> qt \<or> lookahead l = 0 then (False, l)
      else
        case string_body qt width (advance l) of (closed, l1) \<Rightarrow>
          if closed then (True, mark_end (set_result multiline_string l1))
          else
            case next_string_line width l1 of (b, l2) \<Rightarrow>
              if b then string_lines qt width l2 else (False, l2))"
  by pat_completeness auto
termination
proof (relation "measure (\<lambda>(_, _, l). remaining l)", goal_cases)
  case (2 q width l closed l1 b l2)
  have "runs (advance l) l1"
    using fwd_string_body [OF runs_refl, of "advance l" q width] 2(2) [symmetric] by (simp add: fwd_def)
  then have "runs (advance l) l2"
    using fwd_next_string_line [of "advance l" l1 width] 2(4) [symmetric] by (simp add: fwd_def)
  then have "remaining l2 \<le> remaining (advance l)" by (rule runs_remaining)
  moreover have "remaining (advance l) < remaining l" using 2(1) by auto
  ultimately show ?case by simp
qed simp

declare string_lines.simps [simp del]

section \<open>The scan\<close>

definition cobol_width :: "byte \<Rightarrow> nat" where
  "cobol_width wide = (if wide \<noteq> 0 then cg_wide_width else cg_fixed_width)"

text \<open>The tokens that do not depend on the columns of the line.\<close>

definition cobol_scan_rest :: "byte \<Rightarrow> cobol_token lexer \<Rightarrow> (cobol_token \<Rightarrow> bool) \<Rightarrow> cobol_result" where
  "cobol_scan_rest wide l valid =
     (if valid COMMENT_ENTRY then
        let (b, l) = start_with_word l any_content_keyword (cobol_width wide) in
        if \<not> b then (True, wide, set_result COMMENT_ENTRY (mark_end l)) else (False, wide, l)
      else if valid EXEC_BLOCK \<and> (lookahead l = c_e \<or> lookahead l = c_upper_E) then
        let (b, l) = scan_exec_block l in (b, wide, l)
      else if valid multiline_string then
        if lookahead l \<noteq> c_dquote \<and> lookahead l \<noteq> c_squote then (False, wide, l)
        else let (b, l) = string_lines (lookahead l) (cobol_width wide) l in (b, wide, l)
      else (False, wide, l))"

definition cobol_scan :: "byte \<Rightarrow> cobol_token lexer \<Rightarrow> (cobol_token \<Rightarrow> bool) \<Rightarrow> cobol_result" where
  "cobol_scan wide l valid =
     (if lookahead l = 0 then (False, wide, l)
      else if valid WHITE_SPACES \<and> is_white_space (lookahead l) then
        (True, wide, mark_end (set_result WHITE_SPACES (advance_while is_white_space True l)))
      else if valid LINE_PREFIX_COMMENT \<and> get_column l \<le> 5 then scan_line_prefix wide l
      else if valid LINE_COMMENT \<and> get_column l = 6 then
        if lookahead l = c_star \<or> lookahead l = c_slash then
          (True, wide, mark_end (set_result LINE_COMMENT (to_line_end l)))
        else (False, wide, mark_end (skip l))
      else if valid LINE_SUFFIX_COMMENT \<and> get_column l \<ge> cobol_width wide then
        (True, wide, mark_end (set_result LINE_SUFFIX_COMMENT (to_line_end l)))
      else cobol_scan_rest wide l valid)"

definition cobol_scan_fun :: "(byte, cobol_token) scan_fun" where
  "cobol_scan_fun wide l valid = Some (cobol_scan wide l valid)"

section \<open>The cursor\<close>

lemma runs_to_margin [runs_rules]: "runs l0 l \<Longrightarrow> runs l0 (to_margin width l)"
proof (induction width l rule: to_margin.induct)
  case (1 width l)
  then show ?case by (subst to_margin.simps) simp
qed

lemma fwd_start_with_word [runs_rules]: "runs l0 l \<Longrightarrow> fwd l0 (start_with_word l words width)"
proof -
  have "runs l0 l \<Longrightarrow> fwd l0 (start_word_loop width ws n cs l)" for ws n cs l
  proof (induction width ws n cs l rule: start_word_loop.induct)
    case (1 width ws n cs l)
    then show ?case by (subst start_word_loop.simps) (auto intro!: runs_rules)
  qed
  then show "runs l0 l \<Longrightarrow> fwd l0 (start_with_word l words width)"
    by (simp add: start_with_word_def Let_def runs_advance_while)
qed

lemma fwd_prefix_loop [runs_rules]: "runs l0 l \<Longrightarrow> fwd l0 (prefix_loop n l)"
proof (induction n l rule: prefix_loop.induct)
  case (1 n l)
  then show ?case by (subst prefix_loop.simps) (auto intro!: runs_rules)
qed

lemma fwd3_scan_line_prefix [runs_rules]: "runs l0 l \<Longrightarrow> fwd3 l0 (scan_line_prefix wide l)"
  using fwd_prefix_loop [of l0 l 0]
  by (simp add: scan_line_prefix_def Let_def split_beta fwd_def fwd3_def)

lemma fwd_exec_word [runs_rules]: "runs l0 l \<Longrightarrow> fwd l0 (exec_word ks l)"
  by (induction ks arbitrary: l) (auto intro!: runs_rules)

lemma fwd_exec_loop [runs_rules]: "runs l0 l \<Longrightarrow> fwd l0 (exec_loop ring l)"
proof (induction ring l rule: exec_loop.induct)
  case (1 ring l)
  then show ?case by (subst exec_loop.simps) (auto simp: Let_def intro!: runs_rules)
qed

lemma fwd_scan_exec_block [runs_rules]: "runs l0 l \<Longrightarrow> fwd l0 (scan_exec_block l)"
  unfolding scan_exec_block_def by (intro runs_rules)

lemma fwd_string_lines [runs_rules]: "runs l0 l \<Longrightarrow> fwd l0 (string_lines q width l)"
proof (induction q width l rule: string_lines.induct)
  case (1 q width l)
  have "fwd l0 (string_body q width (advance l))" using 1 by (intro runs_rules)
  moreover have "fwd l0 (next_string_line width l1)" if "runs l0 l1" for l1
    using that by (rule fwd_next_string_line)
  ultimately show ?case
    using 1 by (subst string_lines.simps) (fastforce simp: fwd_def split: prod.splits)
qed

lemma fwd3_cobol_scan: "runs l0 l \<Longrightarrow> fwd3 l0 (cobol_scan wide l valid)"
  unfolding cobol_scan_def cobol_scan_rest_def to_line_end_def by (intro runs_rules)

interpretation cobol:
  resetting_scanner cobol_create "\<lambda>_. True" cobol_serialize cobol_deserialize cobol_scan_fun
proof unfold_locales
  fix s l v ok s' l'
  assume "cobol_scan_fun s l v = Some (ok, s', l')"
  then show "runs l l'"
    using fwd3_cobol_scan [OF runs_refl, of l s v] by (simp add: cobol_scan_fun_def fwd3D)
qed (simp_all add: cobol_serialize_def cobol_deserialize_def cobol_create_def
    serialization_buffer_size_def)

section \<open>The words that end a comment entry\<close>

text \<open>
  What the loop looks for: the letters of a keyword \<open>w\<close>, in either case, all on the line and before
  the margin, and one more character of the line behind them.
\<close>

definition on_line :: "nat \<Rightarrow> 'k lexer \<Rightarrow> bool" where
  "on_line width l \<longleftrightarrow> get_column l \<le> width - 1 \<and> lookahead l \<noteq> c_nl \<and> lookahead l \<noteq> 0"

definition spelled :: "'k lexer \<Rightarrow> string \<Rightarrow> nat \<Rightarrow> bool" where
  "spelled l w n \<longleftrightarrow> n \<le> length w \<and>
     (\<forall>j<n. same_letter (lookahead (advance_n True j l)) (of_char (w ! j)))"

definition word_at :: "nat \<Rightarrow> string \<Rightarrow> 'k lexer \<Rightarrow> bool" where
  "word_at width w l \<longleftrightarrow> spelled l w (length w) \<and> (\<forall>j\<le>length w. on_line width (advance_n True j l))"

lemma spelled_Suc:
  "spelled l w (Suc n) \<longleftrightarrow> spelled l w n \<and> n < length w \<and>
     same_letter (lookahead (advance_n True n l)) (of_char (w ! n))"
  by (auto simp: spelled_def less_Suc_eq)

lemma spelled_le: "spelled l w n \<Longrightarrow> n \<le> length w"
  by (simp add: spelled_def)

lemma spelled_mono: "spelled l w m \<Longrightarrow> n \<le> m \<Longrightarrow> spelled l w n"
  by (auto simp: spelled_def)

lemma start_word_loop_spec:
  fixes l0 :: "'k lexer"
  assumes nul: "list_all (\<lambda>w. list_all (\<lambda>c. of_char c \<noteq> (0 :: int)) w) words"
    and "l = advance_n True n l0" and "\<forall>j<n. on_line width (advance_n True j l0)"
    and "\<forall>w \<in> set words. length w < n \<longrightarrow> \<not> spelled l0 w (length w)"
  shows "fst (start_word_loop width words n (List.map (\<lambda>w. spelled l0 w n) words) l) \<longleftrightarrow>
    list_ex (\<lambda>w. word_at width w l0) words"
  using assms(2-)
proof (induction "remaining l" arbitrary: n l rule: less_induct)
  case less
  let ?S = "\<lambda>n. List.map (\<lambda>w. spelled l0 w n) words"
  show ?case
  proof (cases "on_line width l")
    case False
    then have "\<not> fst (start_word_loop width words n (?S n) l)"
      by (auto simp: start_word_loop.simps [of width words n _ l] on_line_def)
    moreover have "\<not> word_at width w l0" if "w \<in> set words" for w
    proof (cases "n \<le> length w")
      case True
      with False less.prems(1) show ?thesis by (auto simp: word_at_def)
    next
      case False
      with less.prems(3) that show ?thesis by (auto simp: word_at_def)
    qed
    ultimately show ?thesis by (auto simp: list_ex_iff)
  next
    case on: True
    have kw: "kw_char w n = 0 \<longleftrightarrow> n = length w" if "w \<in> set words" "spelled l0 w n" for w
      using that nul by (auto simp: kw_char_def spelled_def list_all_iff)
    show ?thesis
    proof (cases "\<exists>w \<in> set words. spelled l0 w n")
      case False
      then have "\<not> fst (start_word_loop width words n (?S n) l)"
        by (auto simp: start_word_loop.simps [of width words n _ l] list_ex_iff)
      moreover have "\<not> word_at width w l0" if "w \<in> set words" for w
        using False less.prems(3) that spelled_mono [of l0 w "length w" n]
        by (auto simp: word_at_def not_less)
      ultimately show ?thesis by (auto simp: list_ex_iff)
    next
      case alive: True
      show ?thesis
      proof (cases "\<exists>w \<in> set words. spelled l0 w n \<and> n = length w")
        case True
        then obtain w where w: "w \<in> set words" "spelled l0 w n" "n = length w" by blast
        have "list_ex (\<lambda>(w, check). kw_char w n = 0 \<and> check) (zip words (?S n))"
          using w kw by (auto simp: list_ex_iff zip_map2 zip_same_conv_map)
        moreover have "list_ex id (?S n)" using alive by (auto simp: list_ex_iff)
        ultimately have "fst (start_word_loop width words n (?S n) l)"
          using on by (auto simp: start_word_loop.simps [of width words n _ l] on_line_def)
        moreover have "word_at width w l0"
          using w on less.prems(1,2) by (auto simp: word_at_def le_less)
        ultimately show ?thesis using w(1) by (auto simp: list_ex_iff)
      next
        case False
        have lt: "n < length w" if "w \<in> set words" "spelled l0 w n" for w
          using False that spelled_le [OF that(2)] by (auto simp: le_less)
        have next_S: "List.map (\<lambda>(w, check). if check then same_letter (lookahead l) (kw_char w n) else check)
            (zip words (?S n)) = ?S (Suc n)"
          using less.prems(1)
          by (auto simp: zip_map2 zip_same_conv_map kw_char_def spelled_Suc lt)
        have "\<not> list_ex (\<lambda>(w, check). kw_char w n = 0 \<and> check) (zip words (?S n))"
          using False kw by (auto simp: list_ex_iff zip_map2 zip_same_conv_map)
        moreover have "list_ex id (?S n)" using alive by (auto simp: list_ex_iff)
        ultimately have step: "start_word_loop width words n (?S n) l =
            start_word_loop width words (Suc n) (?S (Suc n)) (skip l)"
          using on next_S by (simp add: start_word_loop.simps [of width words n _ l] on_line_def)
        have "remaining (skip l) < remaining l" using on by (simp add: on_line_def)
        then show ?thesis
          unfolding step
        proof (rule less.hyps)
          show "skip l = advance_n True (Suc n) l0"
            using less.prems(1) by (simp add: lex_advance_advance_n)
          show "\<forall>j<Suc n. on_line width (advance_n True j l0)"
            using less.prems(1,2) on by (auto simp: less_Suc_eq)
          show "\<forall>w \<in> set words. length w < Suc n \<longrightarrow> \<not> spelled l0 w (length w)"
            using less.prems(3) False by (auto simp: less_Suc_eq)
        qed
      qed
    qed
  qed
qed

lemma any_content_keyword_nonzero:
  "list_all (\<lambda>w. list_all (\<lambda>c. of_char c \<noteq> (0 :: int)) w) any_content_keyword"
  by (simp add: any_content_keyword_def)

lemma start_with_word_spec:
  fixes l :: "'k lexer"
  shows "fst (start_with_word l any_content_keyword width) \<longleftrightarrow>
    list_ex (\<lambda>w. word_at width w (advance_while (\<lambda>c. c = c_space \<or> c = c_tab) True l))
      any_content_keyword"
proof -
  have "take cg_cobol_max_words any_content_keyword = any_content_keyword"
    by (simp add: cg_cobol_max_words_def any_content_keyword_def)
  moreover define m where "m = advance_while (\<lambda>c. c = c_space \<or> c = c_tab) True l"
  have "fst (start_word_loop width any_content_keyword 0
      (List.map (\<lambda>w. spelled m w 0) any_content_keyword) m) \<longleftrightarrow>
    list_ex (\<lambda>w. word_at width w m) any_content_keyword"
    by (rule start_word_loop_spec [OF any_content_keyword_nonzero]) simp_all
  moreover have "List.map (\<lambda>w. spelled m w 0) any_content_keyword =
      replicate (length any_content_keyword) True"
    by (simp add: spelled_def map_replicate_const)
  ultimately show ?thesis by (simp add: start_with_word_def Let_def m_def)
qed

section \<open>EXEC blocks\<close>

text \<open>A character as the ring compares it, and the text behind which END-EXEC has been read.\<close>

definition ring_char :: "code_point \<Rightarrow> byte" where
  "ring_char c = to_char (towlower c)"

definition ends_exec :: "code_point list \<Rightarrow> bool" where
  "ends_exec cs \<longleftrightarrow> suffix end_exec (List.map ring_char cs)"

definition ring_of :: "code_point list \<Rightarrow> byte list" where
  "ring_of cs = drop (length cs) (replicate 8 0 @ List.map ring_char cs)"

lemma ring_of_snoc: "ring_of (cs @ [c]) = tl (ring_of cs) @ [to_char (towlower c)]"
proof -
  let ?X = "replicate 8 0 @ List.map ring_char cs"
  have app: "n \<le> length xs \<Longrightarrow> drop n (xs @ ys) = drop n xs @ ys" for n and xs ys :: "byte list"
    by simp
  have "ring_of (cs @ [c]) = drop (Suc (length cs)) (?X @ [ring_char c])"
    by (simp add: ring_of_def)
  also have "\<dots> = drop (Suc (length cs)) ?X @ [ring_char c]" by (rule app) simp
  also have "drop (Suc (length cs)) ?X = tl (drop (length cs) ?X)"
    by (simp only: drop_Suc tl_drop)
  finally show ?thesis by (simp only: ring_of_def ring_char_def)
qed

lemma suffix_iff_drop:
  "suffix ys xs \<longleftrightarrow> length ys \<le> length xs \<and> drop (length xs - length ys) xs = ys"
  using suffix_drop [of "length xs - length ys" xs] by (auto simp: suffix_def)

lemma length_end_exec [simp]: "length end_exec = 8"
  by (simp add: end_exec_def)

lemma ring_of_end: "ring_of cs = end_exec \<longleftrightarrow> ends_exec cs"
proof (cases "8 \<le> length cs")
  case True
  then show ?thesis
    by (simp add: ring_of_def ends_exec_def suffix_iff_drop)
next
  case False
  then have "hd (ring_of cs) = 0" by (simp add: ring_of_def hd_append)
  then have "ring_of cs \<noteq> end_exec" by (auto simp: end_exec_def)
  moreover have "\<not> ends_exec cs"
    using False by (simp add: ends_exec_def suffix_iff_drop)
  ultimately show ?thesis by simp
qed

text \<open>The loop stops behind the first END-EXEC, if there is one before the end or a NUL.\<close>

lemma exec_loop_finds:
  assumes "text_ahead l = xs @ ys" and "0 \<notin> set xs" and "xs \<noteq> []" and "ends_exec (done @ xs)"
    and "\<forall>n. 0 < n \<longrightarrow> n < length xs \<longrightarrow> \<not> ends_exec (done @ take n xs)"
  shows "exec_loop (ring_of done) l =
    (True, mark_end (set_result EXEC_BLOCK (advance_n False (length xs) l)))"
  using assms
proof (induction xs arbitrary: l "done")
  case (Cons c xs)
  from Cons.prems(1) have "text_ahead l = c # xs @ ys" by simp
  note c = text_ahead_ConsD [OF this]
  have ring: "tl (ring_of done) @ [to_char (towlower c)] = ring_of (done @ [c])"
    by (simp add: ring_of_snoc)
  have step: "exec_loop (ring_of done) l =
      (if ends_exec (done @ [c]) then (True, mark_end (set_result EXEC_BLOCK (advance l)))
       else exec_loop (ring_of (done @ [c])) (advance l))"
    using Cons.prems(2) c
    by (simp add: exec_loop.simps [of "ring_of done" l] ring ring_of_end Let_def)
  show ?case
  proof (cases "xs = []")
    case True
    with Cons.prems(4) step show ?thesis by simp
  next
    case False
    then have "\<not> ends_exec (done @ [c])"
      using Cons.prems(5) [rule_format, of 1] by simp
    moreover have "exec_loop (ring_of (done @ [c])) (advance l) =
        (True, mark_end (set_result EXEC_BLOCK (advance_n False (length xs) (advance l))))"
      using Cons.prems(2,4) False Cons.prems(5) [rule_format, of "Suc _"]
      by (intro Cons.IH [OF c(1)]) auto
    ultimately show ?thesis using step by (simp add: advance_n_Suc)
  qed
qed simp

lemma exec_loop_fails:
  assumes "text_ahead l = xs @ ys" and "0 \<notin> set xs" and "ys = [] \<or> hd ys = 0"
    and "\<forall>n. 0 < n \<longrightarrow> n \<le> length xs \<longrightarrow> \<not> ends_exec (done @ take n xs)"
  shows "\<not> fst (exec_loop (ring_of done) l)"
  using assms
proof (induction xs arbitrary: l "done")
  case Nil
  then have "lookahead l = 0" by (cases ys) (auto simp: lookahead_text)
  then show ?case by (simp add: exec_loop.simps [of "ring_of done" l])
next
  case (Cons c xs)
  from Cons.prems(1) have "text_ahead l = c # xs @ ys" by simp
  note c = text_ahead_ConsD [OF this]
  have ring: "tl (ring_of done) @ [to_char (towlower c)] = ring_of (done @ [c])"
    by (simp add: ring_of_snoc)
  have "\<not> ends_exec (done @ [c])"
    using Cons.prems(4) [rule_format, of 1] by simp
  then have "exec_loop (ring_of done) l = exec_loop (ring_of (done @ [c])) (advance l)"
    using Cons.prems(2) c
    by (simp add: exec_loop.simps [of "ring_of done" l] ring ring_of_end Let_def)
  moreover have "\<not> fst (exec_loop (ring_of (done @ [c])) (advance l))"
    using Cons.prems(2,3) Cons.prems(4) [rule_format, of "Suc _"]
    by (intro Cons.IH [OF c(1)]) auto
  ultimately show ?case by simp
qed

lemma exec_word_text:
  "List.map towlower ws = ks \<Longrightarrow> list_all (\<lambda>k. towlower k = k) ks \<Longrightarrow> list_all iswalpha ws \<Longrightarrow>
    text_ahead l = ws @ cs \<Longrightarrow> exec_word ks l = (True, advance_n False (length ws) l)"
proof (induction ws arbitrary: ks l)
  case (Cons w ws)
  from Cons.prems(4) have "text_ahead l = w # ws @ cs" by simp
  note c = text_ahead_ConsD [OF this]
  have "w = towupper (towlower w) \<or> w = towlower w"
    using Cons.prems(3) by (auto simp: iswalpha_def towlower_def towupper_def)
  with c Cons.prems(1,2,3) Cons.IH [OF _ _ _ c(1)] show ?case
    by (auto simp: advance_n_Suc)
qed simp

section \<open>Literals on one line\<close>

text \<open>A quote inside a literal is written twice.\<close>

fun double_quotes :: "code_point \<Rightarrow> code_point list \<Rightarrow> code_point list" where
  "double_quotes qt [] = []"
| "double_quotes qt (c # cs) = (if c = qt then qt # qt # double_quotes qt cs else c # double_quotes qt cs)"

lemma string_chars_step:
  "lookahead l \<noteq> q \<Longrightarrow> lookahead l \<noteq> 0 \<Longrightarrow> get_column l < width \<Longrightarrow>
    string_body q width l = string_body q width (advance l)"
  by (simp add: string_body.simps [of q width l] string_body.simps [of q width "advance l"]
      string_chars.simps [of q width l])

lemma string_body_quote:
  assumes "lookahead l = q" and "q \<noteq> 0"
  shows "string_body q width l =
    (if lookahead (advance l) = q then string_body q width (advance (advance l)) else (True, advance l))"
  using assms by (simp add: string_body.simps [of q width l] string_chars.simps [of q width l] Let_def)

lemma get_column_Cons: "ahead l = c # cs \<Longrightarrow> get_column l = column c"
  by (simp add: get_column_def)

lemma string_body_doubled:
  assumes "text_ahead l = double_quotes q xs @ q # rest" and "q \<noteq> 0" and "0 \<notin> set xs"
    and "rest = [] \<or> hd rest \<noteq> q"
    and "list_all (\<lambda>c. column c < width) (take (length (double_quotes q xs)) (ahead l))"
  shows "string_body q width l = (True, advance_n False (Suc (length (double_quotes q xs))) l)"
  using assms(1,3,5)
proof (induction xs arbitrary: l)
  case Nil
  then have "text_ahead l = q # rest" by simp
  note c = text_ahead_ConsD [OF this]
  have "lookahead (advance l) \<noteq> q"
    unfolding lookahead_text c(1) using assms(2,4) by (cases rest) simp_all
  with c assms(2) show ?case by (simp add: string_body_quote)
next
  case (Cons x xs)
  show ?case
  proof (cases "x = q")
    case True
    with Cons.prems(1) have "text_ahead l = q # q # double_quotes q xs @ q # rest" by simp
    note c = text_ahead_ConsD [OF this]
    note d = text_ahead_ConsD [OF c(1)]
    have "list_all (\<lambda>c. column c < width) (take (length (double_quotes q xs)) (ahead (advance (advance l))))"
      using Cons.prems(3) True by (cases "ahead l"; cases "tl (ahead l)") auto
    then have "string_body q width (advance (advance l)) =
        (True, advance_n False (Suc (length (double_quotes q xs))) (advance (advance l)))"
      using Cons.prems(2) by (intro Cons.IH [OF d(1)]) auto
    with c d True assms(2) show ?thesis by (simp add: string_body_quote advance_n_Suc)
  next
    case False
    with Cons.prems(1) have "text_ahead l = x # double_quotes q xs @ q # rest" by simp
    note c = text_ahead_ConsD [OF this]
    have "list_all (\<lambda>c. column c < width) (take (length (double_quotes q xs)) (ahead (advance l)))"
      and col: "get_column l < width"
      using Cons.prems(3) False c(3) by (cases "ahead l"; auto simp: get_column_def eof_def)+
    then have "string_body q width (advance l) =
        (True, advance_n False (Suc (length (double_quotes q xs))) (advance l))"
      using Cons.prems(2) by (intro Cons.IH [OF c(1)]) auto
    with c col False Cons.prems(2) show ?thesis
      by (simp add: string_chars_step advance_n_Suc)
  qed
qed

section \<open>The sentinel\<close>

lemma length_sentinel [simp]: "length cg_wide_sentinel = 6"
  by (simp add: cg_wide_sentinel_def)

lemma prefix_loop_six:
  "fst (prefix_loop m l) = 6 \<Longrightarrow> 0 \<le> m \<and> m \<le> 6 \<and> prefix (drop (nat m) cg_wide_sentinel) (text_ahead l)"
proof (induction m l rule: prefix_loop.induct)
  case (1 m l)
  show ?case
  proof (cases "get_column l \<le> 5 \<and> \<not> eof l \<and> lookahead l \<noteq> c_nl \<and> lookahead l \<noteq> c_cr")
    case True
    let ?m = "if m \<ge> 0 \<and> m < 6 \<and> lookahead l = cg_wide_sentinel ! nat m then m + 1 else -1"
    have "fst (prefix_loop ?m (skip l)) = 6"
      using 1(2) True by (simp add: prefix_loop.simps [of m l])
    with 1(1) [OF True] have IH: "0 \<le> ?m" "prefix (drop (nat ?m) cg_wide_sentinel) (text_ahead (skip l))"
      by blast+
    then have m: "0 \<le> m" "m < 6" "lookahead l = cg_wide_sentinel ! nat m"
      by (auto split: if_splits)
    then have "drop (nat m) cg_wide_sentinel = lookahead l # drop (nat ?m) cg_wide_sentinel"
      by (simp add: Cons_nth_drop_Suc [symmetric] nat_add_distrib)
    moreover have "text_ahead l = lookahead l # text_ahead (skip l)"
      using True by (intro text_ahead_look) simp
    ultimately show ?thesis using m IH(2) by simp
  next
    case False
    then have "m = 6" using 1(2) by (auto simp: prefix_loop.simps [of m l])
    then show ?thesis by simp
  qed
qed

lemma prefix_loop_sentinel:
  assumes "prefix cg_wide_sentinel (text_ahead l)"
    and "\<forall>j\<le>6. get_column (advance_n True j l) = j" and "j \<le> 6"
  shows "prefix_loop (int j) (advance_n True j l) = (6, advance_n True 6 l)"
  using assms(3)
proof (induction j rule: inc_induct)
  case base
  then show ?case
    using assms(2) by (simp add: prefix_loop.simps [of 6])
next
  case (step j)
  obtain rest where t: "text_ahead l = cg_wide_sentinel @ rest"
    using assms(1) by (auto simp: prefix_def)
  let ?l = "advance_n True j l"
  have "text_ahead ?l = drop j cg_wide_sentinel @ rest"
    unfolding text_ahead_drop t using step(2) by simp
  also have "drop j cg_wide_sentinel = cg_wide_sentinel ! j # drop (Suc j) cg_wide_sentinel"
    using step(2) by (simp add: Cons_nth_drop_Suc)
  finally have "text_ahead ?l = cg_wide_sentinel ! j # drop (Suc j) cg_wide_sentinel @ rest" by simp
  note c = text_ahead_ConsD [OF this]
  have "cg_wide_sentinel ! j \<in> set cg_wide_sentinel" using step(2) by simp
  then have "cg_wide_sentinel ! j \<noteq> c_nl \<and> cg_wide_sentinel ! j \<noteq> c_cr"
    by (auto simp: cg_wide_sentinel_def)
  moreover have "get_column ?l \<le> 5" using assms(2) step(2) by simp
  ultimately have "prefix_loop (int j) ?l = prefix_loop (int (Suc j)) (skip ?l)"
    using c step(2) by (simp add: prefix_loop.simps [of "int j" ?l] ac_simps)
  with step(3) show ?case by (simp add: lex_advance_advance_n)
qed

section \<open>Properties\<close>

text \<open>The wide flag is set by the sentinel alone: in the sequence area of a line, scanned from its
first column, the flag becomes 1 exactly when the six characters are CGWIDE, and keeps its value
otherwise.\<close>

theorem cobol_wide_sentinel:
  assumes "valid LINE_PREFIX_COMMENT" and "\<not> is_white_space (lookahead l)" and "lookahead l \<noteq> 0"
    and "\<forall>j\<le>6. get_column (advance_n True j l) = j"
  shows "\<exists>ok l'. cobol_scan wide l valid =
    (ok, if prefix cg_wide_sentinel (text_ahead l) then 1 else wide, l')"
proof -
  have col: "get_column l = 0" using assms(4) [rule_format, of 0] by simp
  have scan: "cobol_scan wide l valid = scan_line_prefix wide l"
    using assms(1-3) col by (simp add: cobol_scan_def)
  obtain m l1 where p: "prefix_loop 0 l = (m, l1)" by fastforce
  show ?thesis
  proof (cases "prefix cg_wide_sentinel (text_ahead l)")
    case True
    with prefix_loop_sentinel [OF True assms(4), of 0] have "prefix_loop 0 l = (6, advance_n True 6 l)"
      by simp
    with True col assms(4) show ?thesis
      by (auto simp: scan scan_line_prefix_def Let_def)
  next
    case False
    with prefix_loop_six [of 0 l] p have "m \<noteq> 6" by auto
    with False p show ?thesis
      by (auto simp: scan scan_line_prefix_def Let_def)
  qed
qed

theorem cobol_wide_sentinel_witness:
  "\<exists>ok l'. cobol_scan 0 (lexer_on (codes ''CGWIDE ID'')) (\<lambda>k. k = LINE_PREFIX_COMMENT) = (ok, 1, l')"
proof -
  have "j = 0 \<or> j = 1 \<or> j = 2 \<or> j = 3 \<or> j = 4 \<or> j = 5 \<or> j = 6" if "j \<le> 6" for j :: nat
    using that by linarith
  then have "\<forall>j\<le>6. get_column (advance_n True j (lexer_on (codes ''CGWIDE ID'')) :: cobol_token lexer) = j"
    by (fastforce simp: get_column_def lexer_on_def start_lexer_def)
  then show ?thesis
    using cobol_wide_sentinel [of "\<lambda>k. k = LINE_PREFIX_COMMENT" "lexer_on (codes ''CGWIDE ID'')" 0]
    by (simp add: lookahead_text is_white_space_def iswspace_def cg_wide_sentinel_def)
qed

text \<open>
  The reference, on the text of the line: a keyword heads the line when the line starts with its
  letters, in either case.
\<close>

definition heads_line :: "string \<Rightarrow> code_point list \<Rightarrow> bool" where
  "heads_line w line \<longleftrightarrow> length w \<le> length line \<and> List.map towlower (take (length w) line) = codes w"

lemma same_letter_ascii:
  assumes "-128 \<le> c" "c < 128" and "towlower k = k"
  shows "same_letter c k \<longleftrightarrow> towlower c = k"
  unfolding same_letter_def char_val_to_char [OF assms(1,2)]
  using assms(3) by (auto simp: towlower_def towupper_def split: if_splits)

lemma any_content_keyword_lower:
  "list_all (\<lambda>w. list_all (\<lambda>c. towlower (of_char c) = of_char c) w) any_content_keyword"
  by (simp add: any_content_keyword_def towlower_def)

text \<open>The cursor inside a line whose characters all stand before the margin.\<close>

definition in_line :: "nat \<Rightarrow> code_point list \<Rightarrow> code_point list \<Rightarrow> 'k lexer \<Rightarrow> bool" where
  "in_line width line rest l \<longleftrightarrow> text_ahead l = line @ rest \<and> c_nl \<notin> set line \<and> 0 \<notin> set line \<and>
     (rest = [] \<or> hd rest = c_nl) \<and> list_all (\<lambda>c. column c < width - 1) (take (length line) (ahead l))"

lemma in_line_Nil: "in_line width [] rest l \<Longrightarrow> lookahead l = c_nl \<or> lookahead l = 0"
  by (cases rest) (auto simp: in_line_def lookahead_text)

lemma in_line_Cons:
  assumes "in_line width (c # line) rest l"
  shows "lookahead l = c" "c \<noteq> c_nl" "c \<noteq> 0" "get_column l < width - 1" "in_line width line rest (skip l)"
    "on_line width l"
proof -
  have t: "text_ahead l = c # line @ rest" using assms by (simp add: in_line_def)
  note d = text_ahead_ConsD [OF t]
  show "lookahead l = c" "c \<noteq> c_nl" "c \<noteq> 0" using d(2) assms by (auto simp: in_line_def)
  show col: "get_column l < width - 1"
    using assms by (cases "ahead l") (auto simp: in_line_def get_column_def)
  show "in_line width line rest (skip l)"
    using assms d(1) by (cases "ahead l") (auto simp: in_line_def)
  show "on_line width l" using col \<open>c \<noteq> c_nl\<close> \<open>c \<noteq> 0\<close> d(2) by (simp add: on_line_def)
qed

lemma to_margin_line: "in_line width line rest l \<Longrightarrow> to_margin width l = advance_n True (length line) l"
proof (induction line arbitrary: l)
  case Nil
  then show ?case using in_line_Nil [OF Nil] by (auto simp: to_margin.simps [of width l])
next
  case (Cons c line)
  note d = in_line_Cons [OF Cons.prems]
  then show ?case using Cons.IH [OF d(5)] by (simp add: to_margin.simps [of width l] advance_n_Suc)
qed

lemma start_word_loop_line:
  assumes "in_line width line rest l" and "\<not> fst (start_word_loop width words n cs l)"
  shows "snd (start_word_loop width words n cs l) = advance_n True (length line) l"
  using assms
proof (induction line arbitrary: l n cs)
  case Nil
  then show ?case using in_line_Nil [OF Nil(1)] by (auto simp: start_word_loop.simps [of width words n cs l])
next
  case (Cons c line)
  note d = in_line_Cons [OF Cons.prems(1)]
  then show ?case
    using Cons.prems to_margin_line [OF Cons.prems(1)] Cons.IH [OF d(5)]
    by (subst start_word_loop.simps)
      (auto simp: start_word_loop.simps [of width words n cs l] advance_n_Suc on_line_def split: if_splits)
qed

lemma in_line_drop: "in_line width line rest l \<Longrightarrow> j \<le> length line \<Longrightarrow>
    in_line width (drop j line) rest (advance_n True j l)"
proof (induction j arbitrary: line l)
  case (Suc j)
  then obtain c line' where line: "line = c # line'" by (cases line) auto
  with Suc.prems(1) have "in_line width (c # line') rest l" by simp
  from Suc.IH [OF in_line_Cons(5) [OF this]] Suc.prems(2) line show ?case by (simp add: advance_n_Suc)
qed simp

lemma on_line_iff:
  assumes "in_line width line rest l"
  shows "(\<forall>j\<le>n. on_line width (advance_n True j l)) \<longleftrightarrow> n < length line"
proof
  assume all: "\<forall>j\<le>n. on_line width (advance_n True j l)"
  show "n < length line"
  proof (rule ccontr)
    assume "\<not> n < length line"
    then have "on_line width (advance_n True (length line) l)" using all by simp
    moreover have "in_line width [] rest (advance_n True (length line) l)"
      using in_line_drop [OF assms, of "length line"] by simp
    ultimately show False using in_line_Nil by (auto simp: on_line_def)
  qed
next
  assume n: "n < length line"
  show "\<forall>j\<le>n. on_line width (advance_n True j l)"
  proof (intro allI impI)
    fix j assume "j \<le> n"
    then have "in_line width (line ! j # drop (Suc j) line) rest (advance_n True j l)"
      using in_line_drop [OF assms, of j] n by (simp add: Cons_nth_drop_Suc)
    then show "on_line width (advance_n True j l)" by (rule in_line_Cons(6))
  qed
qed

lemma word_at_line:
  assumes line: "in_line width line rest l" and "list_all (\<lambda>c. c < 128) line" "list_all (\<lambda>c. 0 \<le> c) line"
    and w: "list_all (\<lambda>c. towlower (of_char c) = of_char c) w"
  shows "word_at width w l \<longleftrightarrow> heads_line w line \<and> length w < length line"
proof -
  have look: "lookahead (advance_n True j l) = line ! j" if "j < length line" for j
    using in_line_drop [OF line, of j] in_line_Cons(1) [of width "line ! j" "drop (Suc j) line" rest] that
    by (simp add: Cons_nth_drop_Suc)
  have "spelled l w (length w) \<longleftrightarrow> heads_line w line" if len: "length w < length line"
  proof -
    have "same_letter (lookahead (advance_n True j l)) (of_char (w ! j)) \<longleftrightarrow>
        towlower (line ! j) = of_char (w ! j)" if j: "j < length w" for j
      unfolding look [OF less_trans [OF j len]]
      by (rule same_letter_ascii) (use assms(2-4) j len in \<open>auto simp: list_all_length intro: order_trans [of _ 0]\<close>)
    then show ?thesis
      using len by (auto simp: spelled_def heads_line_def list_eq_iff_nth_eq codes_def)
  qed
  then show ?thesis using on_line_iff [OF line, of "length w"] by (auto simp: word_at_def)
qed

text \<open>C30. A comment entry ends only at a keyword. Take a line of ASCII characters that stand before the
last column in front of the margin (a character there is left for the next token), with its leading blanks,
where no rule on the columns applies first. If one of the keywords of the
table heads it, in either case, the scan fails, so that the line can be read as a paragraph or division
header; otherwise the whole line up to its line feed is one comment entry. The line that holds a keyword
and nothing else, not even the period that the grammar wants behind it, is left out: the loop looks at a
further character before it accepts a keyword (\<open>cobol_bare_keyword\<close>).\<close>

theorem cobol_comment_entry:
  assumes "text_ahead l = bs @ line @ rest" and "set bs \<subseteq> {c_space, c_tab}"
    and "line \<noteq> []" and "hd line \<notin> {c_space, c_tab}" and "rest = [] \<or> hd rest = c_nl"
    and "\<forall>c \<in> set line. 0 < c \<and> c < 128 \<and> c \<noteq> c_nl"
    and "\<forall>c \<in> set (take (length bs + length line) (ahead l)). column c < cobol_width wide - 1"
    and "List.map towlower line \<notin> set (List.map codes any_content_keyword)"
    and "valid COMMENT_ENTRY" and "valid WHITE_SPACES \<longrightarrow> \<not> is_white_space (lookahead l)"
    and "valid LINE_PREFIX_COMMENT \<longrightarrow> get_column l > 5" and "valid LINE_COMMENT \<longrightarrow> get_column l \<noteq> 6"
  shows "if \<exists>w \<in> set any_content_keyword. heads_line w line
    then \<exists>l'. cobol_scan wide l valid = (False, wide, l')
    else \<exists>l'. cobol_scan wide l valid = (True, wide, l') \<and> result_symbol l' = Some COMMENT_ENTRY \<and>
      token_end l' = pos l + length bs + length line \<and> text_ahead l' = rest"
proof -
  let ?w = "cobol_width wide"
  let ?blank = "\<lambda>c. c = c_space \<or> c = c_tab"
  obtain d line' where line: "line = d # line'" using assms(3) by (cases line) auto
  have "takeWhile ?blank (text_ahead l) = bs"
    using assms(1,2,4) line by (auto simp: takeWhile_append)
  then have m: "advance_while ?blank True l = advance_n True (length bs) l"
    by (simp add: advance_while_advance_n)
  define m where "m = advance_n True (length bs) l"
  have pos: "pos m = pos l + length bs" and tm: "text_ahead m = line @ rest"
    unfolding m_def using text_ahead_advance_n [OF assms(1)] pos_advance_n_text [OF assms(1)] by simp_all
  have "set (take (length line) (ahead m)) \<subseteq> set (take (length bs + length line) (ahead l))"
    unfolding m_def ahead_advance_n take_drop by (simp add: add.commute set_drop_subset)
  then have in_l: "in_line ?w line rest m"
    unfolding in_line_def using tm assms(5-7) by (auto simp: list_all_iff)
  have ne: "ahead l \<noteq> []" using assms(1) line by auto
  have "get_column l < ?w - 1"
    using assms(7) ne line by (cases "ahead l") (auto simp: get_column_def)
  then have col: "get_column l < ?w" by simp
  have "hd (bs @ line) \<noteq> 0" using assms(2,6) line by (cases bs) auto
  then have hd0: "lookahead l \<noteq> 0"
    using assms(1) line by (cases bs) (auto simp: lookahead_text)
  have "cobol_scan wide l valid = cobol_scan_rest wide l valid"
    using hd0 assms(10-12) col by (auto simp: cobol_scan_def)
  then have scan: "cobol_scan wide l valid = (let (b, l') = start_with_word l any_content_keyword ?w in
      if \<not> b then (True, wide, set_result COMMENT_ENTRY (mark_end l')) else (False, wide, l'))"
    using assms(9) by (simp add: cobol_scan_rest_def)
  have "word_at ?w w m \<longleftrightarrow> heads_line w line" if w: "w \<in> set any_content_keyword" for w
  proof -
    have "word_at ?w w m \<longleftrightarrow> heads_line w line \<and> length w < length line"
      using in_l assms(6) any_content_keyword_lower w
      by (intro word_at_line) (auto simp: list_all_iff less_imp_le)
    moreover have "length w < length line" if h: "heads_line w line"
      using h assms(8) w by (auto simp: heads_line_def le_less)
    ultimately show ?thesis by blast
  qed
  then have fst: "fst (start_with_word l any_content_keyword ?w) \<longleftrightarrow>
      (\<exists>w \<in> set any_content_keyword. heads_line w line)"
    unfolding start_with_word_spec m m_def [symmetric] by (auto simp: list_ex_iff)
  have snd: "snd (start_with_word l any_content_keyword ?w) = advance_n True (length line) m"
    if "\<not> fst (start_with_word l any_content_keyword ?w)"
    using start_word_loop_line [OF in_l] that m m_def by (simp add: start_with_word_def Let_def)
  show ?thesis
    using fst snd text_ahead_advance_n [OF tm] pos_advance_n_text [OF tm] pos
    by (auto simp: scan split_beta)
qed

theorem cobol_comment_entry_witness:
  "(\<exists>l'. cobol_scan 0 (lexer_on (codes ''  Joe.'' @ 10 # codes ''x'')) (\<lambda>k. k = COMMENT_ENTRY) = (True, 0, l') \<and>
      result_symbol l' = Some COMMENT_ENTRY \<and> token_end l' = 6 \<and> text_ahead l' = 10 # codes ''x'') \<and>
   (\<exists>l'. cobol_scan 0 (lexer_on (codes ''Data Division.'')) (\<lambda>k. k = COMMENT_ENTRY) = (False, 0, l'))"
proof
  have "\<not> heads_line w (codes ''Joe.'')" if "w \<in> set any_content_keyword" for w
    using that by (auto simp: heads_line_def any_content_keyword_def towlower_def)
  moreover have "codes ''joe.'' \<notin> set (List.map codes any_content_keyword)"
    by (simp add: any_content_keyword_def)
  moreover have "\<forall>c \<in> set (take 6 (ahead (lexer_on (codes ''  Joe.'' @ 10 # codes ''x'') :: cobol_token lexer))).
      column c < cobol_width 0 - 1"
    by (simp add: lexer_on_def start_lexer_def cobol_width_def cg_fixed_width_def)
  ultimately show "\<exists>l'. cobol_scan 0 (lexer_on (codes ''  Joe.'' @ 10 # codes ''x'')) (\<lambda>k. k = COMMENT_ENTRY) =
      (True, 0, l') \<and> result_symbol l' = Some COMMENT_ENTRY \<and> token_end l' = 6 \<and> text_ahead l' = 10 # codes ''x''"
    using cobol_comment_entry [of "lexer_on (codes ''  Joe.'' @ 10 # codes ''x'')" "codes ''  ''" "codes ''Joe.''"
        "10 # codes ''x''" 0 "\<lambda>k. k = COMMENT_ENTRY"]
    by (simp add: towlower_def eval_nat_numeral split: if_splits)
next
  have "\<exists>w \<in> set any_content_keyword. heads_line w (codes ''Data Division.'')"
    by (rule bexI [of _ "''data division''"]) (simp_all add: heads_line_def any_content_keyword_def towlower_def)
  moreover have "codes ''data division.'' \<notin> set (List.map codes any_content_keyword)"
    by (simp add: any_content_keyword_def)
  moreover have "\<forall>c \<in> set (take 14 (ahead (lexer_on (codes ''Data Division.'') :: cobol_token lexer))).
      column c < cobol_width 0 - 1"
    by (simp add: lexer_on_def start_lexer_def cobol_width_def cg_fixed_width_def)
  ultimately show "\<exists>l'. cobol_scan 0 (lexer_on (codes ''Data Division.'')) (\<lambda>k. k = COMMENT_ENTRY) = (False, 0, l')"
    using cobol_comment_entry [of "lexer_on (codes ''Data Division.'')" "[]" "codes ''Data Division.''" "[]" 0
        "\<lambda>k. k = COMMENT_ENTRY"]
    by (simp add: towlower_def eval_nat_numeral split: if_splits)
qed

text \<open>A keyword that stands alone on its line, behind nothing but blanks, is not seen: the line is taken as
a comment entry.\<close>

theorem cobol_bare_keyword:
  assumes "in_line (cobol_width wide) line rest l" and "w \<in> set any_content_keyword"
    and "List.map towlower line = codes w" and "list_all (\<lambda>c. 0 < c \<and> c < 128) line"
    and "hd line \<notin> {c_space, c_tab}"
  shows "\<not> fst (start_with_word l any_content_keyword (cobol_width wide))"
proof -
  have no_blanks: "advance_while (\<lambda>c. c = c_space \<or> c = c_tab) True l = l"
  proof (rule advance_while_stop)
    have "line \<noteq> []" using assms(2,3) by (auto simp: any_content_keyword_def)
    then show "\<not> (lookahead l = c_space \<or> lookahead l = c_tab)"
      using assms(1,5) in_line_Cons(1) [of "cobol_width wide" "hd line" "tl line" rest l] by simp
  qed
  have "\<not> word_at (cobol_width wide) v l" if v: "v \<in> set any_content_keyword" for v
  proof
    assume "word_at (cobol_width wide) v l"
    moreover have "list_all (\<lambda>c. 0 \<le> c) line" using assms(4) by (auto simp: list_all_iff)
    ultimately have "heads_line v line" "length v < length line"
      using word_at_line [OF assms(1), of v] assms(4) any_content_keyword_lower v
      by (simp_all add: list_all_iff)
    moreover have "length line = length w" using arg_cong [OF assms(3), of length] by simp
    ultimately have "take (length v) (codes w) = codes v" "length v < length w"
      by (simp_all add: heads_line_def take_map flip: assms(3))
    then show False using assms(2) v by (auto simp: any_content_keyword_def)
  qed
  then show ?thesis by (auto simp: start_with_word_spec no_blanks list_ex_iff)
qed

text \<open>The table spells INSTALLATION with three l's: the paragraph that starts with this word is
taken as a line of the comment entry before it.\<close>

theorem cobol_installation_swallowed:
  assumes "text_ahead l = codes ''INSTALLATION.'' @ rest" and "valid COMMENT_ENTRY"
    and "valid LINE_PREFIX_COMMENT \<longrightarrow> get_column l > 5" and "valid LINE_COMMENT \<longrightarrow> get_column l \<noteq> 6"
    and "valid LINE_SUFFIX_COMMENT \<longrightarrow> get_column l < cobol_width wide"
  shows "\<exists>l'. cobol_scan wide l valid = (True, wide, l')"
proof -
  define m where "m = advance_while (\<lambda>c. c = c_space \<or> c = c_tab) True l"
  have look: "lookahead (advance_n True j l) = (codes ''INSTALLATION.'' @ rest) ! j" if "j < 13" for j
  proof -
    have "lookahead (advance_n True j l) =
        (case drop j (codes ''INSTALLATION.'' @ rest) of [] \<Rightarrow> 0 | c # _ \<Rightarrow> c)"
      using lookahead_advance_n [of True j l] assms(1) by simp
    also have "drop j (codes ''INSTALLATION.'' @ rest) =
        (codes ''INSTALLATION.'' @ rest) ! j # drop (Suc j) (codes ''INSTALLATION.'' @ rest)"
      using that by (intro Cons_nth_drop_Suc [symmetric]) simp
    finally show ?thesis by simp
  qed
  have l: "lookahead l = 73" using look [of 0] by simp
  then have m: "m = l" unfolding m_def by (intro advance_while_stop) simp
  have l17: "lookahead (skip l) = 78" "lookahead (advance_n True 7 l) = 65"
    using look [of 1] look [of 7] by (simp_all add: eval_nat_numeral)
  have no: "\<not> word_at (cobol_width wide) w l"
    if "j < length w" "\<not> same_letter (lookahead (advance_n True j l)) (of_char (w ! j))" for w j
    using that by (auto simp: word_at_def spelled_def)
  have "\<not> word_at (cobol_width wide) w l" if "w \<in> set any_content_keyword" for w
    using that l l17 no [of 0 w] no [of 1 w] no [of 7 w] unfolding any_content_keyword_def
    by (auto simp: same_letter_def char_val_to_char towupper_def towlower_def)
  then have "\<not> list_ex (\<lambda>w. word_at (cobol_width wide) w m) any_content_keyword"
    by (auto simp: list_ex_iff m)
  then have "\<not> fst (start_with_word l any_content_keyword (cobol_width wide))"
    by (simp add: start_with_word_spec m_def)
  moreover have "cobol_scan wide l valid = cobol_scan_rest wide l valid"
    using assms(3-5) l by (auto simp: cobol_scan_def is_white_space_def iswspace_def)
  ultimately show ?thesis
    using assms(2) by (auto simp: cobol_scan_rest_def split: prod.splits)
qed

theorem cobol_installation_swallowed_witness:
  "\<exists>l'. cobol_scan 0 (lexer_on (codes ''INSTALLATION.'' @ codes '' here'')) (\<lambda>k. k = COMMENT_ENTRY) =
    (True, 0, l')"
  using cobol_installation_swallowed [of "lexer_on (codes ''INSTALLATION.'' @ codes '' here'')"
      "codes '' here''" "\<lambda>k. k = COMMENT_ENTRY" 0]
  by simp

text \<open>C8. An EXEC block ends behind its first END-EXEC, in any case and wherever it stands; without one
before the end of the input or a NUL, there is no block. Characters are compared by their low byte, as the
ring buffer keeps them.\<close>

theorem cobol_exec_block:
  assumes "text_ahead l = ws @ c # cs" and "List.map towlower ws = codes ''exec''" and "list_all iswalpha ws"
    and "c \<in> {c_space, c_tab, c_nl, c_cr}" and "valid EXEC_BLOCK"
    and "\<forall>k. valid k \<longrightarrow> k \<in> {EXEC_BLOCK, multiline_string, WHITE_SPACES}"
    and "xs = takeWhile (\<lambda>x. x \<noteq> 0) (c # cs)"
  shows "if \<exists>n\<le>length xs. ends_exec (take n xs)
    then \<exists>n l'. n \<le> length xs \<and> ends_exec (take n xs) \<and> (\<forall>m<n. \<not> ends_exec (take m xs)) \<and>
      cobol_scan wide l valid = (True, wide, l') \<and> token_end l' = pos l + 4 + n \<and>
      result_symbol l' = Some EXEC_BLOCK
    else \<exists>l'. cobol_scan wide l valid = (False, wide, l')"
proof -
  have len: "length ws = 4" using arg_cong [OF assms(2), of length] by simp
  then obtain w ws' where w: "ws = w # ws'" by (cases ws) auto
  then have we: "w = c_e \<or> w = c_upper_E"
    using assms(2,3) by (auto simp: iswalpha_def towlower_def split: if_splits)
  have hd: "lookahead l = w" using assms(1) w by (simp add: lookahead_text)
  define l1 where "l1 = advance_n False (length ws) l"
  have l1: "text_ahead l1 = c # cs" "pos l1 = pos l + 4"
    unfolding l1_def using text_ahead_advance_n [OF assms(1)] pos_advance_n_text [OF assms(1)] len
    by simp_all
  have "exec_word (codes ''exec'') l = (True, l1)"
    unfolding l1_def by (rule exec_word_text [OF assms(2) _ assms(3,1)]) (simp add: towlower_def)
  then have ex: "scan_exec_block l = exec_loop (ring_of []) l1"
    using assms(4) lookahead_Cons [OF l1(1)] by (auto simp: scan_exec_block_def ring_of_def)
  have V: "\<not> valid LINE_PREFIX_COMMENT" "\<not> valid LINE_COMMENT" "\<not> valid LINE_SUFFIX_COMMENT"
    "\<not> valid COMMENT_ENTRY"
    using assms(6) by blast+
  have scan: "cobol_scan wide l valid = (fst (scan_exec_block l), wide, snd (scan_exec_block l))"
    using we hd assms(5) V
    by (auto simp: cobol_scan_def cobol_scan_rest_def is_white_space_def iswspace_def split_beta)
  define ys where "ys = dropWhile (\<lambda>x. x \<noteq> 0) (c # cs)"
  have t: "text_ahead l1 = xs @ ys" "0 \<notin> set xs" "ys = [] \<or> hd ys = 0"
    unfolding l1(1) assms(7) ys_def takeWhile_dropWhile_id
    using hd_dropWhile [of "\<lambda>x. x \<noteq> 0" "c # cs"] by (blast dest: set_takeWhileD)+
  have not0: "\<not> ends_exec []" by (simp add: ends_exec_def suffix_iff_drop)
  show ?thesis
  proof (cases "\<exists>n\<le>length xs. ends_exec (take n xs)")
    case True
    define n where "n = (LEAST n. n \<le> length xs \<and> ends_exec (take n xs))"
    have n: "n \<le> length xs" "ends_exec (take n xs)"
      using LeastI_ex [of "\<lambda>n. n \<le> length xs \<and> ends_exec (take n xs)"] True by (auto simp: n_def)
    have first: "\<not> ends_exec (take m xs)" if "m < n" for m
      using not_less_Least [of m "\<lambda>n. n \<le> length xs \<and> ends_exec (take n xs)"] that n(1)
      by (auto simp: n_def)
    have "exec_loop (ring_of []) l1 =
        (True, mark_end (set_result EXEC_BLOCK (advance_n False (length (take n xs)) l1)))"
    proof (rule exec_loop_finds [where ys = "drop n xs @ ys"])
      show "text_ahead l1 = take n xs @ drop n xs @ ys" using t(1) by simp
      show "0 \<notin> set (take n xs)" using t(2) set_take_subset [of n xs] by blast
      show "take n xs \<noteq> []" using n(2) not0 by metis
      show "ends_exec ([] @ take n xs)" using n(2) by simp
      show "\<forall>m>0. m < length (take n xs) \<longrightarrow> \<not> ends_exec ([] @ take m (take n xs))"
        using first n(1) by (simp add: min_def)
    qed
    moreover have "n \<le> remaining l1"
      using n(1) arg_cong [OF t(1), of length] by simp
    ultimately show ?thesis
      using True n first scan ex l1(2) by (auto simp: pos_advance_n min_def intro!: exI [of _ n])
  next
    case False
    then have "\<not> fst (exec_loop (ring_of []) l1)"
      using exec_loop_fails [OF t, of "[]"] by auto
    with False scan ex show ?thesis by auto
  qed
qed

theorem cobol_exec_block_witness:
  "\<exists>n l'. n \<le> 17 \<and> ends_exec (take n (codes '' SQL x END-EXEC;'')) \<and>
    cobol_scan 0 (lexer_on (codes ''Exec'' @ 32 # codes ''SQL x END-EXEC;'')) (\<lambda>k. k = EXEC_BLOCK) =
      (True, 0, l') \<and> token_end l' = 4 + n"
proof -
  have ends: "ends_exec (take 15 (codes '' SQL x END-EXEC;''))"
    by (simp add: ends_exec_def suffix_iff_drop end_exec_def ring_char_def to_char_def towlower_def)
  have xs: "codes '' SQL x END-EXEC;'' = takeWhile (\<lambda>x. x \<noteq> 0) (32 # codes ''SQL x END-EXEC;'')"
    by simp
  have ex: "\<exists>n\<le>length (codes '' SQL x END-EXEC;''). ends_exec (take n (codes '' SQL x END-EXEC;''))"
    by (rule exI [of _ 15]) (use ends in simp)
  have "if \<exists>n\<le>length (codes '' SQL x END-EXEC;''). ends_exec (take n (codes '' SQL x END-EXEC;''))
    then \<exists>n l'. n \<le> length (codes '' SQL x END-EXEC;'') \<and> ends_exec (take n (codes '' SQL x END-EXEC;'')) \<and>
      (\<forall>m<n. \<not> ends_exec (take m (codes '' SQL x END-EXEC;''))) \<and>
      cobol_scan 0 (lexer_on (codes ''Exec'' @ 32 # codes ''SQL x END-EXEC;'')) (\<lambda>k. k = EXEC_BLOCK) =
        (True, 0, l') \<and>
      token_end l' = pos (lexer_on (codes ''Exec'' @ 32 # codes ''SQL x END-EXEC;'') :: cobol_token lexer) + 4 + n \<and>
      result_symbol l' = Some EXEC_BLOCK
    else \<exists>l'. cobol_scan 0 (lexer_on (codes ''Exec'' @ 32 # codes ''SQL x END-EXEC;'')) (\<lambda>k. k = EXEC_BLOCK) =
        (False, 0, l')"
    by (rule cobol_exec_block [where ws = "codes ''Exec''" and c = 32 and
          cs = "codes ''SQL x END-EXEC;''", OF _ _ _ _ _ _ xs])
      (simp_all add: iswalpha_def towlower_def)
  then obtain n l' where "n \<le> length (codes '' SQL x END-EXEC;'')"
    "ends_exec (take n (codes '' SQL x END-EXEC;''))"
    "cobol_scan 0 (lexer_on (codes ''Exec'' @ 32 # codes ''SQL x END-EXEC;'')) (\<lambda>k. k = EXEC_BLOCK) =
      (True, 0, l')" "token_end l' = 4 + n"
    unfolding if_P [OF ex] lexer_on_simps add_0 by blast
  then show ?thesis by (intro exI [of _ n] exI [of _ l']) (simp del: codes_Cons)
qed

text \<open>C29. A string literal on one line, whatever quotes it holds, written twice, ends at its closing
quote.\<close>

theorem cobol_string_literal:
  assumes "text_ahead l = q # double_quotes q xs @ q # rest" and "q = c_dquote \<or> q = c_squote"
    and "0 \<notin> set xs" and "rest = [] \<or> hd rest \<noteq> q"
    and "list_all (\<lambda>c. column c < cobol_width wide) (take (length (double_quotes q xs)) (tl (ahead l)))"
    and "valid multiline_string"
    and "\<forall>k. valid k \<longrightarrow> k \<in> {EXEC_BLOCK, multiline_string, WHITE_SPACES}"
  shows "\<exists>l'. cobol_scan wide l valid = (True, wide, l') \<and>
    token_end l' = pos l + length (double_quotes q xs) + 2 \<and> text_ahead l' = rest \<and>
    result_symbol l' = Some multiline_string"
proof -
  note c = text_ahead_ConsD [OF assms(1)]
  let ?n = "Suc (length (double_quotes q xs))"
  have "string_body q (cobol_width wide) (advance l) = (True, advance_n False ?n (advance l))"
    by (rule string_body_doubled [OF c(1)]) (use assms(2-5) in auto)
  then have "string_lines q (cobol_width wide) l =
      (True, mark_end (set_result multiline_string (advance_n False ?n (advance l))))"
    using c(2) assms(2) by (auto simp: string_lines.simps [of q _ l])
  moreover have V: "\<not> valid LINE_PREFIX_COMMENT" "\<not> valid LINE_COMMENT" "\<not> valid LINE_SUFFIX_COMMENT"
    "\<not> valid COMMENT_ENTRY"
    using assms(7) by blast+
  ultimately have "cobol_scan wide l valid =
      (True, wide, mark_end (set_result multiline_string (advance_n False ?n (advance l))))"
    using c(2) assms(2,6)
    by (auto simp: cobol_scan_def cobol_scan_rest_def is_white_space_def iswspace_def)
  moreover have t: "text_ahead (advance l) = (double_quotes q xs @ [q]) @ rest" using c(1) by simp
  ultimately show ?thesis
    using text_ahead_advance_n [OF t] pos_advance_n_text [OF t] c(4) by simp
qed

theorem cobol_string_literal_witness:
  "\<exists>l'. cobol_scan 0 (lexer_on [39, 97, 39, 39, 98, 39, 46]) (\<lambda>k. k = multiline_string) = (True, 0, l') \<and>
    token_end l' = 6 \<and> text_ahead l' = [46]"
proof -
  have "list_all (\<lambda>c. column c < cobol_width 0) (take 4 (tl (ahead (lexer_on [39, 97, 39, 39, 98, 39, 46] :: cobol_token lexer))))"
    by (simp add: lexer_on_def start_lexer_def cobol_width_def cg_fixed_width_def)
  then show ?thesis
    using cobol_string_literal [of "lexer_on [39, 97, 39, 39, 98, 39, 46]" 39 "[97, 39, 98]" "[46]" 0
        "\<lambda>k. k = multiline_string"]
    by (auto simp: eval_nat_numeral)
qed

end
