(* ===== verification/Swift.thy ===== *)
theory Swift
  imports Nested_Comments "HOL-Library.Sublist"
begin

text \<open>
  \<^verbatim>\<open>codegraph-kernel/grammars/swift/scanner.c\<close>: nested comments, raw strings, semicolons that a line
  break implies, operators and keywords by table, and compiler directives. The state is the number of
  hashes of the raw string that is open. \<open>None\<close> as the result of a scan is a read behind the end of a
  string of \<open>DIRECTIVES\<close>, which has no meaning in C.
\<close>

section \<open>Tables\<close>

datatype swift_token =
    BLOCK_COMMENT | RAW_STR_PART | RAW_STR_CONTINUING_INDICATOR | RAW_STR_END_PART | IMPLICIT_SEMI
  | EXPLICIT_SEMI | ARROW_OPERATOR | DOT_OPERATOR | CONJUNCTION_OPERATOR | DISJUNCTION_OPERATOR
  | NIL_COALESCING_OPERATOR | EQUAL_SIGN | EQ_EQ | PLUS_THEN_WS | MINUS_THEN_WS | BANG
  | THROWS_KEYWORD | RETHROWS_KEYWORD | DEFAULT_KEYWORD | WHERE_KEYWORD | ELSE_KEYWORD
  | CATCH_KEYWORD | AS_KEYWORD | AS_QUEST | AS_BANG | ASYNC_KEYWORD | CUSTOM_OPERATOR | HASH_SYMBOL
  | DIRECTIVE_IF | DIRECTIVE_ELSEIF | DIRECTIVE_ELSE | DIRECTIVE_ENDIF | FAKE_TRY_BANG

text \<open>The tokens in the order of the C enumeration, whose position is their value.\<close>

definition swift_tokens :: "swift_token list" where
  "swift_tokens =
     [BLOCK_COMMENT, RAW_STR_PART, RAW_STR_CONTINUING_INDICATOR, RAW_STR_END_PART, IMPLICIT_SEMI,
      EXPLICIT_SEMI, ARROW_OPERATOR, DOT_OPERATOR, CONJUNCTION_OPERATOR, DISJUNCTION_OPERATOR,
      NIL_COALESCING_OPERATOR, EQUAL_SIGN, EQ_EQ, PLUS_THEN_WS, MINUS_THEN_WS, BANG,
      THROWS_KEYWORD, RETHROWS_KEYWORD, DEFAULT_KEYWORD, WHERE_KEYWORD, ELSE_KEYWORD,
      CATCH_KEYWORD, AS_KEYWORD, AS_QUEST, AS_BANG, ASYNC_KEYWORD, CUSTOM_OPERATOR, HASH_SYMBOL,
      DIRECTIVE_IF, DIRECTIVE_ELSEIF, DIRECTIVE_ELSE, DIRECTIVE_ENDIF, FAKE_TRY_BANG]"

definition operators :: "string list" where
  "operators =
     [''->'', ''.'', ''&&'', ''||'', ''??'', ''='', ''=='', ''+'', ''-'', ''!'', ''throws'',
      ''rethrows'', ''default'', ''where'', ''else'', ''catch'', ''as'', ''as?'', ''as!'', ''async'']"

datatype illegal_terminator_group = ALPHANUMERIC | OPERATOR_SYMBOLS | OPERATOR_OR_DOT | NON_WHITESPACE

definition op_illegal_terminators :: "illegal_terminator_group list" where
  "op_illegal_terminators =
     [OPERATOR_SYMBOLS, OPERATOR_OR_DOT, OPERATOR_SYMBOLS, OPERATOR_SYMBOLS, OPERATOR_SYMBOLS,
      OPERATOR_SYMBOLS, OPERATOR_SYMBOLS, NON_WHITESPACE, NON_WHITESPACE, OPERATOR_SYMBOLS,
      ALPHANUMERIC, ALPHANUMERIC, ALPHANUMERIC, ALPHANUMERIC, ALPHANUMERIC, ALPHANUMERIC,
      ALPHANUMERIC, OPERATOR_SYMBOLS, OPERATOR_SYMBOLS, ALPHANUMERIC]"

definition op_symbols :: "swift_token list" where
  "op_symbols =
     [ARROW_OPERATOR, DOT_OPERATOR, CONJUNCTION_OPERATOR, DISJUNCTION_OPERATOR,
      NIL_COALESCING_OPERATOR, EQUAL_SIGN, EQ_EQ, PLUS_THEN_WS, MINUS_THEN_WS, BANG,
      THROWS_KEYWORD, RETHROWS_KEYWORD, DEFAULT_KEYWORD, WHERE_KEYWORD, ELSE_KEYWORD,
      CATCH_KEYWORD, AS_KEYWORD, AS_QUEST, AS_BANG, ASYNC_KEYWORD]"

text \<open>\<open>1ULL << FAKE_TRY_BANG\<close> for the operator \<open>!\<close>, 0 for the others.\<close>

definition op_symbol_suppressor :: "64 word list" where
  "op_symbol_suppressor = (replicate 20 0)[9 := push_bit 32 1]"

definition reserved_ops :: "string list" where
  "reserved_ops =
     [''/'', ''='', ''-'', ''+'', ''!'', ''*'', ''%'', ''<'', ''>'', ''&'', ''|'', ''^'', ''?'', ''~'',
      ''.'', ''..'', ''->'', ''/*'', ''*/'', ''+='', ''-='', ''*='', ''/='', ''%='', ''>>'', ''<<'',
      ''++'', ''--'', ''==='', ''...'', ''..<'']"

definition is_cross_semi_token :: "swift_token \<Rightarrow> bool" where
  "is_cross_semi_token op \<longleftrightarrow>
     op \<in> {ARROW_OPERATOR, DOT_OPERATOR, CONJUNCTION_OPERATOR, DISJUNCTION_OPERATOR,
           NIL_COALESCING_OPERATOR, EQUAL_SIGN, EQ_EQ, PLUS_THEN_WS, MINUS_THEN_WS, THROWS_KEYWORD,
           RETHROWS_KEYWORD, DEFAULT_KEYWORD, WHERE_KEYWORD, ELSE_KEYWORD, CATCH_KEYWORD, AS_KEYWORD,
           AS_QUEST, AS_BANG, ASYNC_KEYWORD, CUSTOM_OPERATOR}"

definition non_consuming_cross_semi_chars :: "code_point list" where
  "non_consuming_cross_semi_chars = [c_quest, c_colon, c_lbrace]"

datatype parse_directive =
    CONTINUE_PARSING_NOTHING_FOUND | CONTINUE_PARSING_TOKEN_FOUND | CONTINUE_PARSING_SLASH_CONSUMED
  | STOP_PARSING_NOTHING_FOUND | STOP_PARSING_TOKEN_FOUND | STOP_PARSING_END_OF_FILE

section \<open>State\<close>

record swift_state =
  ongoing_raw_str_hash_count :: "32 word"

definition swift_create :: swift_state where
  "swift_create = \<lparr>ongoing_raw_str_hash_count = 0\<rparr>"

definition swift_reset :: "swift_state \<Rightarrow> swift_state" where
  "swift_reset state = state\<lparr>ongoing_raw_str_hash_count := 0\<rparr>"

definition swift_serialize :: "swift_state \<Rightarrow> byte list" where
  "swift_serialize state =
     (let hash_count = ongoing_raw_str_hash_count state in
      [ucast (drop_bit 24 hash_count), ucast (drop_bit 16 hash_count), ucast (drop_bit 8 hash_count),
       ucast hash_count])"

text \<open>\<open>(uint32_t) buffer[i]\<close> for a \<open>char\<close>, which is signed.\<close>

definition u32_of_char :: "byte \<Rightarrow> 32 word" where
  "u32_of_char b = scast b"

fun swift_deserialize :: "swift_state \<Rightarrow> byte list \<Rightarrow> swift_state" where
  "swift_deserialize state (a # b # c # d # _) =
     state\<lparr>ongoing_raw_str_hash_count :=
       push_bit 24 (u32_of_char a) OR push_bit 16 (u32_of_char b) OR push_bit 8 (u32_of_char c) OR
       u32_of_char d\<rparr>"
| "swift_deserialize state _ = state"

section \<open>Characters\<close>

definition should_treat_as_wspace :: "code_point \<Rightarrow> bool" where
  "should_treat_as_wspace c \<longleftrightarrow> iswspace c \<or> c = c_semi"

definition operator_head_ranges :: "(code_point \<times> code_point) list" where
  "operator_head_ranges =
     [(0xA1, 0xA7), (0xA9, 0xA9), (0xAB, 0xAB), (0xAC, 0xAC), (0xAE, 0xAE), (0xB0, 0xB1),
      (0xB6, 0xB6), (0xBB, 0xBB), (0xBF, 0xBF), (0xD7, 0xD7), (0xF7, 0xF7), (0x2016, 0x2017),
      (0x2020, 0x2027), (0x2030, 0x203E), (0x2041, 0x2053), (0x2055, 0x205E), (0x2190, 0x23FF),
      (0x2500, 0x2775), (0x2794, 0x2BFF), (0x2E00, 0x2E7F), (0x3001, 0x3003), (0x3008, 0x3020),
      (0x3030, 0x3030)]"

definition operator_tail_ranges :: "(code_point \<times> code_point) list" where
  "operator_tail_ranges =
     [(0x0300, 0x036f), (0x1DC0, 0x1DFF), (0x20D0, 0x20FF), (0xFE00, 0xFE0F), (0xFE20, 0xFE2F),
      (0xE0100, 0xE01EF)]"

definition in_ranges :: "code_point \<Rightarrow> (code_point \<times> code_point) list \<Rightarrow> bool" where
  "in_ranges c rs = list_ex (\<lambda>(lo, hi). lo \<le> c \<and> c \<le> hi) rs"

definition is_legal_custom_operator :: "nat \<Rightarrow> code_point \<Rightarrow> code_point \<Rightarrow> bool" where
  "is_legal_custom_operator char_idx first_char cur_char \<longleftrightarrow>
     (let is_first_char = (char_idx = 0) in
      if cur_char \<in> {c_eq, c_minus, c_plus, c_bang, c_percent, c_lt, c_gt, c_amp, c_bar, c_caret,
                     c_quest, c_tilde} then True
      else if cur_char = c_dot then is_first_char \<or> first_char = c_dot
      else if cur_char = c_star \<or> cur_char = c_slash then char_idx \<noteq> 1 \<or> first_char \<noteq> c_slash
      else if in_ranges cur_char operator_head_ranges then True
      else if in_ranges cur_char operator_tail_ranges then \<not> is_first_char
      else False)"

section \<open>Operators\<close>

text \<open>The character of a string of a table, 0 at its end.\<close>

definition str_char :: "string \<Rightarrow> nat \<Rightarrow> code_point" where
  "str_char w n = (if n < length w then of_char (w ! n) else 0)"

definition operator_chars :: "code_point list" where
  "operator_chars =
     [c_slash, c_eq, c_minus, c_plus, c_bang, c_star, c_percent, c_lt, c_gt, c_amp, c_bar, c_caret,
      c_quest, c_tilde]"

text \<open>The \<open>switch\<close> on the character behind an operator, with its fall through.\<close>

definition terminator_ok :: "illegal_terminator_group \<Rightarrow> code_point \<Rightarrow> bool" where
  "terminator_ok illegal_terminators c \<longleftrightarrow>
     (if c \<in> set operator_chars \<and> illegal_terminators = OPERATOR_SYMBOLS then False
      else if (c \<in> set operator_chars \<or> c = c_dot) \<and> illegal_terminators = OPERATOR_OR_DOT then False
      else if iswalnum c \<and> illegal_terminators = ALPHANUMERIC then False
      else if \<not> iswspace c \<and> illegal_terminators = NON_WHITESPACE then False
      else True)"

text \<open>
  The loop's local variables: which operators are still possible, the states of the reserved
  operators (0, 1 or 2), whether a custom operator is possible, the index into the strings, the last
  full match and the last character examined.
\<close>

record operator_search =
  possible :: "bool list"
  reserved :: "nat list"
  custom :: bool
  str_idx :: nat
  full_match :: "nat option"
  last_examined :: code_point

text \<open>The first inner loop: the operators that end here, in the order of the table.\<close>

definition completed :: "operator_search \<Rightarrow> code_point \<Rightarrow> nat list" where
  "completed s c =
     filter (\<lambda>i. possible s ! i \<and> str_char (operators ! i) (str_idx s) = 0 \<and>
                 terminator_ok (op_illegal_terminators ! i) c)
       [0..<length operators]"

definition still_possible :: "operator_search \<Rightarrow> code_point \<Rightarrow> bool list" where
  "still_possible s c =
     List.map (\<lambda>i. possible s ! i \<and> str_char (operators ! i) (str_idx s) \<noteq> 0 \<and>
                   str_char (operators ! i) (str_idx s) = c)
       [0..<length operators]"

text \<open>The second inner loop.\<close>

definition reserved_step :: "nat \<Rightarrow> code_point \<Rightarrow> string \<Rightarrow> nat \<Rightarrow> nat" where
  "reserved_step idx c w r =
     (if r = 0 then 0
      else if str_char w idx = 0 then 0
      else if str_char w idx \<noteq> c then 0
      else if str_char w (idx + 1) = 0 then 2
      else r)"

definition encountered_op_count :: "bool list \<Rightarrow> nat" where
  "encountered_op_count ps = length (filter id ps)"

definition any_reserved_ops :: "nat list \<Rightarrow> bool" where
  "any_reserved_ops rs = list_ex (\<lambda>r. r = 2) rs"

definition search_step :: "code_point \<Rightarrow> code_point \<Rightarrow> operator_search \<Rightarrow> operator_search" where
  "search_step first_char c s =
     s\<lparr>possible := still_possible s c,
       reserved := List.map2 (reserved_step (str_idx s) c) reserved_ops (reserved s),
       custom := custom s \<and> is_legal_custom_operator (str_idx s) first_char c,
       full_match := (if completed s c = [] then full_match s else Some (last (completed s c)))\<rparr>"

lemma legal_zero [simp]: "\<not> is_legal_custom_operator i f 0"
  by (simp add: is_legal_custom_operator_def in_ranges_def operator_head_ranges_def
      operator_tail_ranges_def)

lemma still_possible_zero [simp]: "encountered_op_count (still_possible s 0) = 0"
  by (auto simp: encountered_op_count_def still_possible_def filter_empty_conv)

text \<open>The \<open>while (true)\<close> of \<open>eat_operators\<close>.\<close>

function operators_loop ::
  "bool \<Rightarrow> code_point \<Rightarrow> operator_search \<Rightarrow> 'k lexer \<Rightarrow> operator_search \<times> 'k lexer" where
  "operators_loop mark first_char s l =
     (let c = lookahead l;
          l1 = (if completed s c \<noteq> [] \<and> mark then mark_end l else l);
          s1 = search_step first_char c s;
          encountered_ops = encountered_op_count (possible s1) in
      if encountered_ops = 0 \<and> \<not> custom s1 then (s1, l1)
      else
        let l2 = (if encountered_ops = 0 \<and> mark \<and> full_match s1 = None then mark_end l1 else l1);
            l3 = advance l2;
            s2 = s1\<lparr>last_examined := c, str_idx := str_idx s1 + 1\<rparr> in
        if encountered_ops = 0 \<and>
           \<not> is_legal_custom_operator (str_idx s2) first_char (lookahead l3)
        then (s2, l3)
        else operators_loop mark first_char s2 l3)"
  by pat_completeness auto
termination
proof (relation "measure (\<lambda>(_, _, _, l). remaining l)", goal_cases)
  case (2 mark first_char s l c l1 s1 e l2 l3 s2)
  have "lookahead l \<noteq> 0"
    using 2(1,3,4,5) by (auto simp: search_step_def)
  then show ?case using 2 by (simp split: if_splits)
qed simp

declare operators_loop.simps [simp del]

definition suppressed :: "(swift_token \<Rightarrow> bool) \<Rightarrow> 64 word \<Rightarrow> bool" where
  "suppressed valid suppressing_symbols =
     list_ex (\<lambda>i. bit suppressing_symbols i \<and> valid (swift_tokens ! i)) [0..<length swift_tokens]"

definition start_search ::
  "(swift_token \<Rightarrow> bool) \<Rightarrow> code_point \<Rightarrow> code_point \<Rightarrow> operator_search" where
  "start_search valid prior_char first_char =
     \<lparr>possible = List.map2 (\<lambda>w k. valid k \<and> (prior_char = 0 \<or> str_char w 0 = prior_char)) operators op_symbols,
      reserved = List.map (\<lambda>w. if prior_char = 0 \<or> str_char w 0 = prior_char then 1 else 0) reserved_ops,
      custom = valid CUSTOM_OPERATOR, str_idx = (if prior_char \<noteq> 0 then 1 else 0), full_match = None,
      last_examined = first_char\<rparr>"

definition eat_operators ::
  "'k lexer \<Rightarrow> (swift_token \<Rightarrow> bool) \<Rightarrow> bool \<Rightarrow> code_point \<Rightarrow> swift_token option \<times> 'k lexer" where
  "eat_operators l valid mark prior_char =
     (let first_char = (if prior_char \<noteq> 0 then prior_char else lookahead l);
          (s, l) = operators_loop mark first_char (start_search valid prior_char first_char) l in
      case full_match s of
        Some i \<Rightarrow>
          if suppressed valid (op_symbol_suppressor ! i) then (None, l) else (Some (op_symbols ! i), l)
      | None \<Rightarrow>
          if custom s \<and> \<not> any_reserved_ops (reserved s) then
            (Some CUSTOM_OPERATOR,
             if (last_examined s \<noteq> c_lt \<or> iswspace (lookahead l)) \<and> mark then mark_end l else l)
          else (None, l))"

section \<open>Comments\<close>

function swift_comment_loop ::
  "bool \<Rightarrow> bool \<Rightarrow> nat \<Rightarrow> 'k lexer \<Rightarrow> parse_directive \<times> 'k lexer" where
  "swift_comment_loop mark after_star nesting_depth l =
     (if lookahead l = 0 then (STOP_PARSING_END_OF_FILE, l)
      else if lookahead l = c_star then swift_comment_loop mark True nesting_depth (advance l)
      else if lookahead l = c_slash then
        if after_star then
          let l' = advance l; nesting_depth' = nesting_depth - 1 in
          if nesting_depth' = 0 then (STOP_PARSING_TOKEN_FOUND, if mark then mark_end l' else l')
          else swift_comment_loop mark False nesting_depth' l'
        else
          let l' = advance l in
          if lookahead l' = c_star then swift_comment_loop mark False (nesting_depth + 1) (advance l')
          else swift_comment_loop mark False nesting_depth l'
      else swift_comment_loop mark False nesting_depth (advance l))"
  by pat_completeness auto
termination by (relation "measure (\<lambda>(_, _, _, l). remaining l)") auto

declare swift_comment_loop.simps [simp del]

text \<open>\<open>symbol_result\<close> is BLOCK_COMMENT when a token is found.\<close>

definition eat_comment :: "'k lexer \<Rightarrow> bool \<Rightarrow> parse_directive \<times> 'k lexer" where
  "eat_comment l mark =
     (if lookahead l \<noteq> c_slash then (CONTINUE_PARSING_NOTHING_FOUND, l)
      else
        let l = advance l in
        if lookahead l \<noteq> c_star then (CONTINUE_PARSING_SLASH_CONSUMED, l)
        else let l = advance l in swift_comment_loop mark False 1 l)"

lemma fwd_swift_comment_loop [runs_rules]: "runs l0 l \<Longrightarrow> fwd l0 (swift_comment_loop m a d l)"
proof (induction m a d l rule: swift_comment_loop.induct)
  case (1 m a d l)
  then show ?case
    by (subst swift_comment_loop.simps) (auto simp: Let_def intro!: runs_rules)
qed

lemma fwd_eat_comment [runs_rules]: "runs l0 l \<Longrightarrow> fwd l0 (eat_comment l mark)"
  unfolding eat_comment_def by (intro runs_rules)

lemma eat_comment_progress:
  assumes "lookahead l = c_slash"
  shows "remaining (snd (eat_comment l mark)) < remaining l"
proof -
  have "fwd (advance l) (eat_comment l mark)"
    using assms unfolding eat_comment_def by (auto intro!: runs_rules)
  then have "remaining (snd (eat_comment l mark)) \<le> remaining (advance l)" by (rule fwd_remaining)
  moreover have "remaining (advance l) < remaining l" using assms by simp
  ultimately show ?thesis by (rule le_less_trans)
qed

section \<open>White space and semicolons\<close>

text \<open>The first loop of \<open>eat_whitespace\<close>, with the last value of its variable \<open>lookahead\<close>.\<close>

function ws_loop ::
  "bool \<Rightarrow> parse_directive \<Rightarrow> 'k lexer \<Rightarrow> (parse_directive \<times> code_point) \<times> 'k lexer" where
  "ws_loop semi_is_valid ws_directive l =
     (if \<not> should_treat_as_wspace (lookahead l) then ((ws_directive, lookahead l), l)
      else if lookahead l = c_semi then
        if semi_is_valid then ((STOP_PARSING_TOKEN_FOUND, lookahead l), advance l)
        else ((ws_directive, lookahead l), l)
      else
        ws_loop semi_is_valid
          (if ws_directive = CONTINUE_PARSING_NOTHING_FOUND \<and>
              (lookahead l = c_nl \<or> lookahead l = c_cr)
           then CONTINUE_PARSING_TOKEN_FOUND else ws_directive)
          (mark_end (skip l)))"
  by pat_completeness auto
termination
proof (relation "measure (\<lambda>(_, _, l). remaining l)", goal_cases)
  case (2 v d l)
  then have "lookahead l \<noteq> 0" by (auto simp: should_treat_as_wspace_def)
  then show ?case by simp
qed simp

declare ws_loop.simps [simp del]

text \<open>
  The loop over the comments behind a line break: \<open>Some\<close> is one of its \<open>return\<close>s, with the
  directive and \<open>symbol_result\<close>, \<open>None\<close> when it ends.
\<close>

function ws_comments ::
  "bool \<Rightarrow> 'k lexer \<Rightarrow> (parse_directive \<times> swift_token option) option \<times> 'k lexer" where
  "ws_comments has_seen_single_comment l =
     (if lookahead l \<noteq> c_slash then (None, l)
      else
        case eat_comment l False of (any_comment, l1) \<Rightarrow>
        if any_comment = STOP_PARSING_TOKEN_FOUND \<and> \<not> has_seen_single_comment then
          (Some (STOP_PARSING_TOKEN_FOUND, Some BLOCK_COMMENT), mark_end l1)
        else if any_comment = STOP_PARSING_END_OF_FILE then (Some (STOP_PARSING_END_OF_FILE, None), l1)
        else if any_comment = CONTINUE_PARSING_SLASH_CONSUMED then
          (Some (CONTINUE_PARSING_SLASH_CONSUMED, None), l1)
        else if any_comment \<noteq> STOP_PARSING_TOKEN_FOUND \<and> lookahead l1 = c_slash then
          let l2 = advance_while (\<lambda>c. c \<noteq> c_nl \<and> c \<noteq> 0) True l1 in
          ws_comments True (advance_while iswspace True l2)
        else if any_comment \<noteq> STOP_PARSING_TOKEN_FOUND \<and> iswspace (lookahead l1) then
          (Some (STOP_PARSING_NOTHING_FOUND, None), l1)
        else ws_comments has_seen_single_comment (advance_while iswspace True l1))"
  by pat_completeness auto
termination
proof (relation "measure (\<lambda>(_, l). remaining l)", goal_cases)
  case (2 s l d l1 l2)
  then have "remaining l1 < remaining l" using eat_comment_progress [of l False] by (metis snd_conv)
  then show ?case using 2
    by (auto intro: le_less_trans [OF remaining_advance_while] order_trans le_less_trans)
next
  case (3 s l d l1)
  then have "remaining l1 < remaining l" using eat_comment_progress [of l False] by (metis snd_conv)
  then show ?case by (auto intro: le_less_trans [OF remaining_advance_while])
qed simp

declare ws_comments.simps [simp del]

definition eat_whitespace ::
  "'k lexer \<Rightarrow> (swift_token \<Rightarrow> bool) \<Rightarrow> (parse_directive \<times> swift_token option) \<times> 'k lexer" where
  "eat_whitespace l valid =
     (let semi_is_valid = (valid IMPLICIT_SEMI \<and> valid EXPLICIT_SEMI);
          ((ws_directive, c), l) = ws_loop semi_is_valid CONTINUE_PARSING_NOTHING_FOUND l in
      if ws_directive = CONTINUE_PARSING_TOKEN_FOUND \<and> c = c_slash then
        case ws_comments False l of
          (Some r, l) \<Rightarrow> (r, l)
        | (None, l) \<Rightarrow>
            case eat_operators l valid False 0 of
              (Some _, l) \<Rightarrow> ((STOP_PARSING_NOTHING_FOUND, None), l)
            | (None, l) \<Rightarrow>
                if semi_is_valid
                then ((STOP_PARSING_TOKEN_FOUND, Some (if c = c_semi then EXPLICIT_SEMI else IMPLICIT_SEMI)), l)
                else ((CONTINUE_PARSING_NOTHING_FOUND, Some IMPLICIT_SEMI), l)
      else if ws_directive = CONTINUE_PARSING_TOKEN_FOUND \<and> c \<in> set non_consuming_cross_semi_chars
      then ((CONTINUE_PARSING_NOTHING_FOUND, None), l)
      else if semi_is_valid \<and> ws_directive \<noteq> CONTINUE_PARSING_NOTHING_FOUND
      then ((ws_directive, Some (if c = c_semi then EXPLICIT_SEMI else IMPLICIT_SEMI)), l)
      else ((CONTINUE_PARSING_NOTHING_FOUND, None), l))"

section \<open>Compiler directives\<close>

definition directives :: "string list" where
  "directives = [''if'', ''elseif'', ''else'', ''endif'']"

definition directive_symbols :: "swift_token list" where
  "directive_symbols = [DIRECTIVE_IF, DIRECTIVE_ELSEIF, DIRECTIVE_ELSE, DIRECTIVE_ENDIF]"

text \<open>
  The loop of \<open>find_possible_compiler_directive\<close>. A directive that has ended stays possible when the
  lookahead is 0 too; its string is then read behind its end, which is \<open>None\<close>.
\<close>

function directive_loop ::
  "bool list \<Rightarrow> nat \<Rightarrow> nat option \<Rightarrow> 'k lexer \<Rightarrow> (nat option \<times> 'k lexer) option" where
  "directive_loop possible_directives idx full l =
     (if list_ex (\<lambda>i. possible_directives ! i \<and> idx > length (directives ! i)) [0..<length directives]
      then None
      else
        let ended = filter (\<lambda>i. possible_directives ! i \<and> str_char (directives ! i) idx = 0)
                      [0..<length directives];
            full' = (if ended = [] then full else Some (last ended));
            l1 = (if ended = [] then l else mark_end l);
            possible' = List.map (\<lambda>i. possible_directives ! i \<and> str_char (directives ! i) idx = lookahead l)
                          [0..<length directives] in
        if \<not> list_ex id possible' then Some (full', l1)
        else directive_loop possible' (idx + 1) full' (advance l1))"
  by pat_completeness auto
termination
proof (relation "measure (\<lambda>(_, idx, _, _). 8 - idx)", goal_cases)
  case (2 ps idx full l e f l1 p)
  then obtain i where "i < length directives" "ps ! i" "\<not> length (directives ! i) < idx"
    by (auto simp: list_ex_iff)
  moreover have "list_all (\<lambda>w. length w \<le> 6) directives" by (simp add: directives_def)
  ultimately have "idx \<le> 6" by (auto simp: list_all_length not_less)
  then show ?case by simp
qed simp

declare directive_loop.simps [simp del]

definition find_possible_compiler_directive :: "'k lexer \<Rightarrow> (swift_token \<times> 'k lexer) option" where
  "find_possible_compiler_directive l =
     (case directive_loop (replicate (length directives) True) 0 None l of
        None \<Rightarrow> None
      | Some (None, l) \<Rightarrow> Some (HASH_SYMBOL, l)
      | Some (Some i, l) \<Rightarrow> Some (directive_symbols ! i, l))"

section \<open>Raw strings\<close>

text \<open>The loop over the hashes in front of a raw string.\<close>

function count_hashes :: "32 word \<Rightarrow> 'k lexer \<Rightarrow> 32 word \<times> 'k lexer" where
  "count_hashes n l = (if lookahead l = c_hash then count_hashes (n + 1) (advance l) else (n, l))"
  by pat_completeness auto
termination by (relation "measure (\<lambda>(_, l). remaining l)") auto

declare count_hashes.simps [simp del]

text \<open>The loop to the next hash; \<open>last_char\<close> is a \<open>uint8_t\<close>.\<close>

function raw_chars :: "byte \<Rightarrow> 'k lexer \<Rightarrow> byte \<times> 'k lexer" where
  "raw_chars last_char l =
     (if lookahead l \<noteq> c_hash \<and> lookahead l \<noteq> 0 then
        let last_char' = word_of_int (lookahead l); l' = advance l in
        raw_chars last_char'
          (if last_char' \<noteq> 92 \<or> lookahead l' = c_bslash then mark_end l' else l')
      else (last_char, l))"
  by pat_completeness auto
termination by (relation "measure (\<lambda>(_, l). remaining l)") (auto simp: Let_def)

declare raw_chars.simps [simp del]

function hash_run :: "32 word \<Rightarrow> 32 word \<Rightarrow> 'k lexer \<Rightarrow> 32 word \<times> 'k lexer" where
  "hash_run hash_count n l =
     (if lookahead l = c_hash \<and> n < hash_count then hash_run hash_count (n + 1) (advance l) else (n, l))"
  by pat_completeness auto
termination by (relation "measure (\<lambda>(_, _, l). remaining l)") auto

declare hash_run.simps [simp del]

lemma runs_raw_chars [runs_rules]: "runs l0 l \<Longrightarrow> fwd l0 (raw_chars c l)"
proof (induction c l rule: raw_chars.induct)
  case (1 c l)
  then show ?case by (subst raw_chars.simps) (auto simp: Let_def intro!: runs_rules)
qed

lemma runs_hash_run [runs_rules]: "runs l0 l \<Longrightarrow> fwd l0 (hash_run h n l)"
proof (induction h n l rule: hash_run.induct)
  case (1 h n l)
  then show ?case by (subst hash_run.simps) (auto intro!: runs_rules)
qed

lemma raw_progress:
  assumes "lookahead l \<noteq> 0" and "0 < hash_count"
    and "raw_chars c (mark_end l) = (lc, l1)" and "hash_run hash_count 0 l1 = (n, l2)"
  shows "remaining l2 < remaining l"
proof (cases "lookahead l = c_hash")
  case True
  then have "l1 = mark_end l" using assms(3) by (simp add: raw_chars.simps [of c])
  then have "fwd (advance (mark_end l)) (hash_run hash_count 0 l1)"
    using True assms(2) by (subst hash_run.simps) (auto intro!: runs_rules)
  then have "remaining l2 \<le> remaining (advance l)" using assms(4) by (auto simp: fwd_def dest: runs_remaining)
  then show ?thesis using assms(1) lookahead_nonzero [of l] by (auto intro: le_less_trans)
next
  case False
  then have "fwd (advance (mark_end l)) (raw_chars c (mark_end l))"
    using assms(1) by (subst raw_chars.simps) (auto simp: Let_def intro!: runs_rules)
  then have "runs (advance (mark_end l)) l1" using assms(3) by (simp add: fwd_def)
  then have "runs (advance (mark_end l)) l2"
    using runs_hash_run [of "advance (mark_end l)" l1 hash_count 0] assms(4) by (simp add: fwd_def)
  then have "remaining l2 \<le> remaining (advance l)" by (auto dest: runs_remaining)
  then show ?thesis using assms(1) lookahead_nonzero [of l] by (auto intro: le_less_trans)
qed

text \<open>
  The main loop, with the count of hashes, which is not 0 there: the token it finds, if any, and the
  new value of \<open>ongoing_raw_str_hash_count\<close>.
\<close>

function raw_loop :: "32 word \<Rightarrow> 'k lexer \<Rightarrow> (swift_token \<times> 32 word) option \<times> 'k lexer" where
  "raw_loop hash_count l =
     (if lookahead l \<noteq> 0 \<and> hash_count \<noteq> 0 then
        case raw_chars 0 (mark_end l) of (last_char, l1) \<Rightarrow>
        case hash_run hash_count 0 l1 of (current_hash_count, l2) \<Rightarrow>
          if current_hash_count = hash_count \<and> last_char = 92 \<and> lookahead l2 = c_lparen then
            (Some (RAW_STR_PART, hash_count), l2)
          else if current_hash_count = hash_count \<and> last_char = 34 then
            (Some (RAW_STR_END_PART, 0), mark_end l2)
          else raw_loop hash_count l2
      else (None, l))"
  by pat_completeness auto
termination
proof (relation "measure (\<lambda>(_, l). remaining l)", goal_cases)
  case (2 h l lc l1 n l2)
  then show ?case
    using raw_progress [of l h 0 lc l1 n l2] by (auto simp: word_gt_0)
qed simp

declare raw_loop.simps [simp del]

type_synonym swift_result = "(bool \<times> swift_state \<times> swift_token lexer) option"

text \<open>The result symbol is set by the caller, in the way of the C code.\<close>

definition raw_part ::
  "swift_state \<Rightarrow> 32 word \<Rightarrow> swift_token lexer \<Rightarrow> (swift_token option \<times> swift_state \<times> swift_token lexer)" where
  "raw_part state hash_count l =
     (case raw_loop hash_count l of
        (Some (token, n), l) \<Rightarrow> (Some token, state\<lparr>ongoing_raw_str_hash_count := n\<rparr>, l)
      | (None, l) \<Rightarrow> (None, state, l))"

definition eat_raw_str_part ::
  "swift_state \<Rightarrow> swift_token lexer \<Rightarrow> (swift_token \<Rightarrow> bool) \<Rightarrow>
   (swift_token option \<times> swift_state \<times> swift_token lexer) option" where
  "eat_raw_str_part state l valid =
     (let hash_count = ongoing_raw_str_hash_count state in
      if \<not> valid RAW_STR_PART then Some (None, state, l)
      else if hash_count = 0 then
        case count_hashes 0 l of (hash_count, l) \<Rightarrow>
          if hash_count = 0 then Some (None, state, l)
          else if lookahead l = c_dquote then
            let l = advance l in Some (raw_part state hash_count l)
          else if hash_count = 1 then
            (case find_possible_compiler_directive (mark_end l) of
               None \<Rightarrow> None
             | Some (token, l) \<Rightarrow> Some (Some token, state, l))
          else Some (None, state, l)
      else if valid RAW_STR_CONTINUING_INDICATOR then Some (raw_part state hash_count l)
      else Some (None, state, l))"

section \<open>The scan\<close>

text \<open>From the operators on, behind white space and comments.\<close>

definition swift_scan_rest ::
  "swift_state \<Rightarrow> swift_token lexer \<Rightarrow> (swift_token \<Rightarrow> bool) \<Rightarrow> swift_token option \<Rightarrow> code_point \<Rightarrow>
   swift_result" where
  "swift_scan_rest state l valid ws_result prior_char =
     (let has_ws_result = (ws_result \<noteq> None);
          (op, l) = eat_operators l valid (\<not> has_ws_result) prior_char in
      case op of
        Some operator_result \<Rightarrow>
          if \<not> has_ws_result \<or> is_cross_semi_token operator_result then
            let l = set_result operator_result l in
            Some (True, state, if has_ws_result then mark_end l else l)
          else Some (True, state, set_result (the ws_result) l)
      | None \<Rightarrow>
          case ws_result of
            Some ws_symbol \<Rightarrow> Some (True, state, set_result ws_symbol l)
          | None \<Rightarrow>
              case eat_raw_str_part state l valid of
                None \<Rightarrow> None
              | Some (Some raw_str_result, state, l) \<Rightarrow> Some (True, state, set_result raw_str_result l)
              | Some (None, state, l) \<Rightarrow> Some (False, state, l))"

definition swift_scan ::
  "swift_state \<Rightarrow> swift_token lexer \<Rightarrow> (swift_token \<Rightarrow> bool) \<Rightarrow> swift_result" where
  "swift_scan state l valid =
     (let ((ws_directive, ws_symbol), l) = eat_whitespace l valid in
      if ws_directive = STOP_PARSING_TOKEN_FOUND then
        Some (True, state, (case ws_symbol of Some k \<Rightarrow> set_result k l | None \<Rightarrow> l))
      else if ws_directive = STOP_PARSING_NOTHING_FOUND \<or> ws_directive = STOP_PARSING_END_OF_FILE then
        Some (False, state, l)
      else
        let ws_result = (if ws_directive = CONTINUE_PARSING_TOKEN_FOUND then ws_symbol else None);
            (comment, l) = (if ws_directive = CONTINUE_PARSING_SLASH_CONSUMED then (ws_directive, l)
                            else eat_comment l True) in
        if comment = STOP_PARSING_TOKEN_FOUND then
          Some (True, state, set_result BLOCK_COMMENT (mark_end l))
        else if comment = STOP_PARSING_END_OF_FILE then Some (False, state, l)
        else
          swift_scan_rest state l valid ws_result
            (if comment = CONTINUE_PARSING_SLASH_CONSUMED then c_slash else 0))"

section \<open>The cursor\<close>

lemma fwd_operators_loop [runs_rules]: "runs l0 l \<Longrightarrow> fwd l0 (operators_loop mark f s l)"
proof (induction mark f s l rule: operators_loop.induct)
  case (1 mark f s l)
  have IH: "fwd l0 (operators_loop mark f s2 l3)"
    if "s1 = search_step f (lookahead l) s" "l1 = (if completed s (lookahead l) \<noteq> [] \<and> mark then mark_end l else l)"
      "\<not> (encountered_op_count (possible s1) = 0 \<and> \<not> custom s1)"
      "l3 = advance (if encountered_op_count (possible s1) = 0 \<and> mark \<and> full_match s1 = None then mark_end l1 else l1)"
      "s2 = s1\<lparr>last_examined := lookahead l, str_idx := str_idx s1 + 1\<rparr>"
      "\<not> (encountered_op_count (possible s1) = 0 \<and> \<not> is_legal_custom_operator (str_idx s2) f (lookahead l3))"
    for s1 s2 l1 l3
    using that 1(2) by (intro 1(1) [OF refl that(2,1) refl _ refl that(4)]) auto
  show ?case
    by (subst operators_loop.simps, unfold Let_def)
      (intro fwd_if(1) fwd_Pair IH; simp add: 1(2))
qed

lemma fwd_eat_operators [runs_rules]: "runs l0 l \<Longrightarrow> fwd l0 (eat_operators l valid mark c)"
proof -
  assume l: "runs l0 l"
  define f where "f = (if c \<noteq> 0 then c else lookahead l)"
  obtain s m where o: "operators_loop mark f (start_search valid c f) l = (s, m)" by fastforce
  then have "runs l0 m" using fwd_operators_loop [OF l, of mark f] by (metis fwdD)
  then show ?thesis
    by (simp add: eat_operators_def f_def [symmetric] o fwd_simps split: option.split)
qed

lemma fwd_ws_loop [runs_rules]: "runs l0 l \<Longrightarrow> fwd l0 (ws_loop v d l)"
proof (induction v d l rule: ws_loop.induct)
  case (1 v d l)
  then show ?case by (subst ws_loop.simps) (auto intro!: runs_rules)
qed

lemma fwd_ws_comments [runs_rules]: "runs l0 l \<Longrightarrow> fwd l0 (ws_comments s l)"
proof (induction "remaining l" arbitrary: s l rule: less_induct)
  case less
  obtain d l1 where e: "eat_comment l False = (d, l1)" by fastforce
  then have l1: "runs l0 l1" using fwd_eat_comment [OF less.prems, of False] by (simp add: fwd_def)
  show ?case
  proof (cases "lookahead l = c_slash")
    case True
    then have lt: "remaining l1 < remaining l" using eat_comment_progress [of l False] e by simp
    then have "remaining (advance_while iswspace True l1) < remaining l"
      "remaining (advance_while iswspace True (advance_while (\<lambda>c. c \<noteq> c_nl \<and> c \<noteq> 0) True l1)) < remaining l"
      by (auto intro: le_less_trans [OF remaining_advance_while])
    then have "fwd l0 (ws_comments s' (advance_while iswspace True l1))"
      "fwd l0 (ws_comments s' (advance_while iswspace True (advance_while (\<lambda>c. c \<noteq> c_nl \<and> c \<noteq> 0) True l1)))"
      for s'
      using l1 by (auto intro!: less.hyps runs_rules)
    then show ?thesis
      using True e l1 by (subst ws_comments.simps) (simp add: Let_def fwd_Pair)
  next
    case False
    then show ?thesis using less.prems by (subst ws_comments.simps) (simp add: fwd_Pair)
  qed
qed

lemma fwd_eat_whitespace [runs_rules]:
  assumes "runs l0 l"
  shows "fwd l0 (eat_whitespace l valid)"
proof -
  obtain d c l1 where w: "ws_loop (valid IMPLICIT_SEMI \<and> valid EXPLICIT_SEMI) CONTINUE_PARSING_NOTHING_FOUND l = ((d, c), l1)"
    by (metis surj_pair)
  then have l1: "runs l0 l1" using fwd_ws_loop [OF assms] by (metis fwdD)
  obtain r l2 where c: "ws_comments False l1 = (r, l2)" by fastforce
  then have l2: "runs l0 l2" using fwd_ws_comments [OF l1, of False] by (simp add: fwd_def)
  obtain op l3 where o: "eat_operators l2 valid False 0 = (op, l3)" by fastforce
  then have l3: "runs l0 l3" using fwd_eat_operators [OF l2, of valid False 0] by (simp add: fwd_def)
  show ?thesis
    using w c o l1 l2 l3 by (simp add: eat_whitespace_def fwd_Pair split: option.split)
qed

lemma fwd_count_hashes [runs_rules]: "runs l0 l \<Longrightarrow> fwd l0 (count_hashes n l)"
proof (induction n l rule: count_hashes.induct)
  case (1 n l)
  then show ?case by (subst count_hashes.simps) (auto intro!: runs_rules)
qed

lemma fwd_raw_loop [runs_rules]: "runs l0 l \<Longrightarrow> fwd l0 (raw_loop h l)"
proof (induction "remaining l" arbitrary: l rule: less_induct)
  case less
  obtain c l1 where r: "raw_chars 0 (mark_end l) = (c, l1)" by fastforce
  then have l1: "runs l0 l1"
    using runs_raw_chars [of l0 "mark_end l" 0] less.prems by (simp add: fwd_def)
  obtain n l2 where h: "hash_run h 0 l1 = (n, l2)" by fastforce
  then have l2: "runs l0 l2" using runs_hash_run [OF l1, of h 0] by (simp add: fwd_def)
  have "fwd l0 (raw_loop h l2)" if "lookahead l \<noteq> 0" "h \<noteq> 0"
    using raw_progress [OF that(1) _ r h] that(2) l2 by (intro less.hyps) (simp_all add: word_gt_0)
  then show ?case
    using r h l2 less.prems by (subst raw_loop.simps) (simp add: fwd_Pair)
qed

lemma runs_directive_loop:
  "runs l0 l \<Longrightarrow> directive_loop ps i f l = Some (g, l') \<Longrightarrow> runs l0 l'"
proof (induction ps i f l rule: directive_loop.induct)
  case (1 ps i f l)
  show ?case
    using 1(2,3)
    by (subst (asm) directive_loop.simps)
      (auto simp: Let_def split: if_splits intro!: 1(1) [OF _ refl refl refl refl])
qed

lemma runs_find_directive:
  "runs l0 l \<Longrightarrow> find_possible_compiler_directive l = Some (k, l') \<Longrightarrow> runs l0 l'"
  by (auto simp: find_possible_compiler_directive_def split: option.splits dest: runs_directive_loop)

lemma fwd_opt_eat_raw_str_part:
  assumes "runs l0 l"
  shows "fwd_opt l0 (eat_raw_str_part state l valid)"
proof -
  obtain n l1 where n: "count_hashes 0 l = (n, l1)" by fastforce
  then have l1: "runs l0 l1" using fwd_count_hashes [OF assms, of 0] by (simp add: fwd_def)
  have raw: "fwd3 l0 (raw_part state h m)" if "runs l0 m" for h m
    using fwd_raw_loop [OF that, of h] by (auto simp: raw_part_def fwd3_def fwd_def split: prod.splits option.splits)
  have dir: "fwd_opt l0 (case find_possible_compiler_directive (mark_end l1) of
      None \<Rightarrow> None | Some (token, l) \<Rightarrow> Some (Some token, state, l))"
    using runs_find_directive [OF runs_mark_end [OF l1]]
    by (cases "find_possible_compiler_directive (mark_end l1)") (auto simp: fwd_simps)
  have r1: "fwd3 l0 (raw_part state n (advance l1))" by (rule raw [OF runs_advance [OF l1]])
  have r2: "fwd3 l0 (raw_part state (ongoing_raw_str_hash_count state) l)" by (rule raw [OF assms])
  show ?thesis
    unfolding eat_raw_str_part_def Let_def n prod.case
    by (simp only: fwd_simps r1 r2 l1 assms dir if_split simp_thms) 
qed

lemma fwd_opt_swift_scan: "runs l0 l \<Longrightarrow> fwd_opt l0 (swift_scan state l valid)"
proof -
  assume l: "runs l0 l"
  have rest: "fwd_opt l0 (swift_scan_rest state m valid w c)" if m: "runs l0 m" for m w c
  proof -
    obtain op m1 where o: "eat_operators m valid (w = None) c = (op, m1)" by fastforce
    then have m1: "runs l0 m1" using fwd_eat_operators [OF m] by (metis fwdD)
    show ?thesis
      using o m1 fwd_opt_eat_raw_str_part [OF m1, of state valid]
      by (auto simp: swift_scan_rest_def Let_def fwd_opt_def fwd3_def split: option.splits)
  qed
  obtain d k l1 where w: "eat_whitespace l valid = ((d, k), l1)" by (metis surj_pair)
  then have l1: "runs l0 l1" using fwd_eat_whitespace [OF l, of valid] by (simp add: fwd_def)
  obtain c l2 where c: "eat_comment l1 True = (c, l2)" by fastforce
  then have l2: "runs l0 l2" using fwd_eat_comment [OF l1, of True] by (simp add: fwd_def)
  show ?thesis
    using w c l1 l2 rest
    by (auto simp: swift_scan_def intro!: fwd_opt_rules(2) fwd3_Pair split: option.split)
qed

section \<open>Storing the state\<close>

text \<open>A count of less than 128 hashes comes back; see below for the others.\<close>

definition swift_storable :: "swift_state \<Rightarrow> bool" where
  "swift_storable s \<longleftrightarrow> ongoing_raw_str_hash_count s < 128"

lemma u32_of_char_small:
  fixes b :: byte
  assumes "b < 128"
  shows "u32_of_char b = ucast b"
proof -
  have "uint b < 128" using assms by (simp add: word_less_def)
  moreover have "- (2 ^ 7) \<le> uint b" by (rule order_trans [OF _ uint_ge_0]) simp
  ultimately have "sint b = uint b" by (simp add: sint_uint signed_take_bit_int_eq_self)
  then show ?thesis unfolding u32_of_char_def scast_eq ucast_eq by simp
qed

lemma byte_shift_zero:
  fixes h :: "32 word"
  assumes "h < 256" and "8 \<le> n"
  shows "(ucast (drop_bit n h) :: byte) = 0"
proof -
  have "drop_bit n h = 0"
  proof (rule bit_word_eqI)
    fix i assume "i < LENGTH(32)"
    have "unat h < 2 ^ 8" using assms(1) by (simp add: word_less_nat_alt)
    then have "take_bit 8 (unat h) = unat h" by (simp add: take_bit_nat_eq_self)
    then have "\<not> bit (unat h) (n + i)" using assms(2) by (metis bit_take_bit_iff trans_le_add1 leD)
    then show "bit (drop_bit n h) i = bit (0 :: 32 word) i"
      by (simp add: bit_drop_bit_eq bit_unsigned_iff)
  qed
  then show ?thesis by simp
qed

lemma swift_stored:
  assumes "ongoing_raw_str_hash_count s < 256"
  shows "swift_deserialize t (swift_serialize s) =
    \<lparr>ongoing_raw_str_hash_count = u32_of_char (ucast (ongoing_raw_str_hash_count s))\<rparr>"
  using byte_shift_zero [OF assms] by (simp add: swift_serialize_def Let_def u32_of_char_def)

lemma swift_restore:
  assumes "swift_storable s"
  shows "swift_deserialize t (swift_serialize s) = s"
proof -
  have "ongoing_raw_str_hash_count s < 128" using assms by (simp add: swift_storable_def)
  then have small: "unat (ongoing_raw_str_hash_count s) < 128" by (simp add: word_less_nat_alt)
  then have "ongoing_raw_str_hash_count s < 256" by (simp add: word_less_nat_alt)
  moreover have "(ucast (ongoing_raw_str_hash_count s) :: byte) < 128"
    using small by (simp add: word_less_nat_alt unsigned_ucast_eq take_bit_nat_eq_self)
  moreover have "ucast (ucast (ongoing_raw_str_hash_count s) :: byte) = ongoing_raw_str_hash_count s"
    using small by (simp add: word_unat_eq_iff unsigned_ucast_eq unsigned_take_bit_eq take_bit_nat_eq_self)
  ultimately show ?thesis
    by (simp add: swift_stored u32_of_char_small)
qed

interpretation swift: storing_scanner swift_create swift_storable swift_serialize swift_deserialize swift_scan
proof unfold_locales
  show "swift_storable swift_create" by (simp add: swift_storable_def swift_create_def)
  fix s t :: swift_state
  assume "swift_storable s"
  then show "length (swift_serialize s) \<le> serialization_buffer_size"
    "swift_deserialize t (swift_serialize s) = s"
    by (simp_all add: swift_restore) (simp add: swift_serialize_def serialization_buffer_size_def Let_def)
next
  fix s l v ok s' l'
  assume "swift_scan s l v = Some (ok, s', l')"
  then show "runs l l'"
    using fwd_opt_swift_scan [OF runs_refl, of l s v] by (simp add: fwd_optD)
qed

section \<open>Comments nest\<close>

definition swift_comment_closed :: "bool \<Rightarrow> 'k lexer \<Rightarrow> parse_directive \<times> 'k lexer" where
  "swift_comment_closed mark l = (STOP_PARSING_TOKEN_FOUND, if mark then mark_end l else l)"

interpretation swift_comment:
  nested_comment_loop "swift_comment_loop mark" "swift_comment_closed mark"
    "\<lambda>r. fst r \<noteq> STOP_PARSING_END_OF_FILE" for mark
  by unfold_locales
    (subst swift_comment_loop.simps; simp add: swift_comment_closed_def Let_def)+

section \<open>The longest operator\<close>

text \<open>
  The reference: operator \<open>i\<close> of the table is valid, is at the start of the text, and the character
  behind it may follow it.
\<close>

definition op_matches :: "(swift_token \<Rightarrow> bool) \<Rightarrow> code_point list \<Rightarrow> nat \<Rightarrow> bool" where
  "op_matches valid cs i \<longleftrightarrow> i < length operators \<and> valid (op_symbols ! i) \<and>
     prefix (codes (operators ! i)) cs \<and>
     terminator_ok (op_illegal_terminators ! i) (hd0 (drop (length (operators ! i)) cs))"

text \<open>The longest of the matches with less than \<open>n\<close> characters.\<close>

definition longest_below :: "(swift_token \<Rightarrow> bool) \<Rightarrow> code_point list \<Rightarrow> nat \<Rightarrow> nat option \<Rightarrow> bool" where
  "longest_below valid cs n m \<longleftrightarrow> (case m of
     None \<Rightarrow> (\<forall>j. op_matches valid cs j \<longrightarrow> \<not> length (operators ! j) < n)
   | Some i \<Rightarrow> op_matches valid cs i \<and> length (operators ! i) < n \<and>
       (\<forall>j. op_matches valid cs j \<longrightarrow> length (operators ! j) < n \<longrightarrow>
            length (operators ! j) \<le> length (operators ! i)))"

definition longest_operator :: "(swift_token \<Rightarrow> bool) \<Rightarrow> code_point list \<Rightarrow> nat option \<Rightarrow> bool" where
  "longest_operator valid cs m \<longleftrightarrow> (case m of
     None \<Rightarrow> (\<forall>j. \<not> op_matches valid cs j)
   | Some i \<Rightarrow> op_matches valid cs i \<and>
       (\<forall>j. op_matches valid cs j \<longrightarrow> length (operators ! j) \<le> length (operators ! i)))"

lemma operators_distinct: "distinct operators"
  by (simp add: operators_def)

lemma operators_nonzero: "i < length operators \<Longrightarrow> n < length (operators ! i) \<Longrightarrow> str_char (operators ! i) n \<noteq> 0"
proof -
  have "list_all (list_all (\<lambda>c. of_char c \<noteq> (0 :: int))) operators" by (simp add: operators_def)
  then show "i < length operators \<Longrightarrow> n < length (operators ! i) \<Longrightarrow> str_char (operators ! i) n \<noteq> 0"
    by (simp add: list_all_length str_char_def)
qed

lemma str_char_end:
  "i < length operators \<Longrightarrow> str_char (operators ! i) n = 0 \<longleftrightarrow> length (operators ! i) \<le> n"
  using operators_nonzero [of i n] by (auto simp: str_char_def not_less)

lemma prefix_take: "prefix xs ys \<longleftrightarrow> take (length xs) ys = xs"
  by (metis append_eq_conv_conj prefix_def take_is_prefix)

lemma op_matches_unique:
  assumes "op_matches valid cs i" and "op_matches valid cs j"
    and "length (operators ! i) = length (operators ! j)"
  shows "i = j"
proof -
  have "codes (operators ! i) = codes (operators ! j)"
    using assms by (simp add: op_matches_def prefix_take)
  then have "operators ! i = operators ! j" by (simp add: codes_eq_iff)
  then show ?thesis
    using assms(1,2) operators_distinct by (simp add: op_matches_def nth_eq_iff_index_eq)
qed

text \<open>What the loop keeps: which operators are possible after \<open>n\<close> characters, and the full match.\<close>

definition search_inv ::
  "(swift_token \<Rightarrow> bool) \<Rightarrow> code_point list \<Rightarrow> nat \<Rightarrow> operator_search \<Rightarrow> bool" where
  "search_inv valid cs n s \<longleftrightarrow> str_idx s = n \<and> longest_below valid cs n (full_match s) \<and>
     (\<forall>i<length operators. possible s ! i \<longleftrightarrow> valid (op_symbols ! i) \<and>
        n \<le> length (operators ! i) \<and> take n (codes (operators ! i)) = take n cs)"

lemma codes_nth: "n < length w \<Longrightarrow> codes w ! n = of_char (w ! n)"
  by (simp add: codes_def)

lemma still_possible_step:
  assumes "search_inv valid cs n s" and "i < length operators"
  shows "still_possible s (hd0 (drop n cs)) ! i \<longleftrightarrow> valid (op_symbols ! i) \<and>
    Suc n \<le> length (operators ! i) \<and> take (Suc n) (codes (operators ! i)) = take (Suc n) cs"
proof (cases "n < length (operators ! i)")
  case True
  then have c: "str_char (operators ! i) n = codes (operators ! i) ! n" "str_char (operators ! i) n \<noteq> 0"
    using operators_nonzero [OF assms(2)] by (simp_all add: str_char_def codes_nth)
  have "take (Suc n) (codes (operators ! i)) = take (Suc n) cs \<longleftrightarrow>
      take n (codes (operators ! i)) = take n cs \<and> codes (operators ! i) ! n = hd0 (drop n cs)"
  proof (cases "n < length cs")
    case n: True
    then have "hd0 (drop n cs) = cs ! n" by (simp add: hd0_def Cons_nth_drop_Suc [symmetric])
    with n True show ?thesis by (simp add: take_Suc_conv_app_nth)
  next
    case False
    then have "hd0 (drop n cs) = 0" by (simp add: hd0_def)
    moreover have "length (take (Suc n) (codes (operators ! i))) \<noteq> length (take (Suc n) cs)"
      using False True by simp
    ultimately show ?thesis using c by metis
  qed
  with assms True c show ?thesis by (auto simp: still_possible_def search_inv_def)
next
  case False
  with assms str_char_end [OF assms(2), of n] show ?thesis
    by (auto simp: still_possible_def search_inv_def)
qed

lemma completed_matches:
  assumes "search_inv valid cs n s"
  shows "i \<in> set (completed s (hd0 (drop n cs))) \<longleftrightarrow>
    op_matches valid cs i \<and> length (operators ! i) = n"
proof (cases "i < length operators")
  case True
  with assms str_char_end [OF True, of n] show ?thesis
    by (auto simp: completed_def search_inv_def op_matches_def prefix_take)
qed (simp add: completed_def op_matches_def)

lemma longest_below_step:
  assumes "search_inv valid cs n s" and "c = hd0 (drop n cs)"
  shows "longest_below valid cs (Suc n) (full_match (search_step f c s))"
proof (cases "completed s c = []")
  case True
  then have "\<not> (op_matches valid cs j \<and> length (operators ! j) = n)" for j
    using completed_matches [OF assms(1), of j] assms(2) by simp
  moreover have "longest_below valid cs n (full_match s)" using assms(1) by (simp add: search_inv_def)
  ultimately show ?thesis
    using True by (auto simp: longest_below_def search_step_def less_Suc_eq split: option.splits)
next
  case False
  then have "last (completed s c) \<in> set (completed s c)" by simp
  then have "op_matches valid cs (last (completed s c)) \<and> length (operators ! last (completed s c)) = n"
    using completed_matches [OF assms(1)] assms(2) by blast
  with False show ?thesis
    by (auto simp: longest_below_def search_step_def)
qed

lemma no_longer_match:
  assumes "search_inv valid cs n s" and "c = hd0 (drop n cs)"
    and "encountered_op_count (still_possible s c) = 0"
    and "longest_below valid cs (Suc n) m"
  shows "longest_operator valid cs m"
proof -
  have len: "length (still_possible s c) = length operators" by (simp add: still_possible_def)
  have "length (operators ! j) < Suc n" if "op_matches valid cs j" for j
  proof (rule ccontr)
    assume long: "\<not> length (operators ! j) < Suc n"
    have j: "j < length operators" using that by (simp add: op_matches_def)
    have "take (Suc n) (codes (operators ! j)) = take (Suc n) cs"
      using that long by (metis length_codes min.absorb1 not_less op_matches_def prefix_take take_take)
    then have "still_possible s c ! j"
      using still_possible_step [OF assms(1) j] that long assms(2) by (simp add: op_matches_def)
    then show False using assms(3) len j by (auto simp: encountered_op_count_def filter_empty_conv in_set_conv_nth)
  qed
  with assms(4) show ?thesis by (auto simp: longest_below_def longest_operator_def split: option.splits)
qed

lemma search_inv_step:
  assumes "search_inv valid cs n s" and "c = hd0 (drop n cs)"
  shows "search_inv valid cs (Suc n)
    ((search_step f c s)\<lparr>last_examined := x, str_idx := str_idx (search_step f c s) + 1\<rparr>)"
  using longest_below_step [OF assms, of f] still_possible_step [OF assms(1)] assms
  by (simp add: search_inv_def search_step_def)

lemma operators_loop_longest:
  "search_inv valid cs n s \<Longrightarrow> text_ahead l = drop n cs \<Longrightarrow>
    longest_operator valid cs (full_match (fst (operators_loop mark f s l)))"
proof (induction "remaining l" arbitrary: n s l rule: less_induct)
  case less
  define c where "c = lookahead l"
  define s1 where "s1 = search_step f c s"
  define l1 where "l1 = (if completed s c \<noteq> [] \<and> mark then mark_end l else l)"
  define e where "e = encountered_op_count (possible s1)"
  define l3 where "l3 = advance (if e = 0 \<and> mark \<and> full_match s1 = None then mark_end l1 else l1)"
  define s2 where "s2 = s1\<lparr>last_examined := c, str_idx := str_idx s1 + 1\<rparr>"
  have c: "c = hd0 (drop n cs)" using less.prems(2) by (simp add: c_def lookahead_hd0)
  have loop: "operators_loop mark f s l =
      (if e = 0 \<and> \<not> custom s1 then (s1, l1)
       else if e = 0 \<and> \<not> is_legal_custom_operator (str_idx s2) f (lookahead l3) then (s2, l3)
       else operators_loop mark f s2 l3)"
    by (simp add: operators_loop.simps [of mark f s l] c_def s1_def l1_def e_def l3_def s2_def Let_def)
  have last: "longest_operator valid cs (full_match s1)" if "e = 0"
    using no_longer_match [OF less.prems(1) c _ longest_below_step [OF less.prems(1) c]] that
    by (simp add: e_def s1_def search_step_def)
  have ahead: "ahead l3 = tl (ahead l)" by (simp add: l3_def l1_def)
  show ?case
  proof (cases "e = 0 \<and> (\<not> custom s1 \<or> \<not> is_legal_custom_operator (str_idx s2) f (lookahead l3))")
    case True
    with last loop show ?thesis by (auto simp: s2_def)
  next
    case False
    then have "c \<noteq> 0" by (auto simp: e_def s1_def search_step_def)
    then have "remaining l3 < remaining l" using ahead by (simp add: c_def)
    moreover have "text_ahead l3 = drop (Suc n) cs"
      using less.prems(2) ahead by (simp add: map_tl drop_Suc tl_drop)
    moreover have "search_inv valid cs (Suc n) s2"
      unfolding s2_def s1_def by (rule search_inv_step [OF less.prems(1) c])
    ultimately show ?thesis using False loop less.hyps by auto
  qed
qed

lemma start_search_inv: "search_inv valid cs 0 (start_search valid 0 f)"
proof -
  have "length operators = length op_symbols" by (simp add: operators_def op_symbols_def)
  then show ?thesis
    by (simp add: search_inv_def start_search_def longest_below_def)
qed

section \<open>Runs of characters\<close>

lemma ws_loop_run:
  assumes "text_ahead l = ws @ c # cs" and "list_all iswspace ws"
  shows "d \<noteq> STOP_PARSING_TOKEN_FOUND \<Longrightarrow> \<not> should_treat_as_wspace c \<Longrightarrow>
    \<exists>d' m. ws_loop v d l = ((d', c), m) \<and> text_ahead m = c # cs \<and> pos m = pos l + length ws \<and>
      d' = (if d = CONTINUE_PARSING_NOTHING_FOUND \<and> (c_nl \<in> set ws \<or> c_cr \<in> set ws)
            then CONTINUE_PARSING_TOKEN_FOUND else d)"
  using assms
proof (induction ws arbitrary: l d)
  case Nil
  then have "lookahead l = c" by (simp add: lookahead_text)
  with Nil show ?case by (simp add: ws_loop.simps [of v d l])
next
  case (Cons w ws)
  from Cons.prems(3) have "text_ahead l = w # ws @ c # cs" by simp
  note a = text_ahead_ConsD [OF this]
  define m0 where "m0 = mark_end (skip l)"
  define d1 where "d1 = (if d = CONTINUE_PARSING_NOTHING_FOUND \<and> (w = c_nl \<or> w = c_cr)
    then CONTINUE_PARSING_TOKEN_FOUND else d)"
  have w: "iswspace w" "w \<noteq> c_semi" using Cons.prems(4) by (auto simp: iswspace_def)
  have step: "ws_loop v d l = ws_loop v d1 m0"
    using w a(2) by (simp add: ws_loop.simps [of v d l] should_treat_as_wspace_def m0_def d1_def)
  have m0: "text_ahead m0 = ws @ c # cs" "pos m0 = Suc (pos l)" using a(1,4) by (simp_all add: m0_def)
  have "d1 \<noteq> STOP_PARSING_TOKEN_FOUND" "list_all iswspace ws"
    using Cons.prems(1,4) by (simp_all add: d1_def)
  from Cons.IH [OF this(1) Cons.prems(2) m0(1) this(2)] obtain d' m where
    "ws_loop v d1 m0 = ((d', c), m)" "text_ahead m = c # cs" "pos m = pos m0 + length ws"
    "d' = (if d1 = CONTINUE_PARSING_NOTHING_FOUND \<and> (c_nl \<in> set ws \<or> c_cr \<in> set ws)
            then CONTINUE_PARSING_TOKEN_FOUND else d1)"
    by (elim exE conjE)
  then show ?case
    by (intro exI [of _ d'] exI [of _ m]) (auto simp: step m0(2) d1_def)
qed

section \<open>Raw strings end where the reference says\<close>

text \<open>
  The reference: a raw string with \<open>n\<close> hashes ends at the first quote with \<open>n\<close> hashes behind it, and
  is interrupted at the first backslash with \<open>n\<close> hashes and a parenthesis behind it, whichever comes
  first. The result is the token and the number of characters in front of it.
\<close>

fun raw_end :: "nat \<Rightarrow> code_point list \<Rightarrow> (swift_token \<times> nat) option" where
  "raw_end n [] = None"
| "raw_end n (c # cs) =
     (if c = 0 then None
      else if c = c_dquote \<and> prefix (replicate n c_hash) cs then Some (RAW_STR_END_PART, 0)
      else if c = c_bslash \<and> prefix (replicate n c_hash @ [c_lparen]) cs then Some (RAW_STR_PART, 0)
      else map_option (map_prod id Suc) (raw_end n cs))"

definition shift_end :: "nat \<Rightarrow> (swift_token \<times> nat) option \<Rightarrow> (swift_token \<times> nat) option" where
  "shift_end k r = map_option (map_prod id ((+) k)) r"

lemma shift_end_simps [simp]:
  "shift_end 0 r = r" "shift_end j (shift_end k r) = shift_end (j + k) r"
  "map_option (map_prod id Suc) r = shift_end 1 r"
  "shift_end k None = None" "shift_end k (Some (t, i)) = Some (t, k + i)"
  by (cases r; auto simp: shift_end_def map_prod_def)+

definition plain_raw :: "code_point \<Rightarrow> bool" where
  "plain_raw c \<longleftrightarrow> c \<noteq> c_hash \<and> c \<noteq> 0"

lemma raw_end_run:
  assumes "0 < n" and "list_all plain_raw w" and "w \<noteq> []"
  shows "raw_end n (w @ rest) = shift_end (length w - 1) (raw_end n (last w # rest))"
  using assms(2,3)
proof (induction w)
  case (Cons c w)
  show ?case
  proof (cases w)
    case (Cons d v)
    then have "\<not> prefix (replicate n c_hash @ x) (w @ rest)" for x
      using Cons.prems assms(1) by (cases n) (auto simp: plain_raw_def)
    from this [of "[]"] this [of "[c_lparen]"] show ?thesis
      using Cons.IH Cons.prems Cons by (auto simp: plain_raw_def simp del: raw_end.simps(2))
        (auto simp: plain_raw_def)
  qed simp
qed simp

lemma raw_end_hashes: "raw_end n (replicate k c_hash @ rest) = shift_end k (raw_end n rest)"
  by (induction k) simp_all

text \<open>The inner loops as runs.\<close>

lemma raw_chars_run:
  assumes "text_ahead l = w @ rest" and "list_all plain_raw w" and "hd0 rest \<in> {0, c_hash}"
    and "lookahead l = c_bslash \<longrightarrow> tok_end l = Some (pos l)"
  shows "\<exists>m. raw_chars c l = ((if w = [] then c else word_of_int (last w)), m) \<and>
    text_ahead m = rest \<and> pos m = pos l + length w \<and> result_symbol m = result_symbol l \<and>
    (w \<noteq> [] \<and> last w = c_bslash \<longrightarrow> tok_end m = Some (pos m - 1))"
  using assms
proof (induction w arbitrary: l c)
  case Nil
  then have "\<not> (lookahead l \<noteq> c_hash \<and> lookahead l \<noteq> 0)" by (auto simp: lookahead_hd0)
  then have "raw_chars c l = (c, l)" by (simp only: raw_chars.simps [of c l] if_False)
  with Nil show ?case by simp
next
  case (Cons d w)
  note a = text_ahead_ConsD [of l d "w @ rest"]
  define l1 where "l1 = advance l"
  define b where "b = (word_of_int d :: byte)"
  define l2 where "l2 = (if b \<noteq> 92 \<or> lookahead l1 = c_bslash then mark_end l1 else l1)"
  have t: "text_ahead l1 = w @ rest" "lookahead l = d" "pos l1 = Suc (pos l)"
    using a Cons.prems(1) by (simp_all add: l1_def)
  have step: "raw_chars c l = raw_chars b l2"
    using Cons.prems(2) t(2)
    by (simp add: raw_chars.simps [of c l] plain_raw_def b_def l2_def l1_def Let_def)
  have l2: "text_ahead l2 = w @ rest" "pos l2 = Suc (pos l)" "result_symbol l2 = result_symbol l"
    "lookahead l2 = lookahead l1"
    using t by (simp_all add: l2_def l1_def)
  have "lookahead l2 = c_bslash \<longrightarrow> tok_end l2 = Some (pos l2)"
    using l2(4) by (simp add: l2_def)
  then obtain m where m: "raw_chars b l2 = ((if w = [] then b else word_of_int (last w)), m)"
    "text_ahead m = rest" "pos m = pos l2 + length w" "result_symbol m = result_symbol l2"
    "w \<noteq> [] \<and> last w = c_bslash \<longrightarrow> tok_end m = Some (pos m - 1)"
    using Cons.IH [OF l2(1) _ Cons.prems(3), of b] Cons.prems(2) by auto
  have "tok_end m = Some (pos m - 1)" if "w = []" "d = c_bslash"
  proof -
    have "lookahead l1 \<noteq> c_bslash" using t(1) that(1) Cons.prems(3) by (auto simp: lookahead_hd0)
    moreover have "b = 92" using that(2) by (simp add: b_def)
    ultimately have "l2 = l1" by (simp add: l2_def)
    moreover have "m = l2"
      using m(1) that(1) l2(1,4) Cons.prems(3) by (auto simp: raw_chars.simps [of b l2] lookahead_hd0)
    moreover have "tok_end l = Some (pos l)" using Cons.prems(4) t(2) that(2) by simp
    ultimately show ?thesis using t(3) by (simp add: l1_def)
  qed
  with m l2 step show ?case by (intro exI [of _ m]) (auto simp: b_def)
qed

lemma hash_run_count:
  assumes "text_ahead l = replicate k c_hash @ rest" and "i + k \<le> n" and "n < 2 ^ 32"
    and "i + k = n \<or> hd0 rest \<noteq> c_hash"
  shows "\<exists>m. hash_run (of_nat n) (of_nat i) l = (of_nat (i + k), m) \<and> text_ahead m = rest \<and>
    pos m = pos l + k \<and> tok_end m = tok_end l \<and> result_symbol m = result_symbol l"
  using assms
proof (induction k arbitrary: l i)
  case 0
  then have "\<not> (lookahead l = c_hash \<and> (of_nat i :: 32 word) < of_nat n)" by (auto simp: lookahead_hd0)
  then have "hash_run (of_nat n) (of_nat i) l = (of_nat i, l)"
    by (simp only: hash_run.simps [of "of_nat n" "of_nat i" l] if_False)
  with 0 show ?case by simp
next
  case (Suc k)
  note a = text_ahead_ConsD [of l c_hash "replicate k c_hash @ rest"]
  have "(of_nat i :: 32 word) < of_nat n"
    using Suc.prems(2,3) by (simp add: word_less_nat_alt unsigned_of_nat take_bit_nat_eq_self)
  then have step: "hash_run (of_nat n) (of_nat i) l = hash_run (of_nat n) (of_nat (Suc i)) (advance l)"
    using a Suc.prems(1) by (simp add: hash_run.simps [of "of_nat n" "of_nat i" l] add.commute)
  then show ?case using Suc.IH [of "advance l" "Suc i"] Suc.prems a by auto
qed

lemma hash_prefix:
  assumes "k \<le> n" and "k = n \<or> hd0 rest \<noteq> c_hash"
  shows "prefix (replicate n c_hash) (replicate k c_hash @ rest) \<longleftrightarrow> k = n"
    and "prefix (replicate n c_hash @ [c_lparen]) (replicate k c_hash @ rest) \<longleftrightarrow>
      k = n \<and> hd0 rest = c_lparen"
proof -
  obtain d where d: "n = k + d" using assms(1) le_Suc_ex by blast
  then have r: "replicate n c_hash = replicate k c_hash @ replicate d c_hash" by (simp add: replicate_add)
  show "prefix (replicate n c_hash) (replicate k c_hash @ rest) \<longleftrightarrow> k = n"
    unfolding r using d assms(2) by (cases d; cases rest) auto
  show "prefix (replicate n c_hash @ [c_lparen]) (replicate k c_hash @ rest) \<longleftrightarrow>
      k = n \<and> hd0 rest = c_lparen"
    unfolding r using d assms(2) by (cases d; cases rest) auto
qed

text \<open>No code point is taken for a quote or a backslash by its low byte alone.\<close>

definition unconfused :: "code_point \<Rightarrow> bool" where
  "unconfused c \<longleftrightarrow> (word_of_int c = (34 :: byte) \<longrightarrow> c = c_dquote) \<and> (word_of_int c = (92 :: byte) \<longrightarrow> c = c_bslash)"

lemma raw_step:
  assumes "text_ahead l = w @ replicate k c_hash @ rest" and "list_all plain_raw w"
    and "k \<le> n" and "n < 2 ^ 32" and "k = n \<or> hd0 rest \<noteq> c_hash"
    and "k = 0 \<longrightarrow> hd0 rest = 0"
  obtains m1 m2 where
    "raw_chars 0 (mark_end l) = ((if w = [] then 0 else word_of_int (last w)), m1)"
    "hash_run (of_nat n) 0 m1 = (of_nat k, m2)" "text_ahead m2 = rest"
    "pos m2 = pos l + length w + k" "result_symbol m2 = result_symbol l"
    "w \<noteq> [] \<and> last w = c_bslash \<longrightarrow> tok_end m2 = Some (pos l + length w - 1)"
proof -
  have "hd0 (replicate k c_hash @ rest) \<in> {0, c_hash}" using assms(6) by (cases k) auto
  then obtain m1 where m1: "raw_chars 0 (mark_end l) = ((if w = [] then 0 else word_of_int (last w)), m1)"
    "text_ahead m1 = replicate k c_hash @ rest" "pos m1 = pos l + length w"
    "result_symbol m1 = result_symbol l"
    "w \<noteq> [] \<and> last w = c_bslash \<longrightarrow> tok_end m1 = Some (pos m1 - 1)"
    using raw_chars_run [of "mark_end l" w "replicate k c_hash @ rest" 0] assms(1,2) by auto
  obtain m2 where "hash_run (of_nat n) 0 m1 = (of_nat k, m2)" "text_ahead m2 = rest"
    "pos m2 = pos m1 + k" "tok_end m2 = tok_end m1" "result_symbol m2 = result_symbol m1"
    using hash_run_count [OF m1(2), of 0 n] assms(3,4,5) by auto
  with m1 show thesis by (intro that [of m1 m2]) auto
qed

lemma raw_text_split:
  obtains w k rest where "cs = w @ replicate k c_hash @ rest" "list_all plain_raw w" "k \<le> n"
    "k = n \<or> hd0 rest \<noteq> c_hash" "0 < n \<Longrightarrow> k = 0 \<longrightarrow> hd0 rest = 0"
proof -
  define w r where "w = takeWhile plain_raw cs" and "r = dropWhile plain_raw cs"
  define h where "h = takeWhile (\<lambda>c. c = c_hash) r"
  define k where "k = min n (length h)"
  have "h = replicate (length h) c_hash"
    by (rule replicate_length_same [symmetric]) (auto simp: h_def dest: set_takeWhileD)
  then have "take k r = replicate k c_hash"
    by (metis h_def k_def min.commute take_replicate take_take takeWhile_eq_take)
  then have r: "r = replicate k c_hash @ drop k r" by (metis append_take_drop_id)
  have "hd0 (dropWhile (\<lambda>c. c = c_hash) r) \<noteq> c_hash"
    by (auto simp: hd0_def dropWhile_eq_Cons_conv split: list.split)
  then have stop: "hd0 (drop (length h) r) \<noteq> c_hash" by (simp add: h_def dropWhile_drop)
  have "hd0 r = 0 \<or> hd0 r = c_hash"
    by (auto simp: r_def hd0_def dropWhile_eq_Cons_conv plain_raw_def split: list.split)
  moreover have "k = 0 \<Longrightarrow> 0 < n \<Longrightarrow> hd0 r \<noteq> c_hash"
    using stop by (cases "length h") (auto simp: k_def)
  ultimately have zero: "0 < n \<Longrightarrow> k = 0 \<longrightarrow> hd0 (drop k r) = 0" by auto
  show thesis
  proof (rule that [OF _ _ _ _ zero])
    show "cs = w @ replicate k c_hash @ drop k r"
      using r by (simp add: w_def r_def)
    show "list_all plain_raw w" by (auto simp: w_def list_all_iff dest: set_takeWhileD)
    show "k \<le> n" by (simp add: k_def)
    show "k = n \<or> hd0 (drop k r) \<noteq> c_hash" using stop by (auto simp: k_def min_def)
  qed
qed

lemma raw_loop_reference:
  assumes "0 < n" and "n < 2 ^ 32"
  shows "list_all unconfused (text_ahead l) \<Longrightarrow>
    (case raw_end n (text_ahead l) of
       None \<Rightarrow> fst (raw_loop (of_nat n) l) = None
     | Some (t, i) \<Rightarrow> \<exists>m. raw_loop (of_nat n) l = (Some (t, if t = RAW_STR_PART then of_nat n else 0), m) \<and>
         t \<in> {RAW_STR_PART, RAW_STR_END_PART} \<and>
         tok_end m = Some (pos l + i + (if t = RAW_STR_PART then 0 else 1 + n)) \<and>
         text_ahead m = drop (i + 1 + n) (text_ahead l))"
proof (induction "remaining l" arbitrary: l rule: less_induct)
  case less
  obtain w k rest where cs: "text_ahead l = w @ replicate k c_hash @ rest" "list_all plain_raw w" "k \<le> n"
    "k = n \<or> hd0 rest \<noteq> c_hash" "k = 0 \<longrightarrow> hd0 rest = 0"
    using raw_text_split [of "text_ahead l" n] assms(1) by metis
  have n: "(of_nat n :: 32 word) \<noteq> 0" "(of_nat k = (of_nat n :: 32 word)) \<longleftrightarrow> k = n"
    using assms cs(3) by (simp_all add: word_unat_eq_iff unsigned_of_nat take_bit_nat_eq_self)
  note pre = hash_prefix [OF cs(3,4)]
  obtain m1 m2 where m:
    "raw_chars 0 (mark_end l) = ((if w = [] then 0 else word_of_int (last w)), m1)"
    "hash_run (of_nat n) 0 m1 = (of_nat k, m2)" "text_ahead m2 = rest"
    "pos m2 = pos l + length w + k" "result_symbol m2 = result_symbol l"
    "w \<noteq> [] \<and> last w = c_bslash \<longrightarrow> tok_end m2 = Some (pos l + length w - 1)"
    by (rule raw_step [OF cs(1-3) assms(2) cs(4,5)])
  define byte where "byte = (if w = [] then 0 else word_of_int (last w) :: byte)"
  have look2: "lookahead m2 = hd0 rest" using m(3) by (simp add: lookahead_hd0)
  have unc: "unconfused (last w)" if "w \<noteq> []"
    using less.prems that cs(1) by (auto simp: list_all_iff)
  have nz: "last w \<noteq> 0" if "w \<noteq> []"
    using cs(2) that by (auto simp: list_all_iff plain_raw_def)
  have red: "raw_end n (text_ahead l) = (if w = [] then shift_end k (raw_end n rest)
     else shift_end (length w - 1) (raw_end n (last w # replicate k c_hash @ rest)))"
    using raw_end_run [OF assms(1) cs(2)] raw_end_hashes cs(1) by simp
  show ?case
  proof (cases "lookahead l = 0")
    case True
    then have "raw_end n (text_ahead l) = None"
      by (cases "text_ahead l") (auto simp: lookahead_hd0)
    with True show ?thesis by (simp add: raw_loop.simps [of _ l])
  next
    case False
    have loop: "raw_loop (of_nat n) l =
      (if k = n \<and> w \<noteq> [] \<and> last w = c_bslash \<and> hd0 rest = c_lparen then (Some (RAW_STR_PART, of_nat n), m2)
       else if k = n \<and> w \<noteq> [] \<and> last w = c_dquote then (Some (RAW_STR_END_PART, 0), mark_end m2)
       else raw_loop (of_nat n) m2)"
    proof -
      have "raw_loop (of_nat n) l =
        (if of_nat k = (of_nat n :: 32 word) \<and> byte = 92 \<and> hd0 rest = c_lparen
         then (Some (RAW_STR_PART, of_nat n), m2)
         else if of_nat k = (of_nat n :: 32 word) \<and> byte = 34 then (Some (RAW_STR_END_PART, 0), mark_end m2)
         else raw_loop (of_nat n) m2)"
        using False n(1) m(1,2) by (subst raw_loop.simps) (simp only: byte_def look2 prod.case simp_thms if_True)
      moreover have "byte = 92 \<longleftrightarrow> w \<noteq> [] \<and> last w = c_bslash" "byte = 34 \<longleftrightarrow> w \<noteq> [] \<and> last w = c_dquote"
        using unc by (auto simp: byte_def unconfused_def)
      ultimately show ?thesis using n(2) by (simp only: conj_assoc)
    qed
    have left: "remaining m2 < remaining l"
      using raw_progress [OF False _ m(1,2)] n(1) by (simp add: word_gt_0)
    have "list_all unconfused (text_ahead m2)" using less.prems cs(1) m(3) by simp
    note IH = less.hyps [OF left this]
    show ?thesis
    proof (cases "k = n \<and> w \<noteq> [] \<and> (last w = c_dquote \<or> last w = c_bslash \<and> hd0 rest = c_lparen)")
      case True
      then have "length w \<ge> 1" by (cases w) auto
      with True show ?thesis using red loop pre nz m cs(1) by (auto simp: Let_def)
    next
      case False
      then have r: "raw_end n (text_ahead l) = shift_end (length w + k) (raw_end n rest)"
        using red pre nz raw_end_hashes by (cases w) auto
      have d: "drop (Suc (j + (k + (n + length w)))) (text_ahead l) = drop (Suc (j + n)) rest" for j
      proof -
        have "drop (length w + k) (text_ahead l) = rest" by (simp add: cs(1))
        then show ?thesis using drop_drop [of "Suc (j + n)" "length w + k" "text_ahead l"] by (simp add: ac_simps)
      qed
      have "raw_loop (of_nat n) l = raw_loop (of_nat n) m2" using loop False by auto
      then show ?thesis using IH r d m(3,4)
        by (auto simp: ac_simps split: option.splits prod.splits)
    qed
  qed
qed

text \<open>A hash starts neither white space nor a comment nor an operator.\<close>

lemma no_operator_at_hash:
  assumes "lookahead l = c_hash"
  shows "eat_operators l valid mark 0 = (None, l)"
proof -
  let ?s = "start_search valid 0 c_hash"
  have "completed ?s c_hash = []"
    by (simp add: completed_def start_search_def str_char_def operators_def upt_rec)
  moreover have "encountered_op_count (still_possible ?s c_hash) = 0"
    by (simp add: still_possible_def start_search_def str_char_def operators_def upt_rec encountered_op_count_def)
  moreover have "\<not> is_legal_custom_operator 0 c_hash c_hash"
    by (simp add: is_legal_custom_operator_def in_ranges_def operator_head_ranges_def operator_tail_ranges_def)
  moreover have "full_match ?s = None" "str_idx ?s = 0" by (simp_all add: start_search_def)
  ultimately have "operators_loop mark c_hash ?s l = (search_step c_hash c_hash ?s, l)"
    "full_match (search_step c_hash c_hash ?s) = None" "\<not> custom (search_step c_hash c_hash ?s)"
    using assms by (simp_all add: operators_loop.simps [of mark c_hash ?s l] search_step_def Let_def)
  then show ?thesis using assms by (simp add: eat_operators_def)
qed

lemma scan_at_hash:
  assumes "lookahead l = c_hash"
  shows "swift_scan s l valid =
    (case eat_raw_str_part s l valid of
       None \<Rightarrow> None
     | Some (Some k, s', l') \<Rightarrow> Some (True, s', set_result k l')
     | Some (None, s', l') \<Rightarrow> Some (False, s', l'))"
proof -
  have "ws_loop v d l = ((d, c_hash), l)" for v d
    using assms by (simp add: ws_loop.simps [of v d l] should_treat_as_wspace_def iswspace_def)
  then have "eat_whitespace l valid = ((CONTINUE_PARSING_NOTHING_FOUND, None), l)"
    by (simp add: eat_whitespace_def)
  moreover have "eat_comment l True = (CONTINUE_PARSING_NOTHING_FOUND, l)"
    using assms by (simp add: eat_comment_def)
  ultimately show ?thesis
    using no_operator_at_hash [OF assms]
    by (simp add: swift_scan_def swift_scan_rest_def)
qed

lemma count_hashes_run:
  assumes "text_ahead l = replicate k c_hash @ rest" and "hd0 rest \<noteq> c_hash"
  shows "\<exists>m. count_hashes n l = (n + of_nat k, m) \<and> text_ahead m = rest \<and> pos m = pos l + k \<and>
    result_symbol m = result_symbol l"
  using assms
proof (induction k arbitrary: l n)
  case 0
  then show ?case by (simp add: count_hashes.simps [of n l] lookahead_hd0)
next
  case (Suc k)
  note a = text_ahead_ConsD [of l c_hash "replicate k c_hash @ rest"]
  have "count_hashes n l = count_hashes (n + 1) (advance l)"
    using a Suc.prems(1) by (simp add: count_hashes.simps [of n l])
  then show ?case using Suc.IH [of "advance l" "n + 1"] Suc.prems a by (auto simp: ac_simps)
qed

lemma open_raw_string:
  assumes "text_ahead l = replicate n c_hash @ c_dquote # cs" and "0 < n" and "n < 2 ^ 32"
    and "ongoing_raw_str_hash_count s = 0" and "valid RAW_STR_PART"
  obtains m where "eat_raw_str_part s l valid = Some (raw_part s (of_nat n) m)"
    "text_ahead m = cs" "pos m = pos l + n + 1"
proof -
  obtain m where m: "count_hashes 0 l = (of_nat n, m)" "text_ahead m = c_dquote # cs" "pos m = pos l + n"
    using count_hashes_run [OF assms(1), of 0] by auto
  have "(of_nat n :: 32 word) \<noteq> 0"
    using assms(2,3) by (simp add: word_unat_eq_iff unsigned_of_nat take_bit_nat_eq_self)
  then have "eat_raw_str_part s l valid = Some (raw_part s (of_nat n) (advance m))"
    using m text_ahead_ConsD(2) [OF m(2)] assms(4,5) by (simp add: eat_raw_str_part_def Let_def)
  then show thesis using that [of "advance m"] text_ahead_ConsD [OF m(2)] m(3) by simp
qed

text \<open>A byte above 127 is sign-extended.\<close>

lemma u32_of_char_large:
  fixes h :: "32 word"
  assumes "h < 256" and "\<not> h < 128"
  shows "u32_of_char (ucast h) = h OR NOT (mask 8)"
proof (rule bit_word_eqI)
  fix n assume n: "n < LENGTH(32)"
  have h: "unat h < 256" "128 \<le> unat h" using assms by (simp_all add: word_less_nat_alt not_less word_le_nat_alt)
  then have "unat h div 2 ^ 7 = 1" by simp
  then have "bit (unat h) 7" by (simp add: bit_iff_odd)
  then have b7: "bit h 7" by (simp add: bit_unsigned_iff)
  show "bit (u32_of_char (ucast h)) n \<longleftrightarrow> bit (h OR NOT (mask 8)) n"
    using n b7
    by (auto simp: u32_of_char_def bit_signed_iff bit_unsigned_iff bit_or_iff bit_not_iff bit_mask_iff min_def
        less_Suc_eq numeral_eq_Suc)
qed

lemma directive_loop_overrun:
  fixes l :: "'k lexer"
  assumes "j < length directives"
  shows "ps ! j \<Longrightarrow> text_ahead l = drop idx (codes (directives ! j)) \<Longrightarrow>
    idx \<le> Suc (length (directives ! j)) \<Longrightarrow> directive_loop ps idx f l = None"
proof (induction "Suc (length (directives ! j)) - idx" arbitrary: ps idx f l)
  case 0
  then have "list_ex (\<lambda>i. ps ! i \<and> idx > length (directives ! i)) [0..<length directives]"
    using assms by (auto simp: list_ex_iff intro!: bexI [of _ j])
  then show ?case by (simp only: directive_loop.simps [of ps idx f l] if_True)
next
  case (Suc k)
  then have "str_char (directives ! j) idx = lookahead l"
    by (auto simp: str_char_def lookahead_hd0 codes_def Cons_nth_drop_Suc [symmetric])
  define ps' where "ps' = List.map (\<lambda>i. ps ! i \<and> str_char (directives ! i) idx = lookahead l) [0..<length directives]"
  have j: "ps' ! j" using \<open>str_char _ _ = _\<close> Suc.prems(1) assms by (simp add: ps'_def)
  then have some: "list_ex id ps'" using assms by (auto simp: list_ex_length ps'_def)
  have "directive_loop ps' (Suc idx) g (advance m) = None" if "ahead m = ahead l" for g and m :: "'k lexer"
    using Suc.hyps(1) [of "Suc idx" ps' "advance m" g] Suc.hyps(2) Suc.prems j that
    by (auto simp: map_tl drop_Suc tl_drop)
  then show ?case
    using some by (subst directive_loop.simps) (auto simp: Let_def ps'_def)
qed

section \<open>Properties\<close>

text \<open>C11. An operator or keyword of the table is found by the longest match: \<open>eat_operators\<close> answers
with the token of the longest valid operator at the cursor whose next character may follow it, unless
a valid symbol suppresses it; when there is none, with a custom operator or nothing.\<close>

theorem swift_longest_operator:
  "\<exists>m. longest_operator valid (text_ahead l) m \<and>
     (case m of
        Some i \<Rightarrow> fst (eat_operators l valid mark 0) =
          (if suppressed valid (op_symbol_suppressor ! i) then None else Some (op_symbols ! i))
      | None \<Rightarrow> fst (eat_operators l valid mark 0) \<in> {None, Some CUSTOM_OPERATOR})"
proof -
  obtain s l' where loop: "operators_loop mark (lookahead l) (start_search valid 0 (lookahead l)) l = (s, l')"
    by fastforce
  have "longest_operator valid (text_ahead l) (full_match s)"
    using operators_loop_longest [of valid "text_ahead l" 0 "start_search valid 0 (lookahead l)" l mark
        "lookahead l"] start_search_inv loop
    by simp
  then show ?thesis
    by (intro exI [of _ "full_match s"]) (auto simp: eat_operators_def loop split: option.split)
qed

text \<open>C31. A Swift block comment nests, wherever it stands: after white space, with or without line
breaks, the scan answers with the comment exactly when the reference finds the \<open>*/\<close> that closes it,
and the token ends right behind it.\<close>

theorem swift_block_comment:
  assumes "text_ahead l = ws @ c_slash # c_star # cs" and "list_all iswspace ws"
  shows "case comment_close (\<lambda>c. c = 0) 1 cs of
      None \<Rightarrow> \<exists>l'. swift_scan s l valid = Some (False, s, l')
    | Some n \<Rightarrow> \<exists>l'. swift_scan s l valid = Some (True, s, l') \<and>
        token_end l' = pos l + length ws + 2 + n \<and> text_ahead l' = drop n cs \<and>
        result_symbol l' = Some BLOCK_COMMENT"
proof -
  obtain d m where w: "ws_loop (valid IMPLICIT_SEMI \<and> valid EXPLICIT_SEMI) CONTINUE_PARSING_NOTHING_FOUND l =
      ((d, c_slash), m)" "d = CONTINUE_PARSING_NOTHING_FOUND \<or> d = CONTINUE_PARSING_TOKEN_FOUND"
      "text_ahead m = c_slash # c_star # cs" "pos m = pos l + length ws"
    using ws_loop_run [OF assms, of CONTINUE_PARSING_NOTHING_FOUND "valid IMPLICIT_SEMI \<and> valid EXPLICIT_SEMI"]
    by (fastforce simp: should_treat_as_wspace_def iswspace_def)
  note a = text_ahead_ConsD [OF w(3)]
  note b = text_ahead_ConsD [OF a(1)]
  define l2 where "l2 = advance (advance m)"
  have l2: "text_ahead l2 = cs" "pos l2 = pos l + length ws + 2"
    using a b w(4) by (simp_all add: l2_def)
  have eat: "eat_comment m mark = swift_comment_loop mark False 1 l2" for mark
    using a(2) b(2) by (simp add: eat_comment_def l2_def Let_def)
  note close = swift_comment.loop_finds_close [where d = 1 and l = l2]
  show ?thesis
  proof (cases "comment_close (\<lambda>c. c = 0) 1 cs")
    case None
    then have "fst (eat_comment m mark) = STOP_PARSING_END_OF_FILE" for mark
      using close [where mark = mark] l2 eat by simp
    then have eof: "\<exists>l'. eat_comment m mark = (STOP_PARSING_END_OF_FILE, l')" for mark
      by (metis prod.collapse)
    obtain l3 l4 where "eat_comment m False = (STOP_PARSING_END_OF_FILE, l3)"
      "eat_comment m True = (STOP_PARSING_END_OF_FILE, l4)"
      using eof by metis
    with None w a(2) show ?thesis
      by (auto simp: swift_scan_def eat_whitespace_def ws_comments.simps [of False m]
          non_consuming_cross_semi_chars_def)
  next
    case (Some n)
    have "n \<le> remaining l2"
      using comment_close_le [OF Some] arg_cong [OF l2(1), of length] by simp
    then have p: "pos (advance_n False n l2) = pos l + length ws + 2 + n"
      "text_ahead (advance_n False n l2) = drop n cs"
      using l2 text_ahead_drop [of False n l2] by (simp_all add: pos_advance_n)
    have found: "eat_comment m mark = (STOP_PARSING_TOKEN_FOUND,
        if mark then mark_end (advance_n False n l2) else advance_n False n l2)" for mark
      using close [where mark = mark] l2 eat Some by (simp add: swift_comment_closed_def)
    with Some w a(2) p show ?thesis
      by (auto simp: swift_scan_def eat_whitespace_def ws_comments.simps [of False m]
          non_consuming_cross_semi_chars_def)
  qed
qed

theorem swift_block_comment_witness:
  "case comment_close (\<lambda>c. c = 0) 1 (codes ''a/*b*/c*/ x'') of
      None \<Rightarrow> False
    | Some n \<Rightarrow> \<exists>l'. swift_scan swift_create (lexer_on (10 # codes ''/*a/*b*/c*/ x'')) (\<lambda>k. True) =
        Some (True, swift_create, l') \<and> token_end l' = 12 \<and> text_ahead l' = codes '' x'' \<and>
        result_symbol l' = Some BLOCK_COMMENT"
  using swift_block_comment [of "lexer_on (10 # codes ''/*a/*b*/c*/ x'')" "[10]"
      "codes ''a/*b*/c*/ x''" swift_create "\<lambda>k. True"]
  by (simp add: iswspace_def eval_nat_numeral)

text \<open>C3. A raw string with \<open>n\<close> hashes ends where the reference says: at the first quote with \<open>n\<close>
hashes behind it, which the token includes and which resets the state, or in front of the first
backslash with \<open>n\<close> hashes and a parenthesis, where the count is kept for the part that follows. The
scan fails, with the state unchanged, exactly when there is neither. No code point of the text may
share its low byte with the quote or the backslash.\<close>

theorem swift_raw_string:
  assumes "text_ahead l = replicate n c_hash @ c_dquote # cs" and "0 < n" and "n < 2 ^ 32"
    and "ongoing_raw_str_hash_count s = 0" and "valid RAW_STR_PART" and "list_all unconfused cs"
  shows "case raw_end n cs of
      None \<Rightarrow> \<exists>l'. swift_scan s l valid = Some (False, s, l')
    | Some (t, i) \<Rightarrow> \<exists>l'.
        swift_scan s l valid =
          Some (True, \<lparr>ongoing_raw_str_hash_count = (if t = RAW_STR_PART then of_nat n else 0)\<rparr>, l') \<and>
        result_symbol l' = Some t \<and>
        token_end l' = pos l + n + 1 + i + (if t = RAW_STR_PART then 0 else 1 + n)"
proof -
  have look: "lookahead l = c_hash" using assms(1,2) by (cases n) (auto simp: lookahead_hd0)
  obtain m where m: "eat_raw_str_part s l valid = Some (raw_part s (of_nat n) m)"
    "text_ahead m = cs" "pos m = pos l + n + 1"
    using open_raw_string [OF assms(1-4), of valid] assms(5) by blast
  show ?thesis
  proof (cases "raw_end n cs")
    case None
    then have "fst (raw_loop (of_nat n) m) = None"
      using raw_loop_reference [OF assms(2,3), of m] m(2) assms(6) by simp
    then obtain l' where "raw_loop (of_nat n) m = (None, l')" by (metis prod.collapse)
    with None look m show ?thesis by (simp add: scan_at_hash raw_part_def)
  next
    case (Some r)
    obtain t i where r: "r = (t, i)" by fastforce
    then obtain l' where "raw_loop (of_nat n) m = (Some (t, if t = RAW_STR_PART then of_nat n else 0), l')"
      "tok_end l' = Some (pos m + i + (if t = RAW_STR_PART then 0 else 1 + n))"
      using raw_loop_reference [OF assms(2,3), of m] m(2) assms(6) Some by auto
    with Some r look m show ?thesis
      by (auto simp: scan_at_hash raw_part_def token_end_def)
  qed
qed

theorem swift_raw_string_witness:
  "case raw_end 2 (codes ''a\"#b\"##;'') of
      None \<Rightarrow> False
    | Some (t, i) \<Rightarrow> \<exists>l'.
        swift_scan swift_create (lexer_on (codes ''##\"a\"#b\"##;'')) (\<lambda>k. k = RAW_STR_PART) =
          Some (True, swift_create, l') \<and> result_symbol l' = Some RAW_STR_END_PART \<and> token_end l' = 10"
proof -
  have two: "replicate 2 x = [x, x]" for x :: int by (simp add: numeral_2_eq_2)
  have ten: "10 = Suc (Suc (Suc (Suc (Suc (Suc (Suc (Suc (Suc (Suc 0)))))))))" by simp
  show ?thesis
    using swift_raw_string [of "lexer_on (codes ''##\"a\"#b\"##;'')" 2 "codes ''a\"#b\"##;''" swift_create
      "\<lambda>k. k = RAW_STR_PART"]
    by (simp add: swift_create_def unconfused_def two ten)
qed

text \<open>The character in front of the hashes is kept in a \<open>uint8_t\<close>: any code point whose low byte
is that of a quote ends a raw string, although it is not a quote.\<close>

theorem swift_raw_string_ends_early:
  assumes "text_ahead l = replicate n c_hash @ c_dquote # w @ c # replicate n c_hash @ rest"
    and "0 < n" and "n < 2 ^ 32" and "ongoing_raw_str_hash_count s = 0" and "valid RAW_STR_PART"
    and "list_all plain_raw w" and "c \<noteq> c_dquote" and "c mod 256 = c_dquote"
  shows "\<exists>l'. swift_scan s l valid = Some (True, \<lparr>ongoing_raw_str_hash_count = 0\<rparr>, l') \<and>
    result_symbol l' = Some RAW_STR_END_PART \<and> text_ahead l' = rest"
proof -
  have look: "lookahead l = c_hash" using assms(1,2) by (cases n) (auto simp: lookahead_hd0)
  obtain m where m: "eat_raw_str_part s l valid = Some (raw_part s (of_nat n) m)"
    "text_ahead m = w @ c # replicate n c_hash @ rest"
    using open_raw_string [OF assms(1-4), of valid] assms(5) by blast
  have c: "plain_raw c" using assms(8) by (auto simp: plain_raw_def)
  have "word_of_int c = (word_of_int (c mod 256) :: byte)"
    by (simp add: word_of_int_eq_iff take_bit_eq_mod)
  then have b: "word_of_int c = (34 :: byte)" using assms(8) by simp
  have "text_ahead m = (w @ [c]) @ replicate n c_hash @ rest" "list_all plain_raw (w @ [c])"
    using m(2) assms(6) c by simp_all
  from raw_step [OF this order_refl assms(3)] assms(2) obtain m1 m2 where
    "raw_chars 0 (mark_end m) = (34, m1)" "hash_run (of_nat n) 0 m1 = (of_nat n, m2)" "text_ahead m2 = rest"
    by (auto simp: b) blast
  moreover have "lookahead m \<noteq> 0" using m(2) c assms(6) by (cases w) (auto simp: lookahead_hd0 plain_raw_def)
  moreover have "(of_nat n :: 32 word) \<noteq> 0"
    using assms(2,3) by (simp add: word_unat_eq_iff unsigned_of_nat take_bit_nat_eq_self)
  ultimately have "raw_loop (of_nat n) m = (Some (RAW_STR_END_PART, 0), mark_end m2)"
    by (simp add: raw_loop.simps [of "of_nat n" m])
  then show ?thesis using look m \<open>text_ahead m2 = rest\<close> by (simp add: scan_at_hash raw_part_def)
qed

theorem swift_raw_string_ends_early_witness:
  "\<exists>l'. swift_scan swift_create (lexer_on (codes ''#\"ab'' @ [0x0122] @ codes ''#c\"#'')) (\<lambda>k. k = RAW_STR_PART) =
      Some (True, \<lparr>ongoing_raw_str_hash_count = 0\<rparr>, l') \<and>
    result_symbol l' = Some RAW_STR_END_PART \<and> text_ahead l' = codes ''c\"#''"
  using swift_raw_string_ends_early [of "lexer_on (codes ''#\"ab'' @ [0x0122] @ codes ''#c\"#'')" 1 "codes ''ab''"
      "0x0122" "codes ''c\"#''" swift_create "\<lambda>k. k = RAW_STR_PART"]
  by (simp add: swift_create_def plain_raw_def)

text \<open>The count of hashes is stored as four bytes and read back through a signed \<open>char\<close>: it comes
back for less than 128 hashes, and with 128 to 255 hashes it comes back as a count of more than four
thousand million, so that the string is never closed.\<close>

theorem swift_hash_count_stored:
  assumes "ongoing_raw_str_hash_count s < 256"
  shows "swift_deserialize t (swift_serialize s) =
    (if ongoing_raw_str_hash_count s < 128 then s
     else \<lparr>ongoing_raw_str_hash_count = ongoing_raw_str_hash_count s OR NOT (mask 8)\<rparr>)"
proof (cases "ongoing_raw_str_hash_count s < 128")
  case True
  then show ?thesis using swift_restore [of s t] by (simp add: swift_storable_def)
next
  case False
  then show ?thesis using swift_stored [OF assms, of t] u32_of_char_large assms by simp
qed

theorem swift_hash_count_stored_witness:
  "swift_deserialize swift_create (swift_serialize \<lparr>ongoing_raw_str_hash_count = 200\<rparr>) =
    \<lparr>ongoing_raw_str_hash_count = 0xFFFFFFC8\<rparr>"
  using swift_hash_count_stored [of "\<lparr>ongoing_raw_str_hash_count = 200\<rparr>" swift_create]
  by (simp add: mask_eq_exp_minus_1)

text \<open>C38. A compiler directive at the very end of the input makes the loop go on: the NUL that ends
the name is compared with the 0 that the cursor shows there, and the table's string is then read
behind its end.\<close>

theorem swift_directive_overrun:
  assumes "text_ahead l = c_hash # codes d" and "d \<in> set directives"
    and "ongoing_raw_str_hash_count s = 0" and "valid RAW_STR_PART"
  shows "swift_scan s l valid = None"
proof -
  note a = text_ahead_ConsD [OF assms(1)]
  obtain j where j: "j < length directives" "d = directives ! j" using assms(2) by (auto simp: in_set_conv_nth)
  have "hd0 (codes d) \<noteq> c_hash" "hd0 (codes d) \<noteq> c_dquote" using assms(2) by (auto simp: directives_def)
  then obtain m where m: "count_hashes 0 l = (1, m)" "text_ahead m = codes d"
    using count_hashes_run [of l 1 "codes d" 0] assms(1) by auto
  have "lookahead m \<noteq> c_dquote" using m(2) \<open>hd0 (codes d) \<noteq> c_dquote\<close> by (simp add: lookahead_hd0)
  moreover have "directive_loop (replicate (length directives) True) 0 None (mark_end m) = None"
    using directive_loop_overrun [OF j(1), of "replicate (length directives) True" "mark_end m" 0] j m(2) by simp
  ultimately have "eat_raw_str_part s l valid = None"
    using m assms(3,4) by (simp add: eat_raw_str_part_def find_possible_compiler_directive_def)
  then show ?thesis using a(2) by (simp add: scan_at_hash)
qed

theorem swift_directive_overrun_witness:
  "swift_scan swift_create (lexer_on (codes ''#endif'')) (\<lambda>k. k = RAW_STR_PART) = None"
  using swift_directive_overrun [of "lexer_on (codes ''#endif'')" "''endif''" swift_create "\<lambda>k. k = RAW_STR_PART"]
  by (simp add: swift_create_def directives_def)

end
