(* ===== verification/Script_Text.thy ===== *)
theory Script_Text
  imports Scanner_Interface
begin

text \<open>
  What the scanners of the two ECMAScript-like languages share, \<^verbatim>\<open>arkts-common/scanner.h\<close> and
  \<^verbatim>\<open>cfscript/scanner.c\<close>: loops over the text of a template literal, over a block comment, and over
  white space and comments. Each file has its own copy of these loops; a locale states the equation a
  copy satisfies, and its lemmas say what every such loop does, in terms of references on the text.
\<close>

section \<open>Names\<close>

text \<open>What a name goes on with; from 128 on every character is taken to belong to a name.\<close>

definition script_word_char :: "code_point \<Rightarrow> bool" where
  "script_word_char c \<longleftrightarrow> iswalnum c \<or> c = c_underscore \<or> c = c_dollar \<or> 128 \<le> c"

lemma alnum_script_word: "iswalnum c \<Longrightarrow> script_word_char c"
  by (simp add: script_word_char_def)

lemma alpha_script_word: "iswalpha c \<Longrightarrow> script_word_char c"
  by (simp add: script_word_char_def iswalnum_def)

section \<open>Template text\<close>

text \<open>
  The reference: the number of characters in front of the backtick, the backslash or the \<open>${\<close> that ends
  the text; \<open>None\<close> when the input ends first.
\<close>

fun template_text :: "code_point list \<Rightarrow> nat option" where
  "template_text [] = None"
| "template_text (c # cs) =
     (if c = 0 then None
      else if c = c_backtick \<or> c = c_bslash \<or> c = c_dollar \<and> hd0 cs = c_lbrace then Some 0
      else map_option Suc (template_text cs))"

locale template_loop =
  fixes loop :: "bool \<Rightarrow> 'k lexer \<Rightarrow> bool \<times> 'k lexer"
  assumes loop_eq: "loop has_content l0 =
     (let l = mark_end l0 in
      if lookahead l = c_backtick then (has_content, l)
      else if lookahead l = 0 then (False, l)
      else if lookahead l = c_dollar then
        let l = advance l in
        if lookahead l = c_lbrace then (has_content, l) else loop True l
      else if lookahead l = c_bslash then (has_content, l)
      else loop True (advance l))"
begin

lemma loop_more:
  assumes "lookahead l \<notin> {0, c_backtick, c_bslash}" and "lookahead l = c_dollar \<longrightarrow> lookahead (advance l) \<noteq> c_lbrace"
  shows "loop h l = loop True (advance (mark_end l))"
proof -
  have "lookahead (advance (mark_end l)) = lookahead (advance l)" by (simp add: lookahead_hd0)
  then show ?thesis using assms by (subst loop_eq) (simp add: Let_def)
qed

lemma loop_template_text:
  "case template_text (text_ahead l) of
     None \<Rightarrow> \<not> fst (loop h l)
   | Some n \<Rightarrow> \<exists>l'. loop h l = (h \<or> 0 < n, l') \<and> tok_end l' = Some (pos l + n) \<and> result_symbol l' = result_symbol l"
proof (induction "remaining l" arbitrary: h l rule: less_induct)
  case less
  define m where "m = advance (mark_end l)"
  show ?case
  proof (cases "lookahead l \<in> {0, c_backtick, c_bslash} \<or> lookahead l = c_dollar \<and> lookahead (advance l) = c_lbrace")
    case True
    have look: "lookahead (advance (mark_end l)) = lookahead (advance l)" by (simp add: lookahead_hd0)
    have "loop h l = (h \<and> lookahead l \<noteq> 0, if lookahead l = c_dollar then advance (mark_end l) else mark_end l)"
      using True look by (subst loop_eq) (auto simp: Let_def)
    moreover have "template_text (text_ahead l) = (if lookahead l = 0 then None else Some 0)"
      using True by (cases "text_ahead l") (auto simp: lookahead_hd0 map_tl)
    ultimately show ?thesis by simp
  next
    case False
    then obtain c cs where cs: "text_ahead l = c # cs" "text_ahead (advance l) = cs" "lookahead l = c"
      using text_ahead_nonzero [of l False] by auto
    have "lookahead (advance l) = hd0 cs" using cs(2) by (simp only: lookahead_hd0)
    with False cs have r: "template_text (text_ahead l) = map_option Suc (template_text (text_ahead m))"
      by (auto simp: m_def)
    have "\<not> eof l" using False by (auto dest: lookahead_nonzero)
    then have "remaining m < remaining l" "pos m = Suc (pos l)" "result_symbol m = result_symbol l"
      by (simp_all add: m_def pos_advance)
    moreover have "loop h l = loop True m" unfolding m_def using loop_more False by auto
    ultimately show ?thesis
      using less [of m True] r by (cases "template_text (text_ahead m)") auto
  qed
qed

end

section \<open>Block comments that do not nest\<close>

text \<open>The reference: the number of characters up to and including the first \<open>*/\<close>.\<close>

fun block_close :: "code_point list \<Rightarrow> nat option" where
  "block_close [] = None"
| "block_close (c # cs) =
     (if c = 0 then None
      else if c = c_star \<and> hd0 cs = c_slash then Some 2
      else map_option Suc (block_close cs))"

lemma block_close_ge: "block_close cs = Some n \<Longrightarrow> 2 \<le> n"
  by (induction cs arbitrary: n rule: block_close.induct) (auto split: if_splits)

lemma block_close_le: "block_close cs = Some n \<Longrightarrow> n \<le> length cs"
proof (induction cs arbitrary: n rule: block_close.induct)
  case (2 c cs)
  then show ?case by (cases cs) (auto split: if_splits)
qed simp

locale block_loop =
  fixes loop :: "'s \<Rightarrow> 'k lexer \<Rightarrow> 's \<times> bool \<times> 'k lexer"
    and upd :: "'s \<Rightarrow> code_point \<Rightarrow> 's"
  assumes loop_eq: "loop s l =
     (if lookahead l = 0 then (s, False, l)
      else if lookahead l = c_star then
        let l = skip l in
        if lookahead l = c_slash then (s, True, skip l) else loop s l
      else loop (upd s (lookahead l)) (skip l))"
begin

lemma loop_block_close:
  "case block_close (text_ahead l) of
     None \<Rightarrow> \<not> fst (snd (loop s l)) \<and> lookahead (snd (snd (loop s l))) = 0
   | Some n \<Rightarrow> loop s l =
       (foldl upd s (filter (\<lambda>c. c \<noteq> c_star) (take (n - 2) (text_ahead l))), True, advance_n True n l)"
proof (induction "remaining l" arbitrary: s l rule: less_induct)
  case less
  consider (stop) "lookahead l = 0"
    | (close) "lookahead l = c_star" "lookahead (skip l) = c_slash"
    | (more) "lookahead l \<noteq> 0" "lookahead l = c_star \<longrightarrow> lookahead (skip l) \<noteq> c_slash"
    by blast
  then show ?case
  proof cases
    case stop
    then have "block_close (text_ahead l) = None" by (cases "text_ahead l") (auto simp: lookahead_hd0)
    moreover have "loop s l = (s, False, l)" using stop by (subst loop_eq) simp
    ultimately show ?thesis using stop by simp
  next
    case close
    then have "block_close (text_ahead l) = Some 2"
      by (cases "text_ahead l") (auto simp: lookahead_hd0 map_tl)
    moreover have "loop s l = (s, True, skip (skip l))" using close by (subst loop_eq) (simp add: Let_def)
    ultimately show ?thesis by (simp add: numeral_2_eq_2 advance_n_Suc)
  next
    case more
    then obtain c cs where cs: "text_ahead l = c # cs" "text_ahead (skip l) = cs" "lookahead l = c"
      using text_ahead_nonzero [of l True] by auto
    have "lookahead (skip l) = hd0 cs" using cs(2) by (simp only: lookahead_hd0)
    with more cs have r: "block_close (text_ahead l) = map_option Suc (block_close (text_ahead (skip l)))"
      by auto
    define s1 where "s1 = (if lookahead l = c_star then s else upd s (lookahead l))"
    have step: "loop s l = loop s1 (skip l)"
      using more by (subst loop_eq) (simp add: s1_def Let_def)
    have "remaining (skip l) < remaining l" using more(1) by simp
    note IH = less.hyps [OF this, of s1]
    show ?thesis
    proof (cases "block_close (text_ahead (skip l))")
      case None
      with IH r step show ?thesis by simp
    next
      case (Some n)
      then have n: "2 \<le> n" by (rule block_close_ge)
      have "take (Suc n - 2) (text_ahead l) = c # take (n - 2) cs"
        using n cs(1) by (cases n) (auto simp: numeral_2_eq_2 take_Cons')
      with IH Some r step cs(2,3) show ?thesis
        by (simp add: advance_n_Suc s1_def del: take_Suc_Cons)
    qed
  qed
qed

end

section \<open>White space and comments\<close>

text \<open>
  The language of white space and comments; \<open>stop\<close> is what ends the body of a line comment, a line
  feed among them.
\<close>

inductive trivia :: "(code_point \<Rightarrow> bool) \<Rightarrow> code_point list \<Rightarrow> bool" for stop where
  none: "trivia stop []"
| space: "iswspace c \<Longrightarrow> trivia stop cs \<Longrightarrow> trivia stop (c # cs)"
| line: "list_all (\<lambda>c. \<not> stop c) w \<Longrightarrow> trivia stop cs \<Longrightarrow>
    trivia stop (c_slash # c_slash # w @ c_nl # cs)"
| block: "block_close w = Some (length w) \<Longrightarrow> trivia stop cs \<Longrightarrow>
    trivia stop (c_slash # c_star # w @ cs)"

lemma block_close_append: "block_close w = Some n \<Longrightarrow> block_close (w @ cs) = Some n"
proof (induction w arbitrary: n rule: block_close.induct)
  case (2 c w)
  then show ?case by (cases w) (auto split: if_splits)
qed simp

locale trivia_loop =
  fixes loop :: "'s \<Rightarrow> 'k lexer \<Rightarrow> 'r \<times> 'k lexer"
    and accept reject :: "'s \<Rightarrow> 'r"
    and line_seen :: "'s \<Rightarrow> 's"
    and block :: "'s \<Rightarrow> 'k lexer \<Rightarrow> 's \<times> 'k lexer"
    and stop :: "code_point \<Rightarrow> bool"
  assumes loop_eq: "loop s l0 =
     (let l = advance_while iswspace True l0 in
      if lookahead l = c_slash then
        let l = skip l in
        if lookahead l = c_slash then
          loop (line_seen s) (advance_while (\<lambda>c. \<not> stop c) True (skip l))
        else if lookahead l = c_star then case block s (skip l) of (s, l) \<Rightarrow> loop s l
        else (reject s, l)
      else (accept s, l))"
    and block_law: "block_close (text_ahead l) = Some n \<Longrightarrow> \<exists>s'. block s l = (s', advance_n True n l)"
    and stop_nl: "stop c_nl"
begin

lemma loop_space: "iswspace (lookahead l) \<Longrightarrow> loop s l = loop s (skip l)"
proof -
  assume "iswspace (lookahead l)"
  then have "advance_while iswspace True l = advance_while iswspace True (skip l)"
    by (intro advance_while_step) (auto simp: eof_def lookahead_def)
  then show ?thesis by (simp add: loop_eq [of s l] loop_eq [of s "skip l"])
qed

text \<open>The loop skips any white space and comments in front of something else.\<close>

lemma loop_skips_trivia:
  assumes "trivia stop ts" and "\<not> iswspace (hd0 rest)" and "hd0 rest \<noteq> c_slash"
  shows "text_ahead l = ts @ rest \<Longrightarrow> \<exists>s'. loop s l = (accept s', advance_n True (length ts) l)"
  using assms(1)
proof (induction ts arbitrary: s l rule: trivia.induct)
  case none
  then have "\<not> iswspace (lookahead l)" "lookahead l \<noteq> c_slash"
    using assms(2,3) by (simp_all add: lookahead_hd0)
  then show ?case by (auto simp: loop_eq [of s l] advance_while_stop)
next
  case (space c cs)
  then have a: "text_ahead l = c # cs @ rest" by simp
  from space(3) [OF text_ahead_ConsD(1) [OF a]] loop_space [of l s] space(1) text_ahead_ConsD(2) [OF a]
  show ?case by (simp add: advance_n_Suc)
next
  case (line w cs)
  then have a: "text_ahead l = c_slash # c_slash # w @ c_nl # cs @ rest" by simp
  note b = text_ahead_ConsD [OF a] 
  note c = text_ahead_ConsD [OF b(1)]
  define m where "m = skip (skip l)"
  have "takeWhile (\<lambda>c. \<not> stop c) (text_ahead m) = w"
    using c(1) [of True] line(1) stop_nl by (auto simp: m_def takeWhile_append2 list_all_iff)
  then have run: "advance_while (\<lambda>c. \<not> stop c) True m = advance_n True (length w) m"
    by (simp add: advance_while_advance_n)
  define m2 where "m2 = advance_n True (length w) m"
  have m2: "text_ahead m2 = c_nl # cs @ rest"
    unfolding m2_def by (rule text_ahead_advance_n) (use c(1) [of True] in \<open>simp add: m_def\<close>)
  note d = text_ahead_ConsD [OF m2]
  have "loop s l = loop (line_seen s) m2"
    using b(2) c(2) [of True] run by (simp add: loop_eq [of s l] advance_while_stop iswspace_def m_def m2_def Let_def)
  also have "\<dots> = loop (line_seen s) (skip m2)" using loop_space [of m2] d(2) by (simp add: iswspace_def)
  finally obtain s' where "loop s l = (accept s', advance_n True (length cs) (skip m2))"
    using line(3) [OF d(1)] by metis
  moreover have "advance_n True (length cs) (skip m2) =
    advance_n True (length (c_slash # c_slash # w @ c_nl # cs)) l"
    by (simp add: m2_def m_def lex_advance_advance_n advance_n_add advance_n_Suc)
  ultimately show ?case by auto
next
  case (block w cs)
  then have a: "text_ahead l = c_slash # c_star # w @ cs @ rest" by simp
  note b = text_ahead_ConsD [OF a]
  note c = text_ahead_ConsD [OF b(1)]
  define m where "m = skip (skip l)"
  have m: "text_ahead m = w @ cs @ rest" using c(1) [of True] by (simp add: m_def)
  then obtain s1 where "block s m = (s1, advance_n True (length w) m)"
    using block_law [of m "length w" s] block_close_append [OF block(1)] by auto
  then have "loop s l = loop s1 (advance_n True (length w) m)"
    using b(2) c(2) [of True]
    by (simp add: loop_eq [of s l] advance_while_stop iswspace_def m_def Let_def)
  moreover obtain s' where "loop s1 (advance_n True (length w) m) =
      (accept s', advance_n True (length cs) (advance_n True (length w) m))"
    using block(3) [OF text_ahead_advance_n [OF m]] by blast
  ultimately show ?case by (auto simp: m_def advance_n_add advance_n_Suc)
qed

end

end
