(* ===== verification/Arkts.thy ===== *)
theory Arkts
  imports Script_Text "HOL-Library.Sublist"
begin

text \<open>
  \<^verbatim>\<open>codegraph-kernel/grammars/arkts-common/scanner.h\<close> and \<^verbatim>\<open>arkts/scanner.c\<close>: template literals,
  automatic semicolons, the question mark of a ternary expression, HTML comments and JSX text. The
  scanner keeps no state.
\<close>

section \<open>Definitions\<close>

datatype arkts_token =
    AUTOMATIC_SEMICOLON | TEMPLATE_CHARS | TERNARY_QMARK | HTML_COMMENT | LOGICAL_OR
  | ESCAPE_SEQUENCE | REGEX_PATTERN | JSX_TEXT | FUNCTION_SIGNATURE_AUTOMATIC_SEMICOLON
  | ERROR_RECOVERY

definition arkts_create :: unit where
  "arkts_create = ()"

definition arkts_serialize :: "unit \<Rightarrow> byte list" where
  "arkts_serialize p = []"

definition arkts_deserialize :: "unit \<Rightarrow> byte list \<Rightarrow> unit" where
  "arkts_deserialize p b = ()"

function arkts_template_loop :: "bool \<Rightarrow> 'k lexer \<Rightarrow> bool \<times> 'k lexer" where
  "arkts_template_loop has_content l0 =
     (let l = mark_end l0 in
      if lookahead l = c_backtick then (has_content, l)
      else if lookahead l = 0 then (False, l)
      else if lookahead l = c_dollar then
        let l = advance l in
        if lookahead l = c_lbrace then (has_content, l) else arkts_template_loop True l
      else if lookahead l = c_bslash then (has_content, l)
      else arkts_template_loop True (advance l))"
  by pat_completeness auto
termination by (relation "measure (\<lambda>(_, l). remaining l)") auto

declare arkts_template_loop.simps [simp del]

definition arkts_scan_template_chars :: "arkts_token lexer \<Rightarrow> bool \<times> arkts_token lexer" where
  "arkts_scan_template_chars l = arkts_template_loop False (set_result TEMPLATE_CHARS l)"

text \<open>The loop over a block comment, with the information whether it ended at \<open>*/\<close>.\<close>

function arkts_block_comment :: "'k lexer \<Rightarrow> bool \<times> 'k lexer" where
  "arkts_block_comment l =
     (if lookahead l = 0 then (False, l)
      else if lookahead l = c_star then
        let l = skip l in
        if lookahead l = c_slash then (True, skip l) else arkts_block_comment l
      else arkts_block_comment (skip l))"
  by pat_completeness auto
termination by (relation "measure remaining") auto

declare arkts_block_comment.simps [simp del]

lemma fwd_arkts_block_comment [runs_rules]: "runs l0 l \<Longrightarrow> fwd l0 (arkts_block_comment l)"
proof (induction l rule: arkts_block_comment.induct)
  case (1 l)
  then show ?case by (subst arkts_block_comment.simps) (auto simp: Let_def intro!: runs_rules)
qed

lemma arkts_block_le: "remaining (snd (arkts_block_comment l)) \<le> remaining l"
  by (rule fwd_remaining) (rule fwd_arkts_block_comment [OF runs_refl])

text \<open>\<open>scan_whitespace_and_comments\<close>: its result, and \<open>*scanned_comment\<close>.\<close>

function arkts_scan_whitespace_and_comments :: "bool \<Rightarrow> 'k lexer \<Rightarrow> (bool \<times> bool) \<times> 'k lexer" where
  "arkts_scan_whitespace_and_comments scanned_comment l0 =
     (let l = advance_while iswspace True l0 in
      if lookahead l = c_slash then
        let l = skip l in
        if lookahead l = c_slash then
          arkts_scan_whitespace_and_comments True
            (advance_while (\<lambda>c. \<not> (c = 0 \<or> c = c_nl)) True (skip l))
        else if lookahead l = c_star then
          arkts_scan_whitespace_and_comments scanned_comment (snd (arkts_block_comment (skip l)))
        else ((False, scanned_comment), l)
      else ((True, scanned_comment), l))"
  by pat_completeness auto
termination
proof (relation "measure (\<lambda>(_, l). remaining l)", goal_cases)
  case (2 s l0 l l')
  then have "remaining l' < remaining l0"
    using advance_after_run [of iswspace True l0 True] by simp
  then show ?case using 2 by (auto intro!: le_less_trans [OF remaining_advance_while] intro: le_less_trans)
next
  case (3 s l0 l l')
  then have "remaining l' < remaining l0"
    using advance_after_run [of iswspace True l0 True] by simp
  then show ?case using 3 arkts_block_le [of "skip l'"] by (auto intro: le_less_trans)
qed simp

declare arkts_scan_whitespace_and_comments.simps [simp del]

text \<open>
  The first loop of \<open>scan_automatic_semicolon\<close>: \<open>Some b\<close> when the function returns \<open>b\<close> there, \<open>None\<close>
  when it stands on a line feed.
\<close>

function arkts_line_end :: "(arkts_token \<Rightarrow> bool) \<Rightarrow> 'k lexer \<Rightarrow> bool option \<times> 'k lexer" where
  "arkts_line_end valid l =
     (if lookahead l = 0 then (Some True, l)
      else if lookahead l = c_rbrace then
        let l = advance_while iswspace True (skip l) in
        if lookahead l = c_colon then (Some (valid LOGICAL_OR), l) else (Some True, l)
      else if \<not> iswspace (lookahead l) then (Some False, l)
      else if lookahead l = c_nl then (None, l)
      else arkts_line_end valid (skip l))"
  by pat_completeness auto
termination by (relation "measure (\<lambda>(_, l). remaining l)") auto

declare arkts_line_end.simps [simp del]

definition arkts_continuation_chars :: "code_point list" where
  "arkts_continuation_chars =
     [c_backtick, c_comma, c_dot, c_semi, c_star, c_percent, c_gt, c_lt, c_eq, c_quest, c_caret, c_bar,
      c_amp, c_slash, c_colon]"

text \<open>The loop over the characters of a keyword, with \<open>skip\<close>.\<close>

fun skip_word :: "code_point list \<Rightarrow> 'k lexer \<Rightarrow> bool \<times> 'k lexer" where
  "skip_word [] l = (True, l)"
| "skip_word (c # cs) l = (if lookahead l \<noteq> c then (False, l) else skip_word cs (skip l))"

definition arkts_next_line :: "(arkts_token \<Rightarrow> bool) \<Rightarrow> 'k lexer \<Rightarrow> bool \<times> 'k lexer" where
  "arkts_next_line valid l =
     (if lookahead l \<in> set arkts_continuation_chars then (False, l)
      else if lookahead l = c_lbrace then (\<not> valid FUNCTION_SIGNATURE_AUTOMATIC_SEMICOLON, l)
      else if lookahead l = c_lparen \<or> lookahead l = c_lbrack then (\<not> valid LOGICAL_OR, l)
      else if lookahead l = c_plus then let l = skip l in (lookahead l = c_plus, l)
      else if lookahead l = c_minus then let l = skip l in (lookahead l = c_minus, l)
      else if lookahead l = c_bang then let l = skip l in (lookahead l \<noteq> c_eq, l)
      else if lookahead l = c_i then
        let l = skip l in
        if lookahead l \<noteq> c_n then (True, l)
        else
          let l = skip l in
          if \<not> iswalpha (lookahead l) then (False, l)
          else
            let (b, l) = skip_word (codes ''stanceof'') l in
            if \<not> b then (True, l) else (iswalpha (lookahead l), l)
      else (True, l))"

text \<open>\<open>scan_automatic_semicolon\<close>, with \<open>*scanned_comment\<close>.\<close>

definition arkts_scan_automatic_semicolon ::
  "arkts_token lexer \<Rightarrow> (arkts_token \<Rightarrow> bool) \<Rightarrow> (bool \<times> bool) \<times> arkts_token lexer" where
  "arkts_scan_automatic_semicolon l valid =
     (let l = mark_end (set_result AUTOMATIC_SEMICOLON l) in
      case arkts_line_end valid l of
        (Some b, l) \<Rightarrow> ((b, False), l)
      | (None, l) \<Rightarrow>
          let l = skip l;
              ((ok, scanned_comment), l) = arkts_scan_whitespace_and_comments False l in
          if \<not> ok then ((False, scanned_comment), l)
          else let (b, l) = arkts_next_line valid l in ((b, scanned_comment), l))"

definition arkts_scan_ternary_qmark :: "arkts_token lexer \<Rightarrow> bool \<times> arkts_token lexer" where
  "arkts_scan_ternary_qmark l =
     (let l = advance_while iswspace True l in
      if lookahead l = c_quest then
        let l = advance l in
        if lookahead l = c_quest \<or> lookahead l = c_dot then (False, l)
        else
          let l = set_result TERNARY_QMARK (mark_end l);
              l = advance_while iswspace False l in
          if lookahead l = c_colon \<or> lookahead l = c_rparen \<or> lookahead l = c_comma then (False, l)
          else if lookahead l = c_dot then
            let l = advance l in (iswdigit (lookahead l), l)
          else (True, l)
      else (False, l))"

fun advance_word :: "code_point list \<Rightarrow> 'k lexer \<Rightarrow> bool \<times> 'k lexer" where
  "advance_word [] l = (True, l)"
| "advance_word (c # cs) l = (if lookahead l \<noteq> c then (False, l) else advance_word cs (advance l))"

definition line_separator :: "code_point \<Rightarrow> bool" where
  "line_separator c \<longleftrightarrow> c = 0x2028 \<or> c = 0x2029"

definition arkts_scan_closing_comment :: "arkts_token lexer \<Rightarrow> bool \<times> arkts_token lexer" where
  "arkts_scan_closing_comment l =
     (let l = advance_while (\<lambda>c. iswspace c \<or> line_separator c) True l;
          (b, l) = (if lookahead l = c_lt then advance_word (codes ''<!--'') l
                    else if lookahead l = c_minus then advance_word (codes ''-->'') l
                    else (False, l)) in
      if \<not> b then (False, l)
      else
        let l = advance_while (\<lambda>c. c \<noteq> 0 \<and> c \<noteq> c_nl \<and> \<not> line_separator c) False l in
        (True, mark_end (set_result HTML_COMMENT l)))"

definition jsx_stop :: "code_point list" where
  "jsx_stop = [0, c_lt, c_gt, c_lbrace, c_rbrace, c_amp]"

function jsx_loop :: "bool \<Rightarrow> bool \<Rightarrow> 'k lexer \<Rightarrow> bool \<times> 'k lexer" where
  "jsx_loop saw_text at_newline l =
     (if lookahead l \<notin> set jsx_stop then
        if lookahead l = c_nl then jsx_loop saw_text True (advance l)
        else
          let at_newline = (at_newline \<and> iswspace (lookahead l)) in
          jsx_loop (saw_text \<or> \<not> at_newline) at_newline (advance l)
      else (saw_text, l))"
  by pat_completeness auto
termination by (relation "measure (\<lambda>(_, _, l). remaining l)") (auto simp: jsx_stop_def)

declare jsx_loop.simps [simp del]

definition scan_jsx_text :: "arkts_token lexer \<Rightarrow> bool \<times> arkts_token lexer" where
  "scan_jsx_text l = (let (saw_text, l) = jsx_loop False False l in (saw_text, set_result JSX_TEXT l))"

text \<open>\<open>external_scanner_scan\<close>, behind the attempt to read JSX text, and as a whole.\<close>

definition arkts_scan_rest ::
  "arkts_token lexer \<Rightarrow> (arkts_token \<Rightarrow> bool) \<Rightarrow> bool \<times> arkts_token lexer" where
  "arkts_scan_rest l valid =
     (if valid AUTOMATIC_SEMICOLON \<or> valid FUNCTION_SIGNATURE_AUTOMATIC_SEMICOLON then
        let ((ret, scanned_comment), l) = arkts_scan_automatic_semicolon l valid in
        if \<not> ret \<and> \<not> scanned_comment \<and> valid TERNARY_QMARK \<and> lookahead l = c_quest
        then arkts_scan_ternary_qmark l
        else (ret, l)
      else if valid TERNARY_QMARK then arkts_scan_ternary_qmark l
      else if valid HTML_COMMENT \<and> \<not> valid LOGICAL_OR \<and> \<not> valid ESCAPE_SEQUENCE \<and> \<not> valid REGEX_PATTERN
      then arkts_scan_closing_comment l
      else (False, l))"

definition arkts_scan ::
  "arkts_token lexer \<Rightarrow> (arkts_token \<Rightarrow> bool) \<Rightarrow> bool \<times> arkts_token lexer" where
  "arkts_scan l valid =
     (if valid TEMPLATE_CHARS then
        if valid AUTOMATIC_SEMICOLON then (False, l) else arkts_scan_template_chars l
      else
        let (b, l) = (if valid JSX_TEXT then scan_jsx_text l else (False, l)) in
        if b then (True, l) else arkts_scan_rest l valid)"

definition arkts_scan_fun :: "(unit, arkts_token) scan_fun" where
  "arkts_scan_fun p l valid = (case arkts_scan l valid of (ok, l') \<Rightarrow> Some (ok, (), l'))"

section \<open>The cursor\<close>

lemma fwd_arkts_template_loop [runs_rules]: "runs l0 l \<Longrightarrow> fwd l0 (arkts_template_loop h l)"
proof (induction h l rule: arkts_template_loop.induct)
  case (1 h l)
  then show ?case by (subst arkts_template_loop.simps) (auto simp: Let_def intro!: runs_rules)
qed

lemma fwd_arkts_scan_whitespace_and_comments [runs_rules]:
  "runs l0 l \<Longrightarrow> fwd l0 (arkts_scan_whitespace_and_comments s l)"
proof (induction s l rule: arkts_scan_whitespace_and_comments.induct)
  case (1 s l)
  have block: "runs l0 (snd (arkts_block_comment m))" if "runs l0 m" for m
    using fwd_arkts_block_comment [OF that] by (simp add: fwd_def)
  show ?case
    using 1 block by (subst arkts_scan_whitespace_and_comments.simps) (auto simp: Let_def intro!: runs_rules)
qed

lemma fwd_arkts_line_end [runs_rules]: "runs l0 l \<Longrightarrow> fwd l0 (arkts_line_end valid l)"
proof (induction valid l rule: arkts_line_end.induct)
  case (1 valid l)
  then show ?case by (subst arkts_line_end.simps) (auto simp: Let_def intro!: runs_rules)
qed

lemma fwd_skip_word [runs_rules]: "runs l0 l \<Longrightarrow> fwd l0 (skip_word cs l)"
  by (induction cs arbitrary: l) (auto intro!: runs_rules)

lemma fwd_advance_word [runs_rules]: "runs l0 l \<Longrightarrow> fwd l0 (advance_word cs l)"
  by (induction cs arbitrary: l) (auto intro!: runs_rules)

lemma fwd_arkts_next_line [runs_rules]: "runs l0 l \<Longrightarrow> fwd l0 (arkts_next_line valid l)"
  unfolding arkts_next_line_def by (intro runs_rules)

lemma fwd_arkts_scan_automatic_semicolon [runs_rules]:
  assumes "runs l0 l"
  shows "fwd l0 (arkts_scan_automatic_semicolon l valid)"
proof -
  obtain r m where m: "arkts_line_end valid (mark_end (set_result AUTOMATIC_SEMICOLON l)) = (r, m)" by fastforce
  then have "runs l0 m"
    using fwd_arkts_line_end [of l0 "mark_end (set_result AUTOMATIC_SEMICOLON l)" valid] assms by (simp add: fwd_def)
  moreover obtain b c m2 where w: "arkts_scan_whitespace_and_comments False (skip m) = ((b, c), m2)" by (metis surj_pair)
  ultimately have "runs l0 m2"
    using fwd_arkts_scan_whitespace_and_comments [of l0 "skip m" False] by (simp add: fwd_def)
  then have "fwd l0 (arkts_next_line valid m2)" by (rule fwd_arkts_next_line)
  with m w \<open>runs l0 m\<close> \<open>runs l0 m2\<close> show ?thesis
    by (auto simp: arkts_scan_automatic_semicolon_def Let_def fwd_simps fwd_def split: option.split prod.splits)
qed

lemma fwd_jsx_loop [runs_rules]: "runs l0 l \<Longrightarrow> fwd l0 (jsx_loop s a l)"
proof (induction s a l rule: jsx_loop.induct)
  case (1 s a l)
  then show ?case by (subst jsx_loop.simps) (auto simp: Let_def intro!: runs_rules)
qed

lemma fwd_arkts_scan [runs_rules]: "runs l0 l \<Longrightarrow> fwd l0 (arkts_scan l valid)"
  unfolding arkts_scan_def arkts_scan_rest_def arkts_scan_template_chars_def scan_jsx_text_def
    arkts_scan_ternary_qmark_def arkts_scan_closing_comment_def
  by (intro runs_rules) (auto intro!: runs_rules)

interpretation arkts: resetting_scanner arkts_create "\<lambda>_. True" arkts_serialize arkts_deserialize arkts_scan_fun
proof unfold_locales
  fix s l valid ok s' l'
  assume "arkts_scan_fun s l valid = Some (ok, s', l')"
  then have "arkts_scan l valid = (ok, l')" by (simp add: arkts_scan_fun_def split: prod.splits)
  then show "runs l l'"
    using fwd_arkts_scan [OF runs_refl, of l valid] by (simp add: fwdD)
qed (simp_all add: arkts_serialize_def serialization_buffer_size_def)

section \<open>The loops satisfy the shared laws\<close>

interpretation arkts_template: template_loop arkts_template_loop
  by unfold_locales (rule arkts_template_loop.simps)

definition arkts_block :: "unit \<Rightarrow> 'k lexer \<Rightarrow> unit \<times> bool \<times> 'k lexer" where
  "arkts_block u l = (u, arkts_block_comment l)"

interpretation arkts_block: block_loop arkts_block "\<lambda>u _. u"
  by unfold_locales
    (simp add: arkts_block_def arkts_block_comment.simps [of l for l] Let_def)

interpretation arkts_trivia: trivia_loop arkts_scan_whitespace_and_comments
  "\<lambda>s. (True, s)" "\<lambda>s. (False, s)" "\<lambda>_. True" "\<lambda>s l. (s, snd (arkts_block_comment l))"
  "\<lambda>c. c = 0 \<or> c = c_nl"
proof (unfold_locales, goal_cases)
  case (1 s l0)
  show ?case by (subst arkts_scan_whitespace_and_comments.simps) (simp add: Let_def)
next
  case (2 l n s)
  then show ?case using arkts_block.loop_block_close [where l = l and s = "()"] by (simp add: arkts_block_def)
qed simp

section \<open>Where a semicolon is inserted\<close>

text \<open>
  The reference on the text of the next line, behind white space and comments: does a statement start
  there? A keyword is a whole word, as the comment in the source has it: no semicolon before \<open>in\<close> and
  \<open>instanceof\<close>, but one before a name.
\<close>

definition word_ahead :: "string \<Rightarrow> code_point list \<Rightarrow> bool" where
  "word_ahead w cs \<longleftrightarrow> prefix (codes w) cs \<and> \<not> script_word_char (hd0 (drop (length w) cs))"

definition arkts_starts_statement :: "(arkts_token \<Rightarrow> bool) \<Rightarrow> code_point list \<Rightarrow> bool" where
  "arkts_starts_statement valid cs =
     (let c = hd0 cs; d = hd0 (tl cs) in
      c \<notin> set arkts_continuation_chars \<and>
      (c = c_lbrace \<longrightarrow> \<not> valid FUNCTION_SIGNATURE_AUTOMATIC_SEMICOLON) \<and>
      (c = c_lparen \<or> c = c_lbrack \<longrightarrow> \<not> valid LOGICAL_OR) \<and>
      (c = c_plus \<or> c = c_minus \<longrightarrow> d = c) \<and>
      (c = c_bang \<longrightarrow> d \<noteq> c_eq) \<and>
      \<not> word_ahead ''in'' cs \<and> \<not> word_ahead ''instanceof'' cs)"

text \<open>
  The scanner ends a word where no letter follows, so that a name that goes on with a digit, an
  underscore, a dollar sign or a character outside ASCII is taken for the keyword it begins with.
\<close>

definition name_misread :: "string \<Rightarrow> code_point list \<Rightarrow> bool" where
  "name_misread w cs \<longleftrightarrow> prefix (codes w) cs \<and> script_word_char (hd0 (drop (length w) cs)) \<and>
     \<not> iswalpha (hd0 (drop (length w) cs))"

definition arkts_misread :: "code_point list \<Rightarrow> bool" where
  "arkts_misread cs \<longleftrightarrow> name_misread ''in'' cs \<or> name_misread ''instanceof'' cs"

definition letters_ahead :: "string \<Rightarrow> code_point list \<Rightarrow> bool" where
  "letters_ahead w cs \<longleftrightarrow> prefix (codes w) cs \<and> \<not> iswalpha (hd0 (drop (length w) cs))"

definition arkts_next_letters :: "(arkts_token \<Rightarrow> bool) \<Rightarrow> code_point list \<Rightarrow> bool" where
  "arkts_next_letters valid cs =
     (let c = hd0 cs; d = hd0 (tl cs) in
      c \<notin> set arkts_continuation_chars \<and>
      (c = c_lbrace \<longrightarrow> \<not> valid FUNCTION_SIGNATURE_AUTOMATIC_SEMICOLON) \<and>
      (c = c_lparen \<or> c = c_lbrack \<longrightarrow> \<not> valid LOGICAL_OR) \<and>
      (c = c_plus \<or> c = c_minus \<longrightarrow> d = c) \<and>
      (c = c_bang \<longrightarrow> d \<noteq> c_eq) \<and>
      \<not> letters_ahead ''in'' cs \<and> \<not> letters_ahead ''instanceof'' cs)"

lemma letters_ahead_iff: "letters_ahead w cs \<longleftrightarrow> word_ahead w cs \<or> name_misread w cs"
  using alpha_script_word by (auto simp: letters_ahead_def word_ahead_def name_misread_def)

lemma arkts_next_misread:
  "arkts_next_letters valid cs \<longleftrightarrow> arkts_starts_statement valid cs \<and> \<not> arkts_misread cs"
  by (auto simp: arkts_next_letters_def arkts_starts_statement_def arkts_misread_def letters_ahead_iff Let_def)

text \<open>There the next line is a statement all the same.\<close>

lemma misread_starts: "arkts_misread cs \<Longrightarrow> arkts_starts_statement valid cs"
proof -
  assume m: "arkts_misread cs"
  then have p: "prefix (codes ''in'') cs" "script_word_char (hd0 (drop 2 cs))"
    using alpha_script_word [of 115]
    by (auto simp: arkts_misread_def name_misread_def prefix_def iswalpha_def)
  have "\<not> word_ahead ''instanceof'' cs"
  proof
    assume w: "word_ahead ''instanceof'' cs"
    then have "\<not> name_misread ''instanceof'' cs" by (simp add: word_ahead_def name_misread_def)
    then have "name_misread ''in'' cs" using m by (simp add: arkts_misread_def)
    with w show False by (auto simp: word_ahead_def name_misread_def prefix_def iswalpha_def)
  qed
  moreover have "\<not> word_ahead ''in'' cs" using p(2) by (simp add: word_ahead_def numeral_2_eq_2)
  moreover obtain r where "cs = c_i # r" using p(1) by (auto simp: prefix_def)
  ultimately show ?thesis by (simp add: arkts_starts_statement_def arkts_continuation_chars_def)
qed

lemma skip_word_prefix:
  "\<exists>m. skip_word w l = (prefix w (text_ahead l), m) \<and>
     (prefix w (text_ahead l) \<longrightarrow> text_ahead m = drop (length w) (text_ahead l))"
  if "0 \<notin> set w"
  using that
proof (induction w arbitrary: l)
  case (Cons c w)
  show ?case
  proof (cases "lookahead l = c")
    case True
    then obtain cs where cs: "text_ahead l = c # cs" "text_ahead (skip l) = cs"
      using Cons.prems text_ahead_nonzero [of l True] by auto
    with True Cons.IH [of "skip l"] Cons.prems show ?thesis by simp
  next
    case False
    then have "\<not> prefix (c # w) (text_ahead l)"
      by (cases "text_ahead l") (auto simp: lookahead_hd0)
    with False show ?thesis by simp
  qed
qed simp

lemma arkts_in_words:
  assumes "text_ahead l = c_i # cs" and "l1 = skip l" and "l2 = skip l1"
  shows "(letters_ahead ''in'' (c_i # cs) \<or> letters_ahead ''instanceof'' (c_i # cs)) \<longleftrightarrow>
    lookahead l1 = c_n \<and> (\<not> iswalpha (lookahead l2) \<or>
      fst (skip_word (codes ''stanceof'') l2) \<and> \<not> iswalpha (lookahead (snd (skip_word (codes ''stanceof'') l2))))"
proof -
  have l1: "text_ahead l1 = cs" using assms text_ahead_ConsD(1) [OF assms(1)] by simp
  then have l2: "text_ahead l2 = tl cs" using assms(3) by (simp add: map_tl)
  define st where "st = codes ''stanceof''"
  have st: "codes ''instanceof'' = c_i # c_n # st" "length st = 8" "0 \<notin> set st" by (simp_all add: st_def)
  obtain m where m: "skip_word st l2 = (prefix st (tl cs), m)" "prefix st (tl cs) \<longrightarrow> text_ahead m = drop 8 (tl cs)"
    using skip_word_prefix [OF st(3), of l2] l2 st(2) by auto
  have n: "lookahead l1 = c_n \<longleftrightarrow> cs \<noteq> [] \<and> hd cs = c_n"
    using l1 by (cases cs) (simp_all add: lookahead_hd0)
  have w1: "letters_ahead ''in'' (c_i # cs) \<longleftrightarrow> lookahead l1 = c_n \<and> \<not> iswalpha (lookahead l2)"
    using n l2 by (cases cs) (auto simp: letters_ahead_def lookahead_hd0)
  have d: "length ''instanceof'' = 10" "drop 10 (c_i # cs) = drop 8 (tl cs)"
    by simp (cases cs; simp add: eval_nat_numeral)
  have w2: "letters_ahead ''instanceof'' (c_i # cs) \<longleftrightarrow>
    lookahead l1 = c_n \<and> prefix st (tl cs) \<and> \<not> iswalpha (hd0 (drop 8 (tl cs)))"
    unfolding letters_ahead_def st(1) d using n by (cases cs) auto
  show ?thesis
    unfolding w1 w2 st_def [symmetric] using m by (auto simp: lookahead_hd0)
qed

lemma arkts_next_line_text: "fst (arkts_next_line valid l) = arkts_next_letters valid (text_ahead l)"
proof (cases "lookahead l = c_i")
  case True
  then obtain cs where cs: "text_ahead l = c_i # cs" using text_ahead_nonzero [of l True] by auto
  have "fst (arkts_next_line valid l) \<longleftrightarrow> \<not> (lookahead (skip l) = c_n \<and> (\<not> iswalpha (lookahead (skip (skip l))) \<or>
      fst (skip_word (codes ''stanceof'') (skip (skip l))) \<and>
      \<not> iswalpha (lookahead (snd (skip_word (codes ''stanceof'') (skip (skip l)))))))"
    using True by (simp add: arkts_next_line_def arkts_continuation_chars_def Let_def split_beta del: codes_Cons)
  then show ?thesis
    unfolding arkts_in_words [OF cs refl refl, symmetric] cs
    by (simp add: arkts_next_letters_def arkts_continuation_chars_def)
next
  case False
  then have "\<not> letters_ahead ''in'' (text_ahead l)" "\<not> letters_ahead ''instanceof'' (text_ahead l)"
    by (cases "text_ahead l"; auto simp: letters_ahead_def lookahead_hd0)+
  moreover have "lookahead (skip l) = hd0 (tl (text_ahead l))" by (simp add: lookahead_hd0 map_tl)
  moreover have "lookahead l = hd0 (text_ahead l)" by (rule lookahead_hd0)
  ultimately show ?thesis
    using False by (auto simp: arkts_next_line_def arkts_next_letters_def Let_def arkts_continuation_chars_def)
qed

lemma arkts_line_end_blanks:
  assumes "list_all (\<lambda>c. iswspace c \<and> c \<noteq> c_nl) bl"
  shows "text_ahead l = bl @ c_nl # cs \<Longrightarrow> arkts_line_end valid l = (None, advance_n True (length bl) l)"
  using assms
proof (induction bl arbitrary: l)
  case Nil
  then show ?case by (simp add: arkts_line_end.simps [of valid l] lookahead_hd0 iswspace_def)
next
  case (Cons b bl)
  then have "text_ahead l = b # bl @ c_nl # cs" by simp
  note a = text_ahead_ConsD [OF this]
  have "b \<noteq> 0" "b \<noteq> c_rbrace" "iswspace b" "b \<noteq> c_nl" using Cons.prems by (auto simp: iswspace_def)
  then have "arkts_line_end valid l = arkts_line_end valid (skip l)"
    using a(2) by (simp add: arkts_line_end.simps [of valid l])
  with Cons a(1) show ?case by (simp add: advance_n_Suc)
qed

text \<open>The function behind the line break looks at no more than eleven characters.\<close>

lemma skip_word_within: "\<exists>k \<le> length w. snd (skip_word w l) = advance_n True k l"
proof (induction w arbitrary: l)
  case (Cons c w)
  obtain k where "k \<le> length w" "snd (skip_word w (skip l)) = advance_n True k (skip l)"
    using Cons.IH by blast
  then have "Suc k \<le> length (c # w)" "snd (skip_word w (skip l)) = advance_n True (Suc k) l"
    by (simp_all add: advance_n_Suc)
  then show ?case by (metis advance_n_0 le0 skip_word.simps(2) snd_conv)
qed simp

lemma arkts_next_line_within: "\<exists>k \<le> 10. snd (arkts_next_line valid l) = advance_n True k l"
proof -
  obtain k where k: "k \<le> 8" "snd (skip_word (codes ''stanceof'') (skip (skip l))) = advance_n True k (skip (skip l))"
    using skip_word_within [of "codes ''stanceof''" "skip (skip l)"] by (auto simp: eval_nat_numeral simp del: codes_Cons)
  then have w: "snd (skip_word (codes ''stanceof'') (skip (skip l))) = advance_n True (Suc (Suc k)) l" "Suc (Suc k) \<le> 10"
    by (simp_all add: advance_n_Suc del: codes_Cons)
  have "snd (arkts_next_line valid l) \<in>
    {l, skip l, skip (skip l), snd (skip_word (codes ''stanceof'') (skip (skip l)))}"
    by (auto simp: arkts_next_line_def Let_def split_beta simp del: codes_Cons)
  then consider "snd (arkts_next_line valid l) = advance_n True 0 l"
    | "snd (arkts_next_line valid l) = advance_n True 1 l" | "snd (arkts_next_line valid l) = advance_n True 2 l"
    | "snd (arkts_next_line valid l) = advance_n True (Suc (Suc k)) l"
    using w(1) by (auto simp: advance_n_Suc numeral_2_eq_2)
  then show ?thesis using w(2) by cases (rule exI, rule conjI [rotated], assumption, simp)+
qed

section \<open>JSX text\<close>

lemma jsx_loop_run:
  fixes l :: "'k lexer"
  defines "run \<equiv> \<lambda>l :: 'k lexer. takeWhile (\<lambda>c. c \<notin> set jsx_stop) (text_ahead l)"
  shows "fst (jsx_loop s a l) = (s \<or> run l \<noteq> [] \<and> \<not> (a \<or> hd (run l) = c_nl) \<or> (\<exists>c \<in> set (run l). \<not> iswspace c)) \<and>
    snd (jsx_loop s a l) = advance_n False (length (run l)) l"
proof (induction "remaining l" arbitrary: s a l rule: less_induct)
  case less
  have "\<not> (\<lambda>c. c \<notin> set jsx_stop) 0" by (simp add: jsx_stop_def)
  then show ?case
  proof (cases rule: class_run_cases [where P = "\<lambda>c. c \<notin> set jsx_stop" and l = l and b = False])
    case more
    define c where "c = lookahead l"
    have step: "jsx_loop s a l = (if c = c_nl then jsx_loop s True (advance l)
      else jsx_loop (s \<or> \<not> (a \<and> iswspace c)) (a \<and> iswspace c) (advance l))"
      using more(1) by (simp add: jsx_loop.simps [of s a l] c_def Let_def)
    have r: "run l = c # run (advance l)" using more(3) by (simp add: run_def c_def)
    have "remaining (advance l) < remaining l" using more(2) by simp
    note IH = less [OF this]
    show ?thesis
      using IH [of s True] IH [of "s \<or> \<not> (a \<and> iswspace c)" "a \<and> iswspace c"] step r
      by (auto simp: advance_n_Suc iswspace_def)
  next
    case stop
    then show ?thesis by (simp add: jsx_loop.simps [of s a l] run_def)
  qed
qed

lemma arkts_semicolon_scan:
  assumes "text_ahead l = bl @ c_nl # ts @ rest"
    and "list_all (\<lambda>c. iswspace c \<and> c \<noteq> c_nl) bl" and "trivia (\<lambda>c. c = 0 \<or> c = c_nl) ts"
    and "\<not> iswspace (hd0 rest)" and "hd0 rest \<noteq> c_slash"
    and "valid AUTOMATIC_SEMICOLON" and "\<not> valid TEMPLATE_CHARS" and "\<not> valid JSX_TEXT"
    and "\<not> (valid TERNARY_QMARK \<and> c_quest \<in> set (take 11 rest))"
  shows "\<exists>l'. arkts_scan l valid = (arkts_next_letters valid rest, l') \<and>
    token_end l' = pos l \<and> result_symbol l' = Some AUTOMATIC_SEMICOLON"
proof -
  define l0 where "l0 = mark_end (set_result AUTOMATIC_SEMICOLON l)"
  define l1 where "l1 = advance_n True (length bl) l0"
  have "text_ahead l0 = bl @ c_nl # ts @ rest" using assms(1) by (simp add: l0_def)
  then have le: "arkts_line_end valid l0 = (None, l1)" and l1: "text_ahead l1 = c_nl # ts @ rest"
    using arkts_line_end_blanks [OF assms(2)] text_ahead_advance_n unfolding l1_def by blast+
  have "text_ahead (skip l1) = ts @ rest" by (rule text_ahead_ConsD(1) [OF l1])
  then obtain sc l2 where ws: "arkts_scan_whitespace_and_comments False (skip l1) = ((True, sc), l2)"
    and l2: "l2 = advance_n True (length ts) (skip l1)" "text_ahead l2 = rest"
    using arkts_trivia.loop_skips_trivia [OF assms(3-5), of "skip l1" False] text_ahead_advance_n by blast
  obtain l3 where nl: "arkts_next_line valid l2 = (arkts_next_letters valid rest, l3)"
    using arkts_next_line_text [of valid l2] l2(2) by (cases "arkts_next_line valid l2") auto
  then obtain k where k: "k \<le> 10" "l3 = advance_n True k l2"
    using arkts_next_line_within [of valid l2] by auto
  have keep: "tok_end l3 = Some (pos l)" "result_symbol l3 = Some AUTOMATIC_SEMICOLON"
    using k(2) by (simp_all add: l2 l1_def l0_def)
  have "\<not> (\<not> arkts_next_letters valid rest \<and> valid TERNARY_QMARK \<and> lookahead l3 = c_quest)"
    using assms(9) hd0_drop_within [OF k(1), of rest] k(2) l2(2)
    by (auto simp: lookahead_hd0 drop_map [symmetric])
  then show ?thesis
    using assms(6-8) le ws nl keep
    by (auto simp: arkts_scan_def arkts_scan_rest_def arkts_scan_automatic_semicolon_def l0_def [symmetric] token_end_def)
qed

section \<open>Properties\<close>

text \<open>The text of a template literal reaches up to the first backtick, backslash or \<open>${\<close>: the scan
succeeds exactly when the reference finds one of them behind at least one character, and the token
ends in front of it.\<close>

theorem arkts_template_chars:
  assumes "valid TEMPLATE_CHARS" and "\<not> valid AUTOMATIC_SEMICOLON"
  shows "case template_text (text_ahead l) of
      None \<Rightarrow> \<not> fst (arkts_scan l valid)
    | Some n \<Rightarrow> \<exists>l'. arkts_scan l valid = (0 < n, l') \<and> token_end l' = pos l + n \<and>
        result_symbol l' = Some TEMPLATE_CHARS"
  using arkts_template.loop_template_text [where l = "set_result TEMPLATE_CHARS l" and h = False] assms
  by (auto simp: arkts_scan_def arkts_scan_template_chars_def token_end_def split: option.splits)

theorem arkts_template_chars_witness:
  "case template_text (codes ''a$b${c}'') of
      None \<Rightarrow> False
    | Some n \<Rightarrow> \<exists>l'. arkts_scan (lexer_on (codes ''a$b${c}'')) (\<lambda>k. k = TEMPLATE_CHARS) = (True, l') \<and>
        token_end l' = 3 \<and> result_symbol l' = Some TEMPLATE_CHARS"
  using arkts_template_chars [of "\<lambda>k. k = TEMPLATE_CHARS" "lexer_on (codes ''a$b${c}'')"]
  by (simp add: eval_nat_numeral)

text \<open>C13. Where a semicolon is inserted: the cursor stands on blanks and a line feed, any white space
and comments may follow, and then something else. A semicolon is reported, with no width, exactly
when the reference says that a statement starts there, which is so before every name but not before
the words \<open>in\<close> and \<open>instanceof\<close>. Left out are the names of \<open>arkts_misread\<close>, which the scanner takes
for these words.\<close>

theorem arkts_inserted_semicolon:
  assumes "text_ahead l = bl @ c_nl # ts @ rest"
    and "list_all (\<lambda>c. iswspace c \<and> c \<noteq> c_nl) bl" and "trivia (\<lambda>c. c = 0 \<or> c = c_nl) ts"
    and "\<not> iswspace (hd0 rest)" and "hd0 rest \<noteq> c_slash" and "\<not> arkts_misread rest"
    and "valid AUTOMATIC_SEMICOLON" and "\<not> valid TEMPLATE_CHARS" and "\<not> valid JSX_TEXT"
    and "\<not> (valid TERNARY_QMARK \<and> c_quest \<in> set (take 11 rest))"
  shows "\<exists>l'. arkts_scan l valid = (arkts_starts_statement valid rest, l') \<and>
    token_end l' = pos l \<and> result_symbol l' = Some AUTOMATIC_SEMICOLON"
  using arkts_semicolon_scan [OF assms(1-5,7-10)] assms(6) by (simp add: arkts_next_misread)

theorem arkts_inserted_semicolon_witness:
  "\<exists>l'. arkts_scan (lexer_on (10 # codes '' // c'' @ 10 # codes ''instanceof x'')) (\<lambda>k. k = AUTOMATIC_SEMICOLON) =
      (False, l') \<and> token_end l' = 0 \<and> result_symbol l' = Some AUTOMATIC_SEMICOLON"
proof -
  have t: "trivia (\<lambda>c. c = 0 \<or> c = c_nl) (codes '' // c'' @ [10])"
    using trivia.space [of 32, OF _ trivia.line [of "\<lambda>c. c = 0 \<or> c = c_nl" "codes '' c''", OF _ trivia.none]]
    by (simp add: iswspace_def)
  show ?thesis
    using arkts_inserted_semicolon [OF _ _ t, of "lexer_on (10 # codes '' // c'' @ 10 # codes ''instanceof x'')"
        "[]" "codes ''instanceof x''" "\<lambda>k. k = AUTOMATIC_SEMICOLON"]
    by (simp add: arkts_starts_statement_def word_ahead_def iswspace_def iswalpha_def
        arkts_misread_def name_misread_def script_word_char_def iswalnum_def iswdigit_def)
qed

text \<open>Before a name that begins like \<open>in\<close> or \<open>instanceof\<close> and goes on with no letter, a statement
starts, and no semicolon is inserted.\<close>

theorem arkts_names_misread:
  assumes "text_ahead l = bl @ c_nl # ts @ rest"
    and "list_all (\<lambda>c. iswspace c \<and> c \<noteq> c_nl) bl" and "trivia (\<lambda>c. c = 0 \<or> c = c_nl) ts"
    and "arkts_misread rest"
    and "valid AUTOMATIC_SEMICOLON" and "\<not> valid TEMPLATE_CHARS" and "\<not> valid JSX_TEXT"
    and "\<not> valid TERNARY_QMARK"
  shows "arkts_starts_statement valid rest \<and> (\<exists>l'. arkts_scan l valid = (False, l'))"
proof -
  have "hd0 rest = c_i" using assms(4) by (auto simp: arkts_misread_def name_misread_def prefix_def)
  then have "\<not> iswspace (hd0 rest)" "hd0 rest \<noteq> c_slash" by (simp_all add: iswspace_def)
  then show ?thesis
    using arkts_semicolon_scan [OF assms(1-3) _ _ assms(5-7)] misread_starts [OF assms(4), of valid]
      assms(4,8) by (auto simp: arkts_next_misread)
qed

theorem arkts_names_misread_witness:
  "\<exists>l'. arkts_scan (lexer_on (10 # codes ''in2 = x'')) (\<lambda>k. k = AUTOMATIC_SEMICOLON) = (False, l')"
  using arkts_names_misread [OF _ _ trivia.none, of "lexer_on (10 # codes ''in2 = x'')" "[]" "codes ''in2 = x''"
      "\<lambda>k. k = AUTOMATIC_SEMICOLON"]
  by (simp add: arkts_misread_def name_misread_def script_word_char_def iswalnum_def iswalpha_def iswdigit_def)

text \<open>JSX text reaches up to the next brace, angle bracket, ampersand or the end of the input. It is
reported exactly when it is not empty and is not a line feed followed by white space only.\<close>

theorem arkts_jsx_text:
  assumes "valid JSX_TEXT" and "\<not> valid TEMPLATE_CHARS"
    and "run = takeWhile (\<lambda>c. c \<notin> set jsx_stop) (text_ahead l)"
    and "tok_end l = None"
  shows "if run \<noteq> [] \<and> \<not> (hd run = c_nl \<and> list_all iswspace run)
    then \<exists>l'. arkts_scan l valid = (True, l') \<and> token_end l' = pos l + length run \<and> result_symbol l' = Some JSX_TEXT
    else arkts_scan l valid = arkts_scan_rest (set_result JSX_TEXT (advance_n False (length run) l)) valid"
proof -
  define saw where "saw = (run \<noteq> [] \<and> \<not> (hd run = c_nl \<and> list_all iswspace run))"
  define m where "m = set_result JSX_TEXT (advance_n False (length run) l)"
  have "jsx_loop False False l = (saw, advance_n False (length run) l)"
    using jsx_loop_run [of False False l] assms(3)
    by (cases "jsx_loop False False l") (auto simp: saw_def list_all_iff)
  then have scan: "arkts_scan l valid = (if saw then (True, m) else arkts_scan_rest m valid)"
    using assms(1,2) by (simp add: arkts_scan_def scan_jsx_text_def m_def)
  have "length run \<le> remaining l"
    using length_takeWhile_le [of "\<lambda>c. c \<notin> set jsx_stop" "text_ahead l"] assms(3) by simp
  then have "token_end m = pos l + length run" "result_symbol m = Some JSX_TEXT"
    using assms(4) by (simp_all add: m_def token_end_def pos_advance_n)
  with scan show ?thesis by (simp only: saw_def [symmetric] m_def [symmetric]) simp
qed

theorem arkts_jsx_text_witness:
  "\<exists>l'. arkts_scan (lexer_on (10 # codes '' a<'')) (\<lambda>k. k = JSX_TEXT) = (True, l') \<and>
    token_end l' = 3 \<and> result_symbol l' = Some JSX_TEXT"
  using arkts_jsx_text [of "\<lambda>k. k = JSX_TEXT" "[10, 32, 97]" "lexer_on (10 # codes '' a<'')"]
  by (simp add: jsx_stop_def iswspace_def eval_nat_numeral)

end
