(* ===== verification/Cfscript.thy ===== *)
theory Cfscript
  imports Script_Text "HOL-Library.Sublist"
begin

text \<open>
  \<^verbatim>\<open>codegraph-kernel/grammars/cfscript/scanner.c\<close>: template text, automatic semicolons with the word
  operators of CFML, ternary and elvis operators, the text of a query and of a CFML template. The
  scanner keeps no state. The loop of \<open>scan_query_text\<close> has no test for the end of the input: it is a
  partial function, and \<open>None\<close> as the result of a scan is a scan that does not return.
\<close>

section \<open>Definitions\<close>

datatype cfscript_token =
    AUTOMATIC_SEMICOLON | TEMPLATE_CHARS | TERNARY_QMARK | ELVIS_OPERATOR | LOGICAL_OR
  | REGEX_PATTERN | QUERY_TEXT | TAG_LINEFEED | CFML_TEMPLATE_CONTENT

definition cfscript_create :: unit where
  "cfscript_create = ()"

definition cfscript_serialize :: "unit \<Rightarrow> byte list" where
  "cfscript_serialize p = []"

definition cfscript_deserialize :: "unit \<Rightarrow> byte list \<Rightarrow> unit" where
  "cfscript_deserialize p b = ()"

function cfscript_template_loop :: "bool \<Rightarrow> 'k lexer \<Rightarrow> bool \<times> 'k lexer" where
  "cfscript_template_loop has_content l0 =
     (let l = mark_end l0 in
      if lookahead l = c_backtick then (has_content, l)
      else if lookahead l = 0 then (False, l)
      else if lookahead l = c_dollar then
        let l = advance l in
        if lookahead l = c_lbrace then (has_content, l) else cfscript_template_loop True l
      else if lookahead l = c_bslash then (has_content, l)
      else cfscript_template_loop True (advance l))"
  by pat_completeness auto
termination by (relation "measure (\<lambda>(_, l). remaining l)") auto

declare cfscript_template_loop.simps [simp del]

definition cfscript_scan_template_chars :: "cfscript_token lexer \<Rightarrow> bool \<times> cfscript_token lexer" where
  "cfscript_scan_template_chars l = cfscript_template_loop False (set_result TEMPLATE_CHARS l)"

datatype whitespace_result = REJECT | NO_NEWLINE | ACCEPT

definition line_break :: "code_point \<Rightarrow> bool" where
  "line_break c \<longleftrightarrow> c = c_nl \<or> c = 0x2028 \<or> c = 0x2029"

text \<open>The loop over a block comment: \<open>saw_block_newline\<close>, and whether it ended at \<open>*/\<close>.\<close>

function cfscript_block_comment :: "bool \<Rightarrow> 'k lexer \<Rightarrow> bool \<times> bool \<times> 'k lexer" where
  "cfscript_block_comment saw_block_newline l =
     (if lookahead l = 0 then (saw_block_newline, False, l)
      else if lookahead l = c_star then
        let l = skip l in
        if lookahead l = c_slash then (saw_block_newline, True, skip l)
        else cfscript_block_comment saw_block_newline l
      else cfscript_block_comment (saw_block_newline \<or> line_break (lookahead l)) (skip l))"
  by pat_completeness auto
termination by (relation "measure (\<lambda>(_, l). remaining l)") auto

declare cfscript_block_comment.simps [simp del]

lemma runs_cfscript_block_comment: "runs l0 l \<Longrightarrow> runs l0 (snd (snd (cfscript_block_comment s l)))"
proof (induction s l rule: cfscript_block_comment.induct)
  case (1 s l)
  then show ?case by (subst cfscript_block_comment.simps) (auto simp: Let_def)
qed

definition comment_char :: "code_point \<Rightarrow> bool" where
  "comment_char c \<longleftrightarrow> \<not> (c = 0 \<or> line_break c)"

text \<open>\<open>scan_whitespace_and_comments\<close>: its result, and \<open>*scanned_comment\<close>.\<close>

function cfscript_scan_whitespace_and_comments ::
  "bool \<Rightarrow> bool \<times> bool \<Rightarrow> 'k lexer \<Rightarrow> (whitespace_result \<times> bool) \<times> 'k lexer" where
  "cfscript_scan_whitespace_and_comments consume st l0 =
     (let (saw_block_newline, scanned_comment) = st;
          l = advance_while iswspace True l0 in
      if lookahead l = c_slash then
        let l = skip l in
        if lookahead l = c_slash then
          cfscript_scan_whitespace_and_comments consume (saw_block_newline, True)
            (advance_while comment_char True (skip l))
        else if lookahead l = c_star then
          case cfscript_block_comment saw_block_newline (skip l) of (saw, closed, l) \<Rightarrow>
            if closed \<and> lookahead l \<noteq> c_slash \<and> \<not> consume
            then ((if saw then ACCEPT else NO_NEWLINE, True), l)
            else cfscript_scan_whitespace_and_comments consume (saw, scanned_comment \<or> closed) l
        else ((REJECT, scanned_comment), l)
      else ((ACCEPT, scanned_comment), l))"
  by pat_completeness auto
termination
proof (relation "measure (\<lambda>(_, _, l). remaining l)", goal_cases)
  case (2 c st l0 x saw sc l l')
  then have "remaining l' < remaining l0" using advance_after_run [of iswspace True l0 True] by simp
  then show ?case using 2 by (auto intro!: le_less_trans [OF remaining_advance_while] intro: le_less_trans)
next
  case (3 c st l0 x saw sc l l' saw' y closed l2)
  then have "remaining l' < remaining l0" using advance_after_run [of iswspace True l0 True] by simp
  moreover have "l2 = snd (snd (cfscript_block_comment saw (skip l')))" using 3 by (metis snd_conv)
  then have "remaining l2 \<le> remaining (skip l')"
    using runs_remaining [OF runs_cfscript_block_comment [OF runs_refl]] by metis
  ultimately show ?case by (auto intro: le_less_trans)
qed simp

declare cfscript_scan_whitespace_and_comments.simps [simp del]

text \<open>\<open>scan_cfml_word_operator\<close>: up to ten letters in lower case, then the table.\<close>

fun collect_letters :: "nat \<Rightarrow> 'k lexer \<Rightarrow> code_point list \<times> 'k lexer" where
  "collect_letters 0 l = ([], l)"
| "collect_letters (Suc n) l =
     (if iswalpha (lookahead l) then
        let (buf, l') = collect_letters n (skip l) in (towlower (lookahead l) # buf, l')
      else ([], l))"

definition word_operators :: "string list" where
  "word_operators =
     [''or'', ''eq'', ''gt'', ''ge'', ''lt'', ''le'', ''in'', ''and'', ''neq'', ''not'', ''gte'', ''lte'',
      ''mod'', ''instanceof'']"

definition scan_cfml_word_operator :: "'k lexer \<Rightarrow> bool \<times> 'k lexer" where
  "scan_cfml_word_operator l =
     (let (buf, l) = collect_letters 10 l in
      if iswalnum (lookahead l) then (False, l)
      else (buf \<in> set (List.map codes word_operators), l))"

text \<open>
  The first loop of \<open>scan_automatic_semicolon\<close>. The step at a comment: \<open>Some b\<close> when the function
  returns \<open>b\<close>, and \<open>*scanned_comment\<close>.
\<close>

definition semicolon_comment ::
  "bool \<Rightarrow> bool \<Rightarrow> 'k lexer \<Rightarrow> (bool option \<times> bool) \<times> 'k lexer" where
  "semicolon_comment comment_condition scanned_comment l =
     (if lookahead l = c_slash then
        case cfscript_scan_whitespace_and_comments False (False, scanned_comment) l of
          ((result, scanned_comment), l) \<Rightarrow>
            if result = REJECT then ((Some False, scanned_comment), l)
            else if result = ACCEPT \<and> comment_condition \<and> lookahead l \<noteq> c_comma \<and> lookahead l \<noteq> c_eq
            then ((Some True, scanned_comment), l)
            else ((None, scanned_comment), l)
      else ((None, scanned_comment), l))"

lemma fwd_cfscript_scan_whitespace_and_comments [runs_rules]:
  "runs l0 l \<Longrightarrow> fwd l0 (cfscript_scan_whitespace_and_comments c st l)"
proof (induction c st l rule: cfscript_scan_whitespace_and_comments.induct)
  case (1 c st l)
  obtain saw sc where st: "st = (saw, sc)" by fastforce
  define l1 where "l1 = skip (advance_while iswspace True l)"
  obtain saw' closed l2 where b: "cfscript_block_comment saw (skip l1) = (saw', closed, l2)" by (metis surj_pair)
  have l1: "runs l0 l1" using 1(3) by (simp add: l1_def)
  then have l2: "runs l0 l2" using runs_cfscript_block_comment [of l0 "skip l1" saw] b by simp
  show ?case
    using 1 l1 l2 b st
    by (subst cfscript_scan_whitespace_and_comments.simps)
      (auto simp: Let_def l1_def [symmetric] fwd_simps intro!: runs_rules)
qed

lemma fwd_semicolon_comment [runs_rules]: "runs l0 l \<Longrightarrow> fwd l0 (semicolon_comment cc sc l)"
  using fwd_cfscript_scan_whitespace_and_comments [of l0 l False "(False, sc)"]
  by (auto simp: semicolon_comment_def fwd_def split: prod.splits)

function cfscript_line_end ::
  "bool \<Rightarrow> bool \<Rightarrow> 'k lexer \<Rightarrow> (bool option \<times> bool) \<times> 'k lexer" where
  "cfscript_line_end comment_condition scanned_comment l0 =
     (if lookahead l0 = 0 then ((Some True, scanned_comment), l0)
      else
        case semicolon_comment comment_condition scanned_comment l0 of
          ((Some b, sc), l) \<Rightarrow> ((Some b, sc), l)
        | ((None, sc), l) \<Rightarrow>
            if lookahead l = c_rbrace then ((Some True, sc), l)
            else if is_at_included_range_start l then ((Some True, sc), l)
            else if line_break (lookahead l) then ((None, sc), l)
            else if \<not> iswspace (lookahead l) then ((Some False, sc), l)
            else cfscript_line_end comment_condition sc (skip l))"
  by pat_completeness auto
termination
proof (relation "measure (\<lambda>(_, _, l). remaining l)", goal_cases)
  case (2 cc s l0 r l o' sc)
  then have "snd (semicolon_comment cc s l0) = l" by (metis snd_conv)
  then have "remaining l \<le> remaining l0"
    using fwd_remaining [OF fwd_semicolon_comment [OF runs_refl]] by metis
  moreover have "remaining (skip l) < remaining l" using 2 by (cases "ahead l") (auto simp: lookahead_def)
  ultimately show ?case by simp
qed simp

declare cfscript_line_end.simps [simp del]

definition cfscript_continuation_chars :: "code_point list" where
  "cfscript_continuation_chars =
     [c_backtick, c_comma, c_colon, c_semi, c_star, c_percent, c_gt, c_lt, c_eq, c_lbrack, c_lparen,
      c_quest, c_caret, c_bar, c_amp, c_slash]"

text \<open>The letters for which a word operator is looked for.\<close>

definition operator_initials :: "code_point list" where
  "operator_initials = codes ''aAoOeEnNgGlLmMi''"

definition cfscript_next_line :: "'k lexer \<Rightarrow> bool \<times> 'k lexer" where
  "cfscript_next_line l =
     (if lookahead l \<in> set cfscript_continuation_chars then (False, l)
      else if lookahead l = c_dot then let l = skip l in (iswdigit (lookahead l), l)
      else if lookahead l = c_plus then let l = skip l in (lookahead l = c_plus, l)
      else if lookahead l = c_minus then let l = skip l in (lookahead l = c_minus, l)
      else if lookahead l = c_bang then let l = skip l in (lookahead l \<noteq> c_eq, l)
      else if lookahead l \<in> set operator_initials then
        let (b, l) = scan_cfml_word_operator l in (\<not> b, l)
      else (True, l))"

text \<open>\<open>scan_automatic_semicolon\<close>, with \<open>*scanned_comment\<close>.\<close>

definition cfscript_scan_automatic_semicolon ::
  "cfscript_token lexer \<Rightarrow> bool \<Rightarrow> (bool \<times> bool) \<times> cfscript_token lexer" where
  "cfscript_scan_automatic_semicolon l comment_condition =
     (let l = mark_end (set_result AUTOMATIC_SEMICOLON l) in
      case cfscript_line_end comment_condition False l of
        ((Some b, scanned_comment), l) \<Rightarrow> ((b, scanned_comment), l)
      | ((None, scanned_comment), l) \<Rightarrow>
          let l = skip l;
              ((result, scanned_comment), l) =
                cfscript_scan_whitespace_and_comments True (False, scanned_comment) l in
          if result = REJECT then ((False, scanned_comment), l)
          else let (b, l) = cfscript_next_line l in ((b, scanned_comment), l))"

definition cfscript_scan_ternary_qmark :: "cfscript_token lexer \<Rightarrow> bool \<times> cfscript_token lexer" where
  "cfscript_scan_ternary_qmark l =
     (let l = advance_while iswspace True l in
      if lookahead l = c_quest then
        let l = advance_while (\<lambda>c. c = c_space \<or> c = c_tab) False (advance l) in
        if lookahead l = c_colon then (True, set_result ELVIS_OPERATOR (mark_end (advance l)))
        else if lookahead l = c_quest then (False, l)
        else
          let l = set_result TERNARY_QMARK (mark_end l) in
          if lookahead l = c_dot then
            let l = advance l in (iswdigit (lookahead l), l)
          else (True, l)
      else (False, l))"

text \<open>
  The loop of \<open>scan_query_text\<close>, which goes on until it sees a quote: at the end of the input, where
  \<open>advance\<close> does nothing, it does not end.
\<close>

partial_function (option) query_loop :: "bool \<Rightarrow> bool \<Rightarrow> 'k lexer \<Rightarrow> (bool \<times> 'k lexer) option" where
  "query_loop saw_text at_newline l =
     (if lookahead l \<noteq> c_dquote then
        if lookahead l = c_nl then query_loop saw_text True (advance l)
        else query_loop (saw_text \<or> \<not> (at_newline \<and> iswspace (lookahead l)))
               (at_newline \<and> iswspace (lookahead l)) (advance l)
      else Some (saw_text, l))"

definition scan_query_text :: "cfscript_token lexer \<Rightarrow> (bool \<times> cfscript_token lexer) option" where
  "scan_query_text l =
     (case query_loop False False l of
        None \<Rightarrow> None
      | Some (saw_text, l) \<Rightarrow> Some (saw_text, set_result QUERY_TEXT l))"

function template_content_loop :: "bool \<Rightarrow> 'k lexer \<Rightarrow> bool \<times> 'k lexer" where
  "template_content_loop has_content l =
     (if lookahead l = 0 then (False, l)
      else if lookahead l = c_backtick then
        let l = advance (mark_end l) in
        if lookahead l = c_backtick then
          let l = advance l in
          if lookahead l = c_backtick then (has_content, l) else template_content_loop True l
        else template_content_loop True l
      else template_content_loop True (advance l))"
  by pat_completeness auto
termination by (relation "measure (\<lambda>(_, l). remaining l)") auto

declare template_content_loop.simps [simp del]

definition scan_cfml_template_content :: "cfscript_token lexer \<Rightarrow> bool \<times> cfscript_token lexer" where
  "scan_cfml_template_content l = template_content_loop False (set_result CFML_TEMPLATE_CONTENT l)"

text \<open>The scan, behind the attempt to read the text of a query, and as a whole.\<close>

definition cfscript_scan_rest ::
  "cfscript_token lexer \<Rightarrow> (cfscript_token \<Rightarrow> bool) \<Rightarrow> bool \<times> cfscript_token lexer" where
  "cfscript_scan_rest l valid =
     (if valid AUTOMATIC_SEMICOLON \<and> \<not> valid TAG_LINEFEED then
        let ((ret, scanned_comment), l) = cfscript_scan_automatic_semicolon l (\<not> valid LOGICAL_OR) in
        if \<not> ret \<and> \<not> scanned_comment \<and> valid TERNARY_QMARK \<and> lookahead l = c_quest
        then cfscript_scan_ternary_qmark l
        else (ret, l)
      else if valid TERNARY_QMARK \<or> valid ELVIS_OPERATOR then cfscript_scan_ternary_qmark l
      else (False, l))"

definition cfscript_scan ::
  "cfscript_token lexer \<Rightarrow> (cfscript_token \<Rightarrow> bool) \<Rightarrow> (bool \<times> cfscript_token lexer) option" where
  "cfscript_scan l valid =
     (if valid CFML_TEMPLATE_CONTENT then Some (scan_cfml_template_content l)
      else if valid TEMPLATE_CHARS then
        Some (if valid AUTOMATIC_SEMICOLON then (False, l) else cfscript_scan_template_chars l)
      else
        case (if valid QUERY_TEXT then scan_query_text l else Some (False, l)) of
          None \<Rightarrow> None
        | Some (b, l) \<Rightarrow> Some (if b then (True, l) else cfscript_scan_rest l valid))"

definition cfscript_scan_fun :: "(unit, cfscript_token) scan_fun" where
  "cfscript_scan_fun p l valid =
     (case cfscript_scan l valid of None \<Rightarrow> None | Some (ok, l') \<Rightarrow> Some (ok, (), l'))"

section \<open>The cursor\<close>

lemma fwd_cfscript_template_loop [runs_rules]: "runs l0 l \<Longrightarrow> fwd l0 (cfscript_template_loop h l)"
proof (induction h l rule: cfscript_template_loop.induct)
  case (1 h l)
  then show ?case by (subst cfscript_template_loop.simps) (auto simp: Let_def intro!: runs_rules)
qed

lemma fwd_cfscript_line_end [runs_rules]: "runs l0 l \<Longrightarrow> fwd l0 (cfscript_line_end cc sc l)"
proof (induction cc sc l rule: cfscript_line_end.induct)
  case (1 cc sc l)
  obtain r s m where m: "semicolon_comment cc sc l = ((r, s), m)" by (metis surj_pair)
  then have "runs l0 m" using fwd_semicolon_comment [OF 1(2), of cc sc] by (simp add: fwd_def)
  with 1 m show ?case
    by (subst cfscript_line_end.simps) (auto simp: fwd_simps intro!: runs_rules split: option.split)
qed

lemma fwd_collect_letters [runs_rules]: "runs l0 l \<Longrightarrow> fwd l0 (collect_letters n l)"
  by (induction n arbitrary: l) (auto simp: fwd_def split_beta)

lemma fwd_cfscript_next_line [runs_rules]: "runs l0 l \<Longrightarrow> fwd l0 (cfscript_next_line l)"
  unfolding cfscript_next_line_def scan_cfml_word_operator_def by (intro runs_rules)

lemma fwd_cfscript_scan_automatic_semicolon [runs_rules]:
  assumes "runs l0 l"
  shows "fwd l0 (cfscript_scan_automatic_semicolon l cc)"
proof -
  obtain r s m where m: "cfscript_line_end cc False (mark_end (set_result AUTOMATIC_SEMICOLON l)) = ((r, s), m)"
    by (metis surj_pair)
  then have "runs l0 m"
    using fwd_cfscript_line_end [of l0 "mark_end (set_result AUTOMATIC_SEMICOLON l)" cc False] assms
    by (simp add: fwd_def)
  moreover obtain b c m2 where
    w: "cfscript_scan_whitespace_and_comments True (False, s) (skip m) = ((b, c), m2)" by (metis surj_pair)
  ultimately have "runs l0 m2"
    using fwd_cfscript_scan_whitespace_and_comments [of l0 "skip m" True "(False, s)"] by (simp add: fwd_def)
  then have "fwd l0 (cfscript_next_line m2)" by (rule fwd_cfscript_next_line)
  with m w \<open>runs l0 m\<close> \<open>runs l0 m2\<close> show ?thesis
    by (auto simp: cfscript_scan_automatic_semicolon_def Let_def fwd_simps fwd_def split: option.split prod.splits)
qed

lemma runs_query_loop:
  assumes "query_loop s a l = Some r"
  shows "runs l (snd r)"
proof (rule query_loop.raw_induct [where P = "\<lambda>s a l r. runs l (snd r)", OF _ assms])
  fix f s a and l :: "'a lexer" and r
  assume IH: "\<And>s a l r. f s a l = Some r \<Longrightarrow> runs l (snd r)"
    and "(if lookahead l \<noteq> c_dquote then
        if lookahead l = c_nl then f s True (advance l)
        else f (s \<or> \<not> (a \<and> iswspace (lookahead l))) (a \<and> iswspace (lookahead l)) (advance l)
      else Some (s, l)) = Some r"
  then show "runs l (snd r)"
    using runs_trans [OF runs_advance1 [of l False]] by (auto split: if_splits dest!: IH)
qed

lemma fwd_template_content_loop [runs_rules]: "runs l0 l \<Longrightarrow> fwd l0 (template_content_loop h l)"
proof (induction h l rule: template_content_loop.induct)
  case (1 h l)
  then show ?case by (subst template_content_loop.simps) (auto simp: Let_def intro!: runs_rules)
qed

lemma fwd_cfscript_scan_rest [runs_rules]: "runs l0 l \<Longrightarrow> fwd l0 (cfscript_scan_rest l valid)"
  unfolding cfscript_scan_rest_def cfscript_scan_ternary_qmark_def
  by (intro runs_rules) (auto intro!: runs_rules)

lemma runs_cfscript_scan:
  assumes "cfscript_scan l valid = Some (ok, l')"
  shows "runs l l'"
proof -
  have "fwd l (scan_cfml_template_content l)" "fwd l (cfscript_scan_template_chars l)"
    unfolding scan_cfml_template_content_def cfscript_scan_template_chars_def by (intro runs_rules)+
  moreover have "fwd l (cfscript_scan_rest m valid)" if "runs l m" for m by (rule fwd_cfscript_scan_rest [OF that])
  moreover have "runs l m" if "(if valid QUERY_TEXT then scan_query_text l else Some (False, l)) = Some (b, m)" for b m
    using that by (auto simp: scan_query_text_def dest: runs_query_loop split: option.splits if_splits)
  ultimately have "fwd l (ok, l')"
    using assms runs_refl [of l] unfolding cfscript_scan_def
    by (auto simp only: option.inject fwd_Pair split: option.splits if_splits) (metis runs_refl)+
  then show ?thesis by (rule fwdD)
qed

interpretation cfscript:
  resetting_scanner cfscript_create "\<lambda>_. True" cfscript_serialize cfscript_deserialize cfscript_scan_fun
proof unfold_locales
  fix s l valid ok s' l'
  assume "cfscript_scan_fun s l valid = Some (ok, s', l')"
  then show "runs l l'" by (auto simp: cfscript_scan_fun_def dest: runs_cfscript_scan split: option.splits)
qed (simp_all add: cfscript_serialize_def serialization_buffer_size_def)

section \<open>The loops satisfy the shared laws\<close>

interpretation cfscript_template: template_loop cfscript_template_loop
  by unfold_locales (rule cfscript_template_loop.simps)

interpretation cfscript_block: block_loop cfscript_block_comment "\<lambda>saw c. saw \<or> line_break c"
  by unfold_locales (rule cfscript_block_comment.simps)

definition block_seen :: "bool \<times> bool \<Rightarrow> 'k lexer \<Rightarrow> (bool \<times> bool) \<times> 'k lexer" where
  "block_seen st l =
     (case cfscript_block_comment (fst st) l of (saw, closed, l) \<Rightarrow> ((saw, snd st \<or> closed), l))"

interpretation cfscript_trivia: trivia_loop "cfscript_scan_whitespace_and_comments True"
  "\<lambda>(_, s). (ACCEPT, s)" "\<lambda>(_, s). (REJECT, s)" "\<lambda>(saw, _). (saw, True)" block_seen
  "\<lambda>c. \<not> comment_char c"
proof (unfold_locales, goal_cases)
  case (1 st l0)
  show ?case
    by (subst cfscript_scan_whitespace_and_comments.simps)
      (simp add: Let_def block_seen_def split_beta)
next
  case (2 l n s)
  then show ?case
    using cfscript_block.loop_block_close [where l = l and s = "fst s"] by (auto simp: block_seen_def)
next
  case 3
  show ?case by (simp add: comment_char_def line_break_def)
qed

section \<open>Where a semicolon is inserted\<close>

text \<open>
  The reference: a word operator, in any case, that is a whole word; no semicolon is inserted before it.
\<close>

definition operator_letters :: "code_point list \<Rightarrow> bool" where
  "operator_letters cs \<longleftrightarrow>
     List.map towlower (takeWhile iswalpha cs) \<in> set (List.map codes word_operators)"

definition word_operator_ahead :: "code_point list \<Rightarrow> bool" where
  "word_operator_ahead cs \<longleftrightarrow> operator_letters cs \<and> \<not> script_word_char (hd0 (dropWhile iswalpha cs))"

definition statement_char :: "code_point \<Rightarrow> code_point \<Rightarrow> bool" where
  "statement_char c d \<longleftrightarrow>
     c \<notin> set cfscript_continuation_chars \<and>
     (c = c_dot \<longrightarrow> iswdigit d) \<and>
     (c = c_plus \<or> c = c_minus \<longrightarrow> d = c) \<and>
     (c = c_bang \<longrightarrow> d \<noteq> c_eq)"

definition cfscript_starts_statement :: "code_point list \<Rightarrow> bool" where
  "cfscript_starts_statement cs \<longleftrightarrow> statement_char (hd0 cs) (hd0 (tl cs)) \<and> \<not> word_operator_ahead cs"

text \<open>
  The scanner looks for an operator only behind certain first letters, and a capital I is missing among
  them; and it ends a word where no letter or digit follows, so that a name that begins with an
  operator and goes on with an underscore, a dollar sign or a character outside ASCII is taken for it.
\<close>

definition cfscript_misread :: "code_point list \<Rightarrow> bool" where
  "cfscript_misread cs \<longleftrightarrow>
     (if hd0 cs = 73 then word_operator_ahead cs
      else operator_letters cs \<and> script_word_char (hd0 (dropWhile iswalpha cs)) \<and>
        \<not> iswalnum (hd0 (dropWhile iswalpha cs)))"

definition letters_operator :: "code_point list \<Rightarrow> bool" where
  "letters_operator cs \<longleftrightarrow> operator_letters cs \<and> \<not> iswalnum (hd0 (dropWhile iswalpha cs))"

definition cfscript_next_letters :: "code_point list \<Rightarrow> bool" where
  "cfscript_next_letters cs \<longleftrightarrow> statement_char (hd0 cs) (hd0 (tl cs)) \<and>
     (hd0 cs \<in> set operator_initials \<longrightarrow> \<not> letters_operator cs)"

lemma operator_letters_initial: "operator_letters cs \<Longrightarrow> hd0 cs \<in> insert 73 (set operator_initials)"
proof -
  assume ops: "operator_letters cs"
  then obtain c r where cs: "cs = c # r" "iswalpha c"
    by (cases cs; cases "iswalpha (hd cs)") (auto simp: operator_letters_def word_operators_def)
  then have "towlower c \<in> {97, 101, 103, 105, 108, 109, 110, 111}"
    using ops by (auto simp: operator_letters_def word_operators_def)
  then show ?thesis using cs by (auto simp: towlower_def operator_initials_def split: if_splits)
qed

lemma cfscript_next_misread:
  "\<not> cfscript_misread cs \<Longrightarrow> cfscript_next_letters cs = cfscript_starts_statement cs"
proof (cases "hd0 cs = 73")
  case True
  moreover assume "\<not> cfscript_misread cs"
  ultimately show ?thesis
    by (auto simp: cfscript_misread_def cfscript_next_letters_def cfscript_starts_statement_def operator_initials_def)
next
  case False
  assume m: "\<not> cfscript_misread cs"
  have "letters_operator cs \<longleftrightarrow> word_operator_ahead cs"
    using m False alnum_script_word by (auto simp: cfscript_misread_def letters_operator_def word_operator_ahead_def)
  moreover have "word_operator_ahead cs \<Longrightarrow> hd0 cs \<in> set operator_initials"
    using operator_letters_initial False by (auto simp: word_operator_ahead_def)
  ultimately show ?thesis
    by (auto simp: cfscript_next_letters_def cfscript_starts_statement_def)
qed

lemma collect_letters_text:
  "\<exists>m. collect_letters n l = (List.map towlower (take n (takeWhile iswalpha (text_ahead l))), m) \<and>
    text_ahead m = drop (length (take n (takeWhile iswalpha (text_ahead l)))) (text_ahead l)"
proof (induction n arbitrary: l)
  case (Suc n)
  have "\<not> iswalpha 0" by simp
  then show ?case
  proof (cases rule: class_run_cases [where P = iswalpha and l = l and b = True])
    case more
    obtain m where "collect_letters n (skip l) =
        (List.map towlower (take n (takeWhile iswalpha (text_ahead (skip l)))), m)"
      "text_ahead m = drop (length (take n (takeWhile iswalpha (text_ahead (skip l))))) (text_ahead (skip l))"
      using Suc.IH by blast
    with more show ?thesis by (simp add: map_tl drop_Suc)
  qed simp
qed simp

lemma word_operators_short: "w \<in> set (List.map codes word_operators) \<Longrightarrow> length w \<le> 10"
  by (auto simp: word_operators_def)

lemma scan_word_operator_text: "fst (scan_cfml_word_operator l) = letters_operator (text_ahead l)"
proof -
  define w where "w = takeWhile iswalpha (text_ahead l)"
  obtain m where m: "collect_letters 10 l = (List.map towlower (take 10 w), m)"
    "text_ahead m = drop (length (take 10 w)) (text_ahead l)"
    using collect_letters_text [of 10 l] by (auto simp: w_def)
  show ?thesis
  proof (cases "length w \<le> 10")
    case True
    then have "text_ahead m = dropWhile iswalpha (text_ahead l)"
      using m(2) by (simp add: w_def dropWhile_drop)
    with True m(1) show ?thesis
      by (simp add: scan_cfml_word_operator_def letters_operator_def operator_letters_def w_def [symmetric] lookahead_hd0)
  next
    case False
    have "drop 10 (text_ahead l) = drop 10 w @ dropWhile iswalpha (text_ahead l)"
      using False takeWhile_dropWhile_id [of iswalpha "text_ahead l"]
      by (metis drop_append diff_is_0_eq' drop_0 nat_le_linear w_def)
    then have "lookahead m = w ! 10"
      using False m(2) by (simp add: lookahead_hd0 hd0_def hd_append hd_drop_conv_nth split: list.split)
        (metis Cons_nth_drop_Suc append_Cons list.inject not_le)
    moreover have "iswalpha (w ! 10)"
      using False unfolding w_def by (meson not_le nth_mem set_takeWhileD)
    ultimately have "iswalnum (lookahead m)" by (simp add: iswalnum_def)
    moreover have "\<not> letters_operator (text_ahead l)"
      using False word_operators_short [of "List.map towlower w"]
      by (auto simp: letters_operator_def operator_letters_def w_def)
    ultimately show ?thesis using m(1) by (simp add: scan_cfml_word_operator_def)
  qed
qed

lemma cfscript_next_line_text: "fst (cfscript_next_line l) = cfscript_next_letters (text_ahead l)"
proof -
  have look: "lookahead l = hd0 (text_ahead l)" "lookahead (skip l) = hd0 (tl (text_ahead l))"
    by (simp_all add: lookahead_hd0 map_tl)
  have words: "fst (let (b, l) = scan_cfml_word_operator l in (\<not> b, l)) = (\<not> letters_operator (text_ahead l))"
    using scan_word_operator_text [of l] by (simp add: split_beta)
  show ?thesis
    unfolding cfscript_next_line_def
    using words
    by (auto simp: look cfscript_next_letters_def statement_char_def Let_def operator_initials_def cfscript_continuation_chars_def)
qed

lemma cfscript_line_end_blanks:
  assumes "list_all (\<lambda>c. iswspace c \<and> c \<noteq> c_nl) bl"
  shows "text_ahead l = bl @ c_nl # cs \<Longrightarrow> \<not> list_ex range_start (take (Suc (length bl)) (ahead l)) \<Longrightarrow>
    cfscript_line_end cc sc l = ((None, sc), advance_n True (length bl) l)"
  using assms
proof (induction bl arbitrary: l)
  case Nil
  then have "lookahead l = c_nl" "\<not> is_at_included_range_start l"
    by (cases "ahead l"; auto simp: lookahead_def is_at_included_range_start_def)+
  then show ?case
    by (simp add: cfscript_line_end.simps [of cc sc l] semicolon_comment_def line_break_def)
next
  case (Cons b bl)
  then have "text_ahead l = b # bl @ c_nl # cs" by simp
  note a = text_ahead_ConsD [OF this]
  have r: "\<not> is_at_included_range_start l" "\<not> list_ex range_start (take (Suc (length bl)) (ahead (skip l)))"
    using a(3) Cons.prems(2) by (cases "ahead l"; simp add: eof_def is_at_included_range_start_def)+
  have "iswspace b" "b \<noteq> 0" "b \<noteq> c_slash" "b \<noteq> c_rbrace" "\<not> line_break b"
    using Cons.prems(3) by (auto simp: iswspace_def line_break_def)
  then have "cfscript_line_end cc sc l = cfscript_line_end cc sc (skip l)"
    using a(2) r(1) by (simp add: cfscript_line_end.simps [of cc sc l] semicolon_comment_def)
  with Cons.IH [OF a(1) r(2)] Cons.prems(3) show ?case by (simp add: advance_n_Suc)
qed

lemma collect_letters_within: "\<exists>k \<le> n. snd (collect_letters n l) = advance_n True k l"
proof (induction n arbitrary: l)
  case (Suc n)
  obtain k where "k \<le> n" "snd (collect_letters n (skip l)) = advance_n True k (skip l)"
    using Suc.IH by blast
  then have "Suc k \<le> Suc n" "snd (collect_letters n (skip l)) = advance_n True (Suc k) l"
    by (simp_all add: advance_n_Suc)
  then show ?case by (cases "iswalpha (lookahead l)") (auto simp: split_beta intro: exI [of _ 0])
qed simp

lemma cfscript_next_line_within: "\<exists>k \<le> 10. snd (cfscript_next_line l) = advance_n True k l"
proof -
  obtain k where "k \<le> 10" "snd (scan_cfml_word_operator l) = advance_n True k l"
    using collect_letters_within [of 10 l] by (auto simp: scan_cfml_word_operator_def split_beta)
  moreover have "snd (cfscript_next_line l) \<in> {advance_n True 0 l, advance_n True 1 l, snd (scan_cfml_word_operator l)}"
    by (auto simp: cfscript_next_line_def Let_def split_beta)
  moreover have "0 \<le> (10 :: nat)" "1 \<le> (10 :: nat)" by simp_all
  ultimately show ?thesis by (metis empty_iff insert_iff)
qed

lemma cfscript_semicolon_text:
  assumes "text_ahead l = bl @ c_nl # ts @ rest" and "\<not> list_ex range_start (take (Suc (length bl)) (ahead l))"
    and "list_all (\<lambda>c. iswspace c \<and> c \<noteq> c_nl) bl" and "trivia (\<lambda>c. \<not> comment_char c) ts"
    and "\<not> iswspace (hd0 rest)" and "hd0 rest \<noteq> c_slash"
  shows "\<exists>sc k. k \<le> 10 \<and> cfscript_scan_automatic_semicolon l cc =
    ((cfscript_next_letters rest, sc),
     advance_n True (length bl + 1 + length ts + k) (mark_end (set_result AUTOMATIC_SEMICOLON l)))"
proof -
  define l0 where "l0 = mark_end (set_result AUTOMATIC_SEMICOLON l)"
  define l1 where "l1 = advance_n True (length bl) l0"
  have "text_ahead l0 = bl @ c_nl # ts @ rest" "\<not> list_ex range_start (take (Suc (length bl)) (ahead l0))"
    using assms(1,2) by (simp_all add: l0_def)
  then have le: "cfscript_line_end cc False l0 = ((None, False), l1)" and l1: "text_ahead l1 = c_nl # ts @ rest"
    using cfscript_line_end_blanks [OF assms(3)] text_ahead_advance_n unfolding l1_def by blast+
  have t: "text_ahead (skip l1) = ts @ rest" by (rule text_ahead_ConsD(1) [OF l1])
  obtain sc l2 where ws: "cfscript_scan_whitespace_and_comments True (False, False) (skip l1) = ((ACCEPT, sc), l2)"
    and l2: "l2 = advance_n True (length ts) (skip l1)" "text_ahead l2 = rest"
    using cfscript_trivia.loop_skips_trivia [OF assms(4-6) t, of "(False, False)"] text_ahead_advance_n [OF t]
    by fastforce
  obtain l3 where nl: "cfscript_next_line l2 = (cfscript_next_letters rest, l3)"
    using cfscript_next_line_text [of l2] l2(2) by (cases "cfscript_next_line l2") auto
  then obtain k where k: "k \<le> 10" "l3 = advance_n True k l2"
    using cfscript_next_line_within [of l2] by auto
  have "l3 = advance_n True (length bl + 1 + length ts + k) l0"
    by (simp add: k(2) l2(1) l1_def lex_advance_advance_n advance_n_add)
  with k(1) le ws nl show ?thesis
    by (auto simp: cfscript_scan_automatic_semicolon_def l0_def [symmetric])
qed

text \<open>The scan in the situation where a semicolon is the only token that is looked for.\<close>

lemma cfscript_scan_semicolon:
  assumes "text_ahead l = bl @ c_nl # ts @ rest" and "\<not> list_ex range_start (take (Suc (length bl)) (ahead l))"
    and "list_all (\<lambda>c. iswspace c \<and> c \<noteq> c_nl) bl" and "trivia (\<lambda>c. \<not> comment_char c) ts"
    and "\<not> iswspace (hd0 rest)" and "hd0 rest \<noteq> c_slash"
    and "valid AUTOMATIC_SEMICOLON" and "\<not> valid TAG_LINEFEED"
    and "\<not> valid CFML_TEMPLATE_CONTENT" and "\<not> valid TEMPLATE_CHARS" and "\<not> valid QUERY_TEXT"
    and "\<not> (valid TERNARY_QMARK \<and> c_quest \<in> set (take 11 rest))"
  shows "\<exists>l'. cfscript_scan l valid = Some (cfscript_next_letters rest, l') \<and>
    token_end l' = pos l \<and> result_symbol l' = Some AUTOMATIC_SEMICOLON"
proof -
  obtain sc k where k: "k \<le> 10" and semi: "cfscript_scan_automatic_semicolon l (\<not> valid LOGICAL_OR) =
    ((cfscript_next_letters rest, sc),
     advance_n True (length bl + 1 + length ts + k) (mark_end (set_result AUTOMATIC_SEMICOLON l)))"
    using cfscript_semicolon_text [OF assms(1-6)] by blast
  define l3 where "l3 = advance_n True (length bl + 1 + length ts + k) (mark_end (set_result AUTOMATIC_SEMICOLON l))"
  have "text_ahead l3 = drop k rest"
    by (simp add: l3_def drop_map [symmetric] assms(1))
  then have "lookahead l3 = hd0 (drop k rest)" by (simp only: lookahead_hd0)
  then have "c_quest \<in> set (take 11 rest)" if "lookahead l3 = c_quest"
    using that k hd0_drop_within [of k 10 rest] by simp
  then show ?thesis
    using assms(7-12) semi [folded l3_def]
    by (auto simp: cfscript_scan_def cfscript_scan_rest_def)
      (auto simp: l3_def token_end_def)
qed

section \<open>Query text and template content\<close>

lemma query_loop_run:
  "text_ahead l = run @ c_dquote # rest \<Longrightarrow> c_dquote \<notin> set run \<Longrightarrow>
   query_loop s a l =
     Some (s \<or> run \<noteq> [] \<and> \<not> (a \<or> hd run = c_nl) \<or> (\<exists>c \<in> set run. \<not> iswspace c), advance_n False (length run) l)"
proof (induction run arbitrary: s a l)
  case Nil
  then show ?case by (simp add: query_loop.simps [of s a l] lookahead_hd0)
next
  case (Cons c run)
  then have "text_ahead l = c # run @ c_dquote # rest" by simp
  note a = text_ahead_ConsD [OF this]
  have step: "query_loop s a l = (if c = c_nl then query_loop s True (advance l)
    else query_loop (s \<or> \<not> (a \<and> iswspace c)) (a \<and> iswspace c) (advance l))"
    using a(2) Cons.prems(2) by (simp add: query_loop.simps [of s a l])
  have "c_dquote \<notin> set run" using Cons.prems(2) by simp
  note IH = Cons.IH [OF a(1) this]
  show ?case unfolding step IH by (auto simp: advance_n_Suc iswspace_def)
qed

lemma query_loop_needs_quote:
  assumes "query_loop s a l = Some r"
  shows "c_dquote \<in> set (text_ahead l)"
proof (rule query_loop.raw_induct [where P = "\<lambda>s a l r. c_dquote \<in> set (text_ahead l)", OF _ assms])
  fix f s a and l :: "'a lexer" and r
  assume IH: "\<And>s a (l :: 'a lexer) r. f s a l = Some r \<Longrightarrow> c_dquote \<in> set (text_ahead l)"
    and body: "(if lookahead l \<noteq> c_dquote then
        if lookahead l = c_nl then f s True (advance l)
        else f (s \<or> \<not> (a \<and> iswspace (lookahead l))) (a \<and> iswspace (lookahead l)) (advance l)
      else Some (s, l)) = Some r"
  show "c_dquote \<in> set (text_ahead l)"
  proof (cases "lookahead l = c_dquote")
    case True
    then show ?thesis by (cases "ahead l") (auto simp: lookahead_def)
  next
    case False
    with body have "c_dquote \<in> set (text_ahead (advance l))" by (auto split: if_splits dest!: IH)
    then show ?thesis by (cases "ahead l") auto
  qed
qed

text \<open>The reference for the content of a CFML template: where the first three backticks stand.\<close>

fun triple_backtick :: "code_point list \<Rightarrow> nat option" where
  "triple_backtick [] = None"
| "triple_backtick (c # cs) =
     (if c = 0 then None
      else if prefix [c_backtick, c_backtick, c_backtick] (c # cs) then Some 0
      else map_option Suc (triple_backtick cs))"

lemma template_content_text:
  "case triple_backtick (text_ahead l) of
     None \<Rightarrow> \<not> fst (template_content_loop h l)
   | Some n \<Rightarrow> \<exists>l'. template_content_loop h l = (h \<or> 0 < n, l') \<and> tok_end l' = Some (pos l + n) \<and>
       result_symbol l' = result_symbol l"
proof (induction "remaining l" arbitrary: h l rule: less_induct)
  case less
  define m where "m = (if lookahead l = c_backtick then mark_end l else l)"
  define l1 where "l1 = advance m"
  define l2 where "l2 = advance l1"
  show ?case
  proof (cases "lookahead l = 0")
    case True
    then have "triple_backtick (text_ahead l) = None" by (cases "ahead l") (auto simp: lookahead_def)
    with True show ?thesis by (simp add: template_content_loop.simps [of h l])
  next
    case False
    then obtain c cs where c: "text_ahead l = c # cs" "lookahead l = c" using text_ahead_nonzero by metis
    note a = text_ahead_ConsD [OF c(1)]
    have l1: "text_ahead l1 = cs" "pos l1 = Suc (pos l)" "result_symbol l1 = result_symbol l" "remaining l1 < remaining l"
      using a False by (simp_all add: l1_def m_def pos_advance map_tl)
    have one: ?thesis if "template_content_loop h l = template_content_loop True l1"
      "\<not> prefix [c_backtick, c_backtick, c_backtick] (c # cs)"
      using less.hyps [OF l1(4), of True] that l1 c False
      by (cases "triple_backtick cs") auto
    show ?thesis
    proof (cases "c = c_backtick \<and> hd0 cs = c_backtick")
      case True
      then obtain ds where ds: "cs = c_backtick # ds" by (cases cs) auto
      note b = text_ahead_ConsD [OF l1(1) [unfolded ds]]
      have l2: "text_ahead l2 = ds" "pos l2 = Suc (Suc (pos l))" "result_symbol l2 = result_symbol l"
        "remaining l2 < remaining l"
        using b l1 by (simp_all add: l2_def)
      have step: "template_content_loop h l =
          (if hd0 ds = c_backtick then (h, l2) else template_content_loop True l2)"
      proof -
        have "lookahead l2 = hd0 ds" using l2(1) by (simp only: lookahead_hd0)
        moreover have "advance (mark_end l) = l1" "advance l1 = l2"
          using c True by (simp_all add: l1_def m_def l2_def)
        ultimately show ?thesis
          using c True b(2) by (simp add: template_content_loop.simps [of h l])
      qed
      show ?thesis
      proof (cases "hd0 ds = c_backtick")
        case True
        then have "prefix [c_backtick, c_backtick, c_backtick] (c # cs)"
          using ds \<open>c = c_backtick \<and> _\<close> by (cases ds) auto
        then have "triple_backtick (text_ahead l) = Some 0" using c False by simp
        moreover have "tok_end l2 = Some (pos l)" using c \<open>c = c_backtick \<and> _\<close> by (simp add: l2_def l1_def m_def)
        ultimately show ?thesis using step True l2 by simp
      next
        case False
        then have "triple_backtick (text_ahead l) = map_option (\<lambda>n. Suc (Suc n)) (triple_backtick ds)"
          using c ds \<open>c = c_backtick \<and> _\<close> by (cases ds) (auto simp: option.map_comp o_def)
        with less.hyps [OF l2(4), of True] step False l2 show ?thesis
          by (cases "triple_backtick ds") auto
      qed
    next
      case other: False
      have "template_content_loop h l = template_content_loop True l1"
      proof -
        have "lookahead l1 = hd0 cs" using l1(1) by (simp only: lookahead_hd0)
        moreover have "advance (if c = c_backtick then mark_end l else l) = l1" using c by (simp add: l1_def m_def)
        ultimately show ?thesis
          using other c False by (simp add: template_content_loop.simps [of h l] split: if_splits)
      qed
      moreover have "\<not> prefix [c_backtick, c_backtick, c_backtick] (c # cs)" using other by (cases cs) auto
      ultimately show ?thesis by (rule one)
    qed
  qed
qed

section \<open>Properties\<close>

text \<open>C32. The loop over the text of a query ends exactly when a quote is ahead: then the token ends in
front of it and is reported when the text is neither empty nor a line feed and white space only.
Without a quote up to the end of the input the scan does not return.\<close>

theorem cfscript_query_text:
  assumes "valid QUERY_TEXT" and "\<not> valid CFML_TEMPLATE_CONTENT" and "\<not> valid TEMPLATE_CHARS"
    and "tok_end l = None" and "run = takeWhile (\<lambda>c. c \<noteq> c_dquote) (text_ahead l)"
  shows "if c_dquote \<notin> set (text_ahead l) then cfscript_scan l valid = None
    else if run \<noteq> [] \<and> \<not> (hd run = c_nl \<and> list_all iswspace run)
    then \<exists>l'. cfscript_scan l valid = Some (True, l') \<and> token_end l' = pos l + length run \<and>
      result_symbol l' = Some QUERY_TEXT
    else cfscript_scan l valid = Some (cfscript_scan_rest (set_result QUERY_TEXT (advance_n False (length run) l)) valid)"
proof (cases "c_dquote \<in> set (text_ahead l)")
  case False
  then have "query_loop False False l = None"
    using query_loop_needs_quote [of False False l] by (cases "query_loop False False l") auto
  with False assms show ?thesis by (simp add: cfscript_scan_def scan_query_text_def)
next
  case True
  define saw where "saw = (run \<noteq> [] \<and> \<not> (hd run = c_nl \<and> list_all iswspace run))"
  define m where "m = set_result QUERY_TEXT (advance_n False (length run) l)"
  obtain rest where split: "text_ahead l = run @ c_dquote # rest"
    using True assms(5) by (metis (mono_tags, lifting) dropWhile_eq_Nil_conv hd_dropWhile list.exhaust_sel takeWhile_dropWhile_id)
  moreover have "c_dquote \<notin> set run" using assms(5) by (auto dest: set_takeWhileD)
  ultimately have "query_loop False False l = Some (saw, advance_n False (length run) l)"
    using query_loop_run [of l run rest False False] by (auto simp: saw_def list_all_iff)
  then have scan: "cfscript_scan l valid = Some (if saw then (True, m) else cfscript_scan_rest m valid)"
    using assms(1-3) by (simp add: cfscript_scan_def scan_query_text_def m_def)
  have "pos m = pos l + length run" using pos_advance_n_text [OF split] by (simp add: m_def)
  then have "token_end m = pos l + length run" "result_symbol m = Some QUERY_TEXT"
    using assms(4) by (simp_all add: m_def token_end_def)
  with scan True show ?thesis by (simp only: saw_def [symmetric] m_def [symmetric]) simp
qed

theorem cfscript_query_text_witness:
  "(\<exists>l'. cfscript_scan (lexer_on (codes ''select x\"'')) (\<lambda>k. k = QUERY_TEXT) = Some (True, l') \<and>
      token_end l' = 8 \<and> result_symbol l' = Some QUERY_TEXT) \<and>
   cfscript_scan (lexer_on (codes ''select x'')) (\<lambda>k. k = QUERY_TEXT) = None"
  using cfscript_query_text [of "\<lambda>k. k = QUERY_TEXT" "lexer_on (codes ''select x\"'')" "codes ''select x''"]
    cfscript_query_text [of "\<lambda>k. k = QUERY_TEXT" "lexer_on (codes ''select x'')" "codes ''select x''"]
  by (simp add: iswspace_def eval_nat_numeral)

text \<open>The content of a CFML template reaches up to the first three backticks: the scan succeeds
exactly when the reference finds them behind at least one character, and the token ends in front of
them.\<close>

theorem cfscript_template_content:
  assumes "valid CFML_TEMPLATE_CONTENT"
  shows "case triple_backtick (text_ahead l) of
      None \<Rightarrow> \<exists>l'. cfscript_scan l valid = Some (False, l')
    | Some n \<Rightarrow> \<exists>l'. cfscript_scan l valid = Some (0 < n, l') \<and> token_end l' = pos l + n \<and>
        result_symbol l' = Some CFML_TEMPLATE_CONTENT"
proof -
  define m where "m = set_result CFML_TEMPLATE_CONTENT l"
  have "cfscript_scan l valid = Some (template_content_loop False m)"
    using assms by (simp add: cfscript_scan_def scan_cfml_template_content_def m_def)
  moreover have "text_ahead m = text_ahead l" "pos m = pos l" "result_symbol m = Some CFML_TEMPLATE_CONTENT"
    by (simp_all add: m_def)
  ultimately show ?thesis
    using template_content_text [of False m]
    by (cases "template_content_loop False m") (auto simp: token_end_def split: option.split)
qed

theorem cfscript_template_content_witness:
  "case triple_backtick (codes ''a``b```'') of
      None \<Rightarrow> False
    | Some n \<Rightarrow> \<exists>l'. cfscript_scan (lexer_on (codes ''a``b```'')) (\<lambda>k. k = CFML_TEMPLATE_CONTENT) = Some (True, l') \<and>
        token_end l' = 4 \<and> result_symbol l' = Some CFML_TEMPLATE_CONTENT"
  using cfscript_template_content [of "\<lambda>k. k = CFML_TEMPLATE_CONTENT" "lexer_on (codes ''a``b```'')"]
  by (simp add: eval_nat_numeral)

text \<open>C14. Where a semicolon is inserted: behind blanks, a line feed and any white space and comments, a
semicolon of no width is reported exactly when the reference says that a statement starts there, which
is so before a name but not before a word operator of CFML, in any case. Left out are the words of
\<open>cfscript_misread\<close>, which the scanner gets wrong.\<close>

theorem cfscript_inserted_semicolon:
  assumes "text_ahead l = bl @ c_nl # ts @ rest" and "\<not> list_ex range_start (take (Suc (length bl)) (ahead l))"
    and "list_all (\<lambda>c. iswspace c \<and> c \<noteq> c_nl) bl" and "trivia (\<lambda>c. \<not> comment_char c) ts"
    and "\<not> iswspace (hd0 rest)" and "hd0 rest \<noteq> c_slash" and "\<not> cfscript_misread rest"
    and "valid AUTOMATIC_SEMICOLON" and "\<not> valid TAG_LINEFEED"
    and "\<not> valid CFML_TEMPLATE_CONTENT" and "\<not> valid TEMPLATE_CHARS" and "\<not> valid QUERY_TEXT"
    and "\<not> (valid TERNARY_QMARK \<and> c_quest \<in> set (take 11 rest))"
  shows "\<exists>l'. cfscript_scan l valid = Some (cfscript_starts_statement rest, l') \<and>
    token_end l' = pos l \<and> result_symbol l' = Some AUTOMATIC_SEMICOLON"
  using cfscript_scan_semicolon [OF assms(1-6) assms(8-13)] cfscript_next_misread [OF assms(7)] by simp

theorem cfscript_inserted_semicolon_witness:
  "\<exists>l'. cfscript_scan (lexer_on (10 # codes ''AND x'')) (\<lambda>k. k = AUTOMATIC_SEMICOLON) = Some (False, l') \<and>
    token_end l' = 0 \<and> result_symbol l' = Some AUTOMATIC_SEMICOLON"
proof -
  have "\<not> cfscript_starts_statement (codes ''AND x'')"
    by (simp add: cfscript_starts_statement_def operator_letters_def script_word_char_def
        word_operator_ahead_def word_operators_def iswalpha_def iswalnum_def iswdigit_def towlower_def)
  then show ?thesis
    using cfscript_inserted_semicolon [OF _ _ _ trivia.none, of "lexer_on (10 # codes ''AND x'')" "[]" "codes ''AND x''"
        "\<lambda>k. k = AUTOMATIC_SEMICOLON"]
    by (simp add: lexer_on_def start_lexer_def iswspace_def cfscript_misread_def operator_letters_def
        script_word_char_def word_operators_def iswalpha_def iswalnum_def iswdigit_def towlower_def)
qed

text \<open>The word operators are meant to be found in any case, but a capital I is not among the letters
that are looked at: a semicolon is inserted in front of IN and INSTANCEOF.\<close>

theorem cfscript_capital_in_splits:
  assumes "w \<in> {''IN'', ''INSTANCEOF''}" and "\<not> script_word_char (hd0 rest)"
    and "text_ahead l = c_nl # codes w @ rest" and "\<not> list_ex range_start (take 1 (ahead l))"
    and "valid AUTOMATIC_SEMICOLON" and "\<not> valid TAG_LINEFEED"
    and "\<not> valid CFML_TEMPLATE_CONTENT" and "\<not> valid TEMPLATE_CHARS" and "\<not> valid QUERY_TEXT"
    and "\<not> valid TERNARY_QMARK"
  shows "word_operator_ahead (codes w @ rest) \<and>
    (\<exists>l'. cfscript_scan l valid = Some (True, l') \<and> token_end l' = pos l \<and>
      result_symbol l' = Some AUTOMATIC_SEMICOLON)"
proof
  have "\<not> iswalpha (hd0 rest)" using assms(2) alpha_script_word by blast
  then have "takeWhile iswalpha rest = []" "dropWhile iswalpha rest = rest" by (cases rest; simp)+
  then show "word_operator_ahead (codes w @ rest)"
    using assms(1,2) by (auto simp: word_operator_ahead_def operator_letters_def word_operators_def iswalpha_def towlower_def)
  have "\<not> iswspace (hd0 (codes w @ rest))" "hd0 (codes w @ rest) \<noteq> c_slash"
    "cfscript_next_letters (codes w @ rest)"
    using assms(1) by (auto simp: iswspace_def cfscript_next_letters_def statement_char_def
        cfscript_continuation_chars_def operator_initials_def)
  then show "\<exists>l'. cfscript_scan l valid = Some (True, l') \<and> token_end l' = pos l \<and>
      result_symbol l' = Some AUTOMATIC_SEMICOLON"
    using cfscript_scan_semicolon [OF _ _ _ trivia.none, of l "[]" "codes w @ rest" valid] assms(3-10) by simp
qed

theorem cfscript_capital_in_splits_witness:
  "\<exists>l'. cfscript_scan (lexer_on (10 # codes ''IN'' @ codes '' y'')) (\<lambda>k. k = AUTOMATIC_SEMICOLON) = Some (True, l') \<and>
    token_end l' = 0 \<and> result_symbol l' = Some AUTOMATIC_SEMICOLON"
  using cfscript_capital_in_splits [of "''IN''" "codes '' y''" "lexer_on (10 # codes ''IN'' @ codes '' y'')"
      "\<lambda>k. k = AUTOMATIC_SEMICOLON"]
  by (simp add: script_word_char_def iswalnum_def iswalpha_def iswdigit_def lexer_on_def start_lexer_def)

end
