(* ===== verification/Scala_Text.thy ===== *)
theory Scala_Text
  imports Nested_Comments
begin

text \<open>
  The first half of \<^verbatim>\<open>codegraph-kernel/grammars/scala/scanner.c\<close>: the tokens, the state with its
  serialization, character classes, and the readers the scan is built from (strings, comments, words,
  operands, the rest of a line, numbers). The scan itself is in \<open>Scala\<close>.
\<close>

section \<open>Tokens and state\<close>

datatype scala_token =
    AUTOMATIC_SEMICOLON | INDENT | OUTDENT | COMMA_OUTDENT | SIMPLE_STRING_START
  | SIMPLE_STRING_MIDDLE | SIMPLE_MULTILINE_STRING_START | INTERPOLATED_STRING_MIDDLE
  | INTERPOLATED_MULTILINE_STRING_MIDDLE | RAW_STRING_START | RAW_STRING_MIDDLE
  | RAW_STRING_MULTILINE_MIDDLE | SINGLE_LINE_STRING_END | MULTILINE_STRING_END | ELSE | CATCH
  | FINALLY | EXTENDS | DERIVES | WITH | BLOCK_COMMENT | SUPPRESS_BLOCK_COMMENT | ERROR_SENTINEL
  | COLON_EOL | POSTFIX_OP | POSTFIX_STAR | FLOATING_POINT_WITH_SEPARATORS | END_KEYWORD
  | CONTROL_TAIL_GATE | XML_TAG_START | ERASED_MODIFIER | OPEN_MODIFIER | OPAQUE_MODIFIER
  | INFIX_MODIFIER | TRACKED_MODIFIER | TRANSPARENT_MODIFIER | INLINE_MODIFIER | INTO_MODIFIER
  | UPDATE_MODIFIER | CONSUME_MODIFIER | USES | OP_LEFT_OR | OP_LEFT_XOR | OP_LEFT_AND | OP_LEFT_EQ
  | OP_LEFT_REL | OP_LEFT_COLON | OP_LEFT_ADD | OP_LEFT_MUL | OP_LEFT_OTHER | OP_NAME
  | USING_DIRECTIVE_START

text \<open>The fields are of type \<open>int16_t\<close>; every assignment to them that can leave its range is narrowed.\<close>

record scala_scanner =
  indents :: "int list"
  last_indentation_size :: int
  last_newline_count :: int
  last_column :: int
  last_char :: int
  after_colon_eol :: int

definition scala_create :: scala_scanner where
  "scala_create = \<lparr>indents = [], last_indentation_size = -1, last_newline_count = 0,
     last_column = -1, last_char = 0, after_colon_eol = 0\<rparr>"

definition scala_serialize :: "scala_scanner \<Rightarrow> byte list" where
  "scala_serialize s =
     (if (length (indents s) + 5) * 2 > serialization_buffer_size then []
      else
        bytes_of_i16 (last_indentation_size s) @ bytes_of_i16 (last_newline_count s) @
        bytes_of_i16 (last_column s) @ bytes_of_i16 (last_char s) @ bytes_of_i16 (after_colon_eol s) @
        concat (List.map bytes_of_i16 (indents s)))"

text \<open>The entries that \<open>memcpy\<close> reads, two bytes each.\<close>

fun read_i16s :: "byte list \<Rightarrow> int list" where
  "read_i16s (a # b # bs) = i16_of_bytes [a, b] # read_i16s bs"
| "read_i16s _ = []"

text \<open>A buffer of one to nine bytes, which \<open>serialize\<close> never writes, is read behind its end: \<open>None\<close>.\<close>

definition scala_deserialize :: "scala_scanner \<Rightarrow> byte list \<Rightarrow> scala_scanner option" where
  "scala_deserialize s buffer =
     (if length buffer = 0 then Some scala_create
      else if length buffer < 10 then None
      else Some
        \<lparr>indents = read_i16s (drop 10 buffer),
         last_indentation_size = i16_of_bytes buffer,
         last_newline_count = i16_of_bytes (drop 2 buffer),
         last_column = i16_of_bytes (drop 4 buffer),
         last_char = i16_of_bytes (drop 6 buffer),
         after_colon_eol = i16_of_bytes (drop 8 buffer)\<rparr>)"

section \<open>Characters\<close>

definition is_space :: "code_point \<Rightarrow> bool" where
  "is_space c \<longleftrightarrow> c = c_space \<or> c_tab \<le> c \<and> c \<le> c_cr"

definition is_alpha :: "code_point \<Rightarrow> bool" where
  "is_alpha c \<longleftrightarrow> 97 \<le> c \<and> c \<le> 122 \<or> 65 \<le> c \<and> c \<le> 90"

definition is_digit :: "code_point \<Rightarrow> bool" where
  "is_digit c \<longleftrightarrow> 48 \<le> c \<and> c \<le> 57"

definition is_alnum :: "code_point \<Rightarrow> bool" where
  "is_alnum c \<longleftrightarrow> is_alpha c \<or> is_digit c"

lemma scala_ctype_zero [simp]: "\<not> is_space 0" "\<not> is_alpha 0" "\<not> is_digit 0" "\<not> is_alnum 0"
  by (simp_all add: is_space_def is_alpha_def is_digit_def is_alnum_def)

definition is_blank :: "code_point \<Rightarrow> bool" where
  "is_blank c \<longleftrightarrow> c = c_space \<or> c = c_tab"

lemma is_blank_zero [simp]: "\<not> is_blank 0"
  by (simp add: is_blank_def)

definition advance_past_blanks :: "'k lexer \<Rightarrow> bool \<times> 'k lexer" where
  "advance_past_blanks l = (is_blank (lookahead l), advance_while is_blank False l)"

definition case_indent_flag :: int where
  "case_indent_flag = 0x4000"

definition indent_width :: "int \<Rightarrow> int" where
  "indent_width entry = (if entry = -1 then -1 else to_int16 (entry AND 0x3FFF))"

definition at_case_region_width :: "int \<Rightarrow> int \<Rightarrow> bool" where
  "at_case_region_width prev width \<longleftrightarrow>
     prev \<noteq> -1 \<and> prev AND case_indent_flag \<noteq> 0 \<and> width = indent_width prev"

definition is_op_char :: "code_point \<Rightarrow> bool" where
  "is_op_char c \<longleftrightarrow>
     c \<in> {c_bang, c_hash, c_percent, c_amp, c_star, c_plus, c_minus, c_lt, c_eq, c_gt, c_quest, c_at,
          c_bslash, c_caret, c_bar, c_tilde, c_colon}"

lemma is_op_char_zero [simp]: "\<not> is_op_char 0"
  by (simp add: is_op_char_def)

definition op_left_class :: "code_point \<Rightarrow> scala_token" where
  "op_left_class first =
     (if first = c_bar then OP_LEFT_OR
      else if first = c_caret then OP_LEFT_XOR
      else if first = c_amp then OP_LEFT_AND
      else if first = c_eq \<or> first = c_bang then OP_LEFT_EQ
      else if first = c_lt \<or> first = c_gt then OP_LEFT_REL
      else if first = c_colon then OP_LEFT_COLON
      else if first = c_plus \<or> first = c_minus then OP_LEFT_ADD
      else if first = c_star \<or> first = c_percent then OP_LEFT_MUL
      else OP_LEFT_OTHER)"

definition is_xml_name_start :: "code_point \<Rightarrow> bool" where
  "is_xml_name_start c \<longleftrightarrow> is_alpha c \<or> c = c_underscore \<or> c > 127"

definition is_close_or_separator :: "code_point \<Rightarrow> bool" where
  "is_close_or_separator c \<longleftrightarrow> c \<in> {c_rparen, c_rbrack, c_rbrace, c_comma, c_semi}"

section \<open>Strings\<close>

datatype string_mode = STRING_MODE_SIMPLE | STRING_MODE_INTERPOLATED | STRING_MODE_RAW

definition string_middle :: "bool \<Rightarrow> string_mode \<Rightarrow> scala_token" where
  "string_middle is_multiline mode =
     (case mode of
        STRING_MODE_RAW \<Rightarrow> if is_multiline then RAW_STRING_MULTILINE_MIDDLE else RAW_STRING_MIDDLE
      | _ \<Rightarrow> if is_multiline then INTERPOLATED_MULTILINE_STRING_MIDDLE else INTERPOLATED_STRING_MIDDLE)"

text \<open>The \<open>for (;;)\<close> of \<open>scan_string_content\<close>.\<close>

function string_loop ::
  "bool \<Rightarrow> string_mode \<Rightarrow> nat \<Rightarrow> scala_token lexer \<Rightarrow> bool \<times> scala_token lexer" where
  "string_loop is_multiline mode closing_quote_count l =
     (if lookahead l = c_dquote then
        let l = advance l in
        if \<not> is_multiline then (True, mark_end (set_result SINGLE_LINE_STRING_END l))
        else if closing_quote_count + 1 \<ge> 3 \<and> lookahead l \<noteq> c_dquote
        then (True, mark_end (set_result MULTILINE_STRING_END l))
        else string_loop is_multiline mode (closing_quote_count + 1) l
      else if lookahead l = c_dollar \<and> mode \<noteq> STRING_MODE_SIMPLE then
        (True, mark_end (set_result (string_middle is_multiline mode) l))
      else if lookahead l = c_bslash then
        if is_multiline \<or> mode = STRING_MODE_RAW then
          let l = advance l in
          string_loop is_multiline mode 0
            (if \<not> is_multiline \<and> mode = STRING_MODE_RAW \<and> (lookahead l = c_dquote \<or> lookahead l = c_bslash)
             then advance l else l)
        else
          (True, mark_end (set_result (if mode = STRING_MODE_SIMPLE then SIMPLE_STRING_MIDDLE
                                       else INTERPOLATED_STRING_MIDDLE) l))
      else if lookahead l = c_nl \<and> \<not> is_multiline then (False, l)
      else if eof l then (False, l)
      else string_loop is_multiline mode 0 (advance l))"
  by pat_completeness auto
termination by (relation "measure (\<lambda>(_, _, _, l). remaining l)") auto

declare string_loop.simps [simp del]

definition scala_scan_string_content ::
  "scala_token lexer \<Rightarrow> bool \<Rightarrow> string_mode \<Rightarrow> bool \<times> scala_token lexer" where
  "scala_scan_string_content l is_multiline mode = string_loop is_multiline mode 0 l"

section \<open>Comments\<close>

text \<open>The loop of \<open>consume_block_comment_body_ex\<close>.\<close>

function comment_body :: "bool \<Rightarrow> nat \<Rightarrow> 'k lexer \<Rightarrow> bool \<times> 'k lexer" where
  "comment_body stop_at_newline depth l =
     (if depth = 0 then (True, l)
      else if eof l \<or> stop_at_newline \<and> lookahead l = c_nl then (False, l)
      else if lookahead l = c_slash then
        let l = advance l in
        if lookahead l = c_star then comment_body stop_at_newline (depth + 1) (advance l)
        else comment_body stop_at_newline depth l
      else if lookahead l = c_star then
        let l = advance l in
        if lookahead l = c_slash then comment_body stop_at_newline (depth - 1) (advance l)
        else comment_body stop_at_newline depth l
      else comment_body stop_at_newline depth (advance l))"
  by pat_completeness auto
termination by (relation "measure (\<lambda>(_, _, l). remaining l)") auto

declare comment_body.simps [simp del]

lemma pk_comment_body [peek_rules]: "peeks l0 l \<Longrightarrow> pk l0 (comment_body s d l)"
proof (induction s d l rule: comment_body.induct)
  case (1 s d l)
  then show ?case by (subst comment_body.simps) (auto simp: Let_def intro!: peek_rules)
qed

definition consume_block_comment_body :: "'k lexer \<Rightarrow> 'k lexer" where
  "consume_block_comment_body l = snd (comment_body False 1 l)"

definition consume_block_comment_body_on_line :: "'k lexer \<Rightarrow> bool \<times> 'k lexer" where
  "consume_block_comment_body_on_line l = comment_body True 1 l"

lemma peeks_consume_block_comment_body [peek_rules]:
  "peeks l0 l \<Longrightarrow> peeks l0 (consume_block_comment_body l)"
  using pk_comment_body [of l0 l False 1] by (simp add: consume_block_comment_body_def pk_def)

lemma pk_consume_on_line [peek_rules]: "peeks l0 l \<Longrightarrow> pk l0 (consume_block_comment_body_on_line l)"
  unfolding consume_block_comment_body_on_line_def by (rule pk_comment_body)

lemma pk_advance_past_blanks [peek_rules]: "peeks l0 l \<Longrightarrow> pk l0 (advance_past_blanks l)"
  by (simp add: advance_past_blanks_def pk_def)

definition finish_block_comment :: "scala_token lexer \<Rightarrow> bool \<times> scala_token lexer" where
  "finish_block_comment l = (True, set_result BLOCK_COMMENT (mark_end l))"

definition lex_block_comment :: "scala_token lexer \<Rightarrow> bool \<times> scala_token lexer" where
  "lex_block_comment l = finish_block_comment (consume_block_comment_body l)"

section \<open>Words\<close>

definition word_char :: "code_point \<Rightarrow> bool" where
  "word_char c \<longleftrightarrow> is_alnum c \<or> c = c_underscore \<or> c = c_dollar"

lemma word_char_zero [simp]: "\<not> word_char 0"
  by (simp add: word_char_def)

fun scan_letters :: "code_point list \<Rightarrow> 'k lexer \<Rightarrow> bool \<times> 'k lexer" where
  "scan_letters [] l = (True, l)"
| "scan_letters (c # cs) l = (if lookahead l \<noteq> c then (False, l) else scan_letters cs (advance l))"

definition scan_word :: "'k lexer \<Rightarrow> string \<Rightarrow> bool \<times> 'k lexer" where
  "scan_word l word =
     (let (b, l) = scan_letters (codes word) l in
      if \<not> b then (False, l) else (\<not> word_char (lookahead l), l))"

text \<open>The loop of \<open>read_word\<close>, with the letters kept so far; \<open>None\<close> is its result -1.\<close>

function scala_read_word_loop ::
  "nat \<Rightarrow> code_point list \<Rightarrow> bool \<Rightarrow> 'k lexer \<Rightarrow> code_point list option \<times> 'k lexer" where
  "scala_read_word_loop cap buf not_keyword l =
     (if word_char (lookahead l) then
        if lookahead l > 127 \<or> length buf \<ge> cap - 1 then scala_read_word_loop cap buf True (advance l)
        else scala_read_word_loop cap (buf @ [lookahead l]) not_keyword (advance l)
      else (if not_keyword then None else Some buf, l))"
  by pat_completeness auto
termination
proof (relation "measure (\<lambda>(_, _, _, l). remaining l)", goal_cases)
  case (2 cap buf n l)
  then have "lookahead l \<noteq> 0" by auto
  then show ?case by simp
next
  case (3 cap buf n l)
  then have "lookahead l \<noteq> 0" by auto
  then show ?case by simp
qed simp

declare scala_read_word_loop.simps [simp del]

definition scala_read_word :: "'k lexer \<Rightarrow> nat \<Rightarrow> code_point list option \<times> 'k lexer" where
  "scala_read_word l cap = scala_read_word_loop cap [] False l"

text \<open>\<open>len > 0 && word_in(word, words, count)\<close>\<close>

definition word_in :: "code_point list option \<Rightarrow> string list \<Rightarrow> bool" where
  "word_in word words \<longleftrightarrow> (case word of None \<Rightarrow> False | Some w \<Rightarrow> w \<noteq> [] \<and> w \<in> set (List.map codes words))"

lemma pk_scan_letters [peek_rules]: "peeks l0 l \<Longrightarrow> pk l0 (scan_letters cs l)"
  by (induction cs arbitrary: l) (auto intro!: peek_rules)

lemma pk_scan_word [peek_rules]: "peeks l0 l \<Longrightarrow> pk l0 (scan_word l w)"
  unfolding scan_word_def by (intro peek_rules)

lemma pk_read_word_loop: "peeks l0 l \<Longrightarrow> pk l0 (scala_read_word_loop cap buf n l)"
proof (induction cap buf n l rule: scala_read_word_loop.induct)
  case (1 cap buf n l)
  then show ?case by (subst scala_read_word_loop.simps) (auto intro!: peek_rules)
qed

lemma pk_read_word [peek_rules]: "peeks l0 l \<Longrightarrow> pk l0 (scala_read_word l cap)"
  unfolding scala_read_word_def by (rule pk_read_word_loop)

function skip_blanks_and_block_comments :: "'k lexer \<Rightarrow> 'k lexer" where
  "skip_blanks_and_block_comments l0 =
     (let l = advance_while is_blank False l0 in
      if lookahead l \<noteq> c_slash then l
      else
        let l = advance l in
        if lookahead l \<noteq> c_star then l
        else skip_blanks_and_block_comments (consume_block_comment_body (advance l)))"
  by pat_completeness auto
termination
proof (relation "measure remaining", goal_cases)
  case (2 l0 l l')
  then have "remaining l' < remaining l0" using advance_after_run [of is_blank False l0 False] by simp
  moreover have "remaining (consume_block_comment_body (advance l')) \<le> remaining l'"
    by (rule peeks_remaining) (intro peek_rules)
  ultimately show ?case by simp
qed simp

declare skip_blanks_and_block_comments.simps [simp del]

lemma peeks_skip_blanks_and_block_comments [peek_rules]:
  "peeks l0 l \<Longrightarrow> peeks l0 (skip_blanks_and_block_comments l)"
proof (induction l rule: skip_blanks_and_block_comments.induct)
  case (1 l)
  then show ?case
    by (subst skip_blanks_and_block_comments.simps) (auto simp: Let_def intro!: peek_rules)
qed

definition name_follows_word :: "'k lexer \<Rightarrow> bool \<times> 'k lexer" where
  "name_follows_word l =
     (let l = skip_blanks_and_block_comments l; c = lookahead l in
      (is_alpha c \<or> c = c_underscore \<or> c = c_dollar \<or> c = c_backtick \<or> c > 127, l))"

definition expression_tails :: "string list" where
  "expression_tails =
     [''match'', ''catch'', ''finally'', ''else'', ''then'', ''do'', ''yield'', ''while'', ''with'', ''extends'']"

text \<open>The capacity is that of the buffer, the longest word and a NUL.\<close>

definition word_is_expression_tail :: "'k lexer \<Rightarrow> bool \<times> 'k lexer" where
  "word_is_expression_tail l =
     (let (word, l) = scala_read_word l 8 in (word_in word expression_tails, l))"

definition modifier_word_allowed :: "'k lexer \<Rightarrow> bool \<times> 'k lexer" where
  "modifier_word_allowed l = (let (b, l) = word_is_expression_tail l in (\<not> b, l))"

definition operand_word_allowed :: "'k lexer \<Rightarrow> bool \<times> 'k lexer" where
  "operand_word_allowed l = (let (b, l) = word_is_expression_tail l in (\<not> b, l))"

definition modifier_name_follows :: "'k lexer \<Rightarrow> bool \<times> 'k lexer" where
  "modifier_name_follows l =
     (let (b, l) = name_follows_word l in if b then modifier_word_allowed l else (False, l))"

definition definition_starts :: "string list" where
  "definition_starts =
     [''def'', ''val'', ''var'', ''type'', ''given'', ''class'', ''object'', ''trait'', ''enum'', ''final'',
      ''lazy'', ''override'', ''private'', ''protected'', ''sealed'', ''abstract'', ''implicit'']"

definition inline_modifier_follows :: "'k lexer \<Rightarrow> bool \<times> 'k lexer" where
  "inline_modifier_follows l =
     (let (b, l) = name_follows_word l; c = lookahead l in
      if b then modifier_word_allowed l
      else if is_digit c \<or> c \<in> {c_dquote, c_squote, c_lparen, c_lbrace, c_minus} then (True, l)
      else if c \<noteq> c_nl \<and> c \<noteq> c_cr then (False, l)
      else
        let l = advance_while is_space False l;
            (word, l) = scala_read_word l 12 in
        (word_in word definition_starts, l))"

definition is_case_definition_word :: "'k lexer \<Rightarrow> bool \<times> 'k lexer" where
  "is_case_definition_word l =
     (let (_, l) = advance_past_blanks l;
          (word, l) = scala_read_word l 7 in
      (word_in word [''class'', ''object''], l))"

definition is_case_clause_intro :: "'k lexer \<Rightarrow> bool \<times> 'k lexer" where
  "is_case_clause_intro l =
     (let (b, l) = scan_word l ''case'' in
      if b then let (d, l) = is_case_definition_word l in (\<not> d, l) else (False, l))"

lemma pk_word_readers [peek_rules]:
  "peeks l0 l \<Longrightarrow> pk l0 (name_follows_word l)" "peeks l0 l \<Longrightarrow> pk l0 (word_is_expression_tail l)"
  "peeks l0 l \<Longrightarrow> pk l0 (modifier_word_allowed l)" "peeks l0 l \<Longrightarrow> pk l0 (operand_word_allowed l)"
proof -
  assume l: "peeks l0 l"
  show "pk l0 (name_follows_word l)" unfolding name_follows_word_def using l by (intro peek_rules)
  have t: "pk l0 (word_is_expression_tail l)" unfolding word_is_expression_tail_def using l by (intro peek_rules)
  then show "pk l0 (word_is_expression_tail l)" .
  show "pk l0 (modifier_word_allowed l)" "pk l0 (operand_word_allowed l)"
    unfolding modifier_word_allowed_def operand_word_allowed_def using t by (auto simp: pk_def split_beta)
qed

lemma pk_modifier_readers [peek_rules]:
  "peeks l0 l \<Longrightarrow> pk l0 (modifier_name_follows l)" "peeks l0 l \<Longrightarrow> pk l0 (inline_modifier_follows l)"
  "peeks l0 l \<Longrightarrow> pk l0 (is_case_definition_word l)" "peeks l0 l \<Longrightarrow> pk l0 (is_case_clause_intro l)"
proof -
  assume l: "peeks l0 l"
  show "pk l0 (modifier_name_follows l)" unfolding modifier_name_follows_def using l by (intro peek_rules)
  show "pk l0 (inline_modifier_follows l)" unfolding inline_modifier_follows_def using l by (intro peek_rules)
  have d: "pk l0 (is_case_definition_word m)" if "peeks l0 m" for m
    unfolding is_case_definition_word_def using that by (intro peek_rules)
  show "pk l0 (is_case_definition_word l)" by (rule d [OF l])
  show "pk l0 (is_case_clause_intro l)" unfolding is_case_clause_intro_def using l by (intro peek_rules d)
qed

section \<open>Comments at a layout boundary\<close>

datatype comment_at_layout = COMMENT_NONE | COMMENT_LEXED | COMMENT_ABORT | COMMENT_SAME_LINE_CODE

definition to_newline :: "'k lexer \<Rightarrow> 'k lexer" where
  "to_newline l = advance_while (\<lambda>c. c \<noteq> c_nl) False l"

lemma peeks_to_newline [peek_rules]: "peeks l0 l \<Longrightarrow> peeks l0 (to_newline l)"
  by (simp add: to_newline_def)

function layout_comment_loop :: "scala_token lexer \<Rightarrow> comment_at_layout \<times> scala_token lexer" where
  "layout_comment_loop l0 =
     (let l = advance_while is_blank False (consume_block_comment_body l0) in
      if eof l \<or> lookahead l = c_nl \<or> lookahead l = c_cr then
        (COMMENT_LEXED, snd (finish_block_comment l))
      else if lookahead l = c_slash then
        let l = advance l in
        if lookahead l = c_star then layout_comment_loop (advance l)
        else if lookahead l = c_slash then
          (COMMENT_LEXED, snd (finish_block_comment (to_newline l)))
        else (COMMENT_SAME_LINE_CODE, l)
      else (COMMENT_SAME_LINE_CODE, l))"
  by pat_completeness auto
termination
proof (relation "measure remaining", goal_cases)
  case (2 l0 l l')
  then have "remaining l' < remaining (consume_block_comment_body l0)"
    using advance_after_run [of is_blank False "consume_block_comment_body l0" False] by simp
  moreover have "remaining (consume_block_comment_body l0) \<le> remaining l0"
    by (rule peeks_remaining) (intro peek_rules)
  ultimately show ?case by simp
qed simp

declare layout_comment_loop.simps [simp del]

definition check_comment_at_layout ::
  "scala_token lexer \<Rightarrow> (scala_token \<Rightarrow> bool) \<Rightarrow> comment_at_layout \<times> scala_token lexer" where
  "check_comment_at_layout l valid =
     (if lookahead l \<noteq> c_slash then (COMMENT_NONE, l)
      else
        let l = advance l in
        if lookahead l = c_star \<and> valid BLOCK_COMMENT then layout_comment_loop (advance l)
        else if lookahead l = c_slash \<or> lookahead l = c_star then (COMMENT_ABORT, l)
        else (COMMENT_NONE, l))"

section \<open>Delimited text and the rest of a line\<close>

function delimited_loop :: "code_point \<Rightarrow> bool \<Rightarrow> 'k lexer \<Rightarrow> 'k lexer" where
  "delimited_loop close escapes l =
     (if \<not> eof l \<and> lookahead l \<noteq> close \<and> lookahead l \<noteq> c_nl then
        delimited_loop close escapes
          (advance (if escapes \<and> lookahead l = c_bslash then advance l else l))
      else l)"
  by pat_completeness auto
termination by (relation "measure (\<lambda>(_, _, l). remaining l)") auto

declare delimited_loop.simps [simp del]

definition skip_delimited :: "'k lexer \<Rightarrow> code_point \<Rightarrow> bool \<Rightarrow> 'k lexer" where
  "skip_delimited l close escapes =
     (let l = delimited_loop close escapes l in if lookahead l = close then advance l else l)"

lemma peeks_delimited_loop: "peeks l0 l \<Longrightarrow> peeks l0 (delimited_loop c e l)"
proof (induction c e l rule: delimited_loop.induct)
  case (1 c e l)
  then show ?case by (subst delimited_loop.simps) auto
qed

lemma peeks_skip_delimited [peek_rules]: "peeks l0 l \<Longrightarrow> peeks l0 (skip_delimited l c e)"
  using peeks_delimited_loop [of l0 l c e] by (simp add: skip_delimited_def Let_def)

definition skip_char_or_quote_tail :: "'k lexer \<Rightarrow> code_point \<times> 'k lexer" where
  "skip_char_or_quote_tail l =
     (if lookahead l = c_bslash then
        let l = advance l;
            l = (if \<not> eof l \<and> lookahead l \<noteq> c_nl then advance l else l) in
        (0, if lookahead l = c_squote then advance l else l)
      else if eof l \<or> lookahead l = c_nl then (0, l)
      else
        let quoted = lookahead l; l = advance l in
        if lookahead l = c_squote then (0, advance l) else (quoted, l))"

lemma pk_skip_char_or_quote_tail [peek_rules]: "peeks l0 l \<Longrightarrow> pk l0 (skip_char_or_quote_tail l)"
  by (auto simp: skip_char_or_quote_tail_def pk_def Let_def)

function rest_of_line_is_blank_or_comments :: "'k lexer \<Rightarrow> bool \<times> 'k lexer" where
  "rest_of_line_is_blank_or_comments l0 =
     (let l = advance_while is_blank False l0 in
      if eof l \<or> lookahead l = c_nl \<or> lookahead l = c_cr then (True, l)
      else if lookahead l \<noteq> c_slash then (False, l)
      else
        let l = advance l in
        if lookahead l = c_slash then (True, to_newline l)
        else if lookahead l \<noteq> c_star then (False, l)
        else
          case consume_block_comment_body_on_line (advance l) of (b, l) \<Rightarrow>
            if \<not> b then (True, l) else rest_of_line_is_blank_or_comments l)"
  by pat_completeness auto
termination
proof (relation "measure remaining", goal_cases)
  case (2 l0 l l' b l2)
  then have "remaining l' < remaining l0" using advance_after_run [of is_blank False l0 False] by simp
  moreover have "snd (consume_block_comment_body_on_line (advance l')) = l2" using 2 by (metis snd_conv)
  then have "remaining l2 \<le> remaining l'"
    using peeks_remaining [of l' l2] pk_consume_on_line [OF peeks_advance [OF peeks_refl [of l']]]
    by (auto simp: pk_def)
  ultimately show ?case by simp
qed simp

declare rest_of_line_is_blank_or_comments.simps [simp del]

lemma pk_rest_of_line_is_blank_or_comments [peek_rules]:
  "peeks l0 l \<Longrightarrow> pk l0 (rest_of_line_is_blank_or_comments l)"
proof (induction l rule: rest_of_line_is_blank_or_comments.induct)
  case (1 l)
  define l1 where "l1 = advance_while is_blank False l"
  define l2 where "l2 = advance l1"
  obtain b l3 where c: "consume_block_comment_body_on_line (advance l2) = (b, l3)" by fastforce
  have l1: "peeks l0 l1" using 1(2) by (simp add: l1_def)
  then have "peeks l0 l3" using pk_consume_on_line [of l0 "advance l2"] c by (simp add: l2_def pk_def)
  moreover have "peeks l0 (to_newline l2)" using l1 by (auto simp: l2_def intro!: peek_rules)
  ultimately show ?case
    using 1(1) [OF l1_def _ _ l2_def _ _ c [symmetric]] l1 c
    by (subst rest_of_line_is_blank_or_comments.simps)
      (simp add: l1_def [symmetric] l2_def [symmetric] pk_Pair Let_def, simp add: l2_def pk_Pair)
qed

function has_operand :: "'k lexer \<Rightarrow> bool \<times> 'k lexer" where
  "has_operand l =
     (if eof l then (False, l)
      else if is_space (lookahead l) then has_operand (advance l)
      else if lookahead l \<noteq> c_slash then (\<not> is_close_or_separator (lookahead l), l)
      else
        let l = advance l in
        if lookahead l = c_slash then has_operand (to_newline l)
        else if lookahead l \<noteq> c_star then (True, l)
        else has_operand (consume_block_comment_body (advance l)))"
  by pat_completeness auto
termination
proof (relation "measure remaining", goal_cases)
  case (3 l l')
  have "remaining (to_newline l') \<le> remaining l'" by (rule peeks_remaining) (intro peek_rules)
  then show ?case using 3 by (auto intro: le_less_trans)
next
  case (4 l l')
  have "remaining (consume_block_comment_body (advance l')) \<le> remaining l'"
    by (rule peeks_remaining) (intro peek_rules)
  then show ?case using 4 by (auto intro: le_less_trans)
qed auto

declare has_operand.simps [simp del]

lemma pk_has_operand [peek_rules]: "peeks l0 l \<Longrightarrow> pk l0 (has_operand l)"
proof (induction l rule: has_operand.induct)
  case (1 l)
  then show ?case by (subst has_operand.simps) (auto simp: Let_def intro!: peek_rules)
qed

definition operand_follows :: "'k lexer \<Rightarrow> bool \<times> 'k lexer" where
  "operand_follows l =
     (let (b, l) = advance_past_blanks l in
      if \<not> b then (False, l)
      else let (b, l) = has_operand l in if \<not> b then (False, l) else operand_word_allowed l)"

lemma pk_operand_follows [peek_rules]: "peeks l0 l \<Longrightarrow> pk l0 (operand_follows l)"
  unfolding operand_follows_def by (intro peek_rules)

definition is_leading_infix_continuation :: "'k lexer \<Rightarrow> bool \<times> 'k lexer" where
  "is_leading_infix_continuation l =
     (if is_op_char (lookahead l) then
        operand_follows (advance_while is_op_char False (advance l))
      else if lookahead l = c_backtick then
        let l = advance_while (\<lambda>c. c \<noteq> c_backtick) False (advance l) in
        if lookahead l \<noteq> c_backtick then (False, l) else operand_follows (advance l)
      else (False, l))"

lemma pk_is_leading_infix_continuation [peek_rules]:
  "peeks l0 l \<Longrightarrow> pk l0 (is_leading_infix_continuation l)"
  unfolding is_leading_infix_continuation_def by (intro peek_rules)

record line_scan =
  ends_conditional :: bool
  has_case_arrow :: bool
  closes_bracket :: bool

definition open_bracket :: "code_point \<Rightarrow> bool" where
  "open_bracket c \<longleftrightarrow> c \<in> {c_lparen, c_lbrack, c_lbrace}"

definition close_bracket :: "code_point \<Rightarrow> bool" where
  "close_bracket c \<longleftrightarrow> c \<in> {c_rparen, c_rbrack, c_rbrace}"

text \<open>The operator characters behind the first one: how many there are.\<close>

definition op_run :: "'k lexer \<Rightarrow> nat" where
  "op_run l = length (takeWhile is_op_char (text_ahead l))"

text \<open>One round of the loop of \<open>scan_rest_of_line\<close>: \<open>None\<close> when it breaks off.\<close>

definition line_step ::
  "int \<Rightarrow> line_scan \<Rightarrow> 'k lexer \<Rightarrow> (int \<times> line_scan) option \<times> 'k lexer" where
  "line_step depth r l =
     (let c = lookahead l; stop = r\<lparr>ends_conditional := False\<rparr> in
      if c = c_space \<or> c = c_tab then (Some (depth, r), advance l)
      else if open_bracket c then (Some (depth + 1, stop), advance l)
      else if close_bracket c then
        (Some (depth - 1, if depth - 1 < 0 then stop\<lparr>closes_bracket := True\<rparr> else stop), advance l)
      else if c = c_dquote \<or> c = c_backtick then
        (Some (depth, stop), skip_delimited (advance l) c (c = c_dquote))
      else if c = c_squote then
        let (quoted, l) = skip_char_or_quote_tail (advance l) in
        (Some (if open_bracket quoted then depth + 1 else if close_bracket quoted then depth - 1 else depth, stop), l)
      else if c = c_slash then
        let l = advance l in
        if lookahead l = c_slash then (None, l)
        else if lookahead l = c_star then
          let (b, l) = consume_block_comment_body_on_line (advance l) in
          if \<not> b then (None, l) else (Some (depth, r), l)
        else (Some (depth, stop), l)
      else if c = 0x21D2 then
        (Some (depth, if depth = 0 then stop\<lparr>has_case_arrow := True\<rparr> else stop), advance l)
      else if is_op_char c then
        let l = advance l in
        (Some (depth, if depth = 0 \<and> c = c_eq \<and> lookahead l = c_gt \<and> op_run l = 1
                      then stop\<lparr>has_case_arrow := True\<rparr> else stop),
         advance_while is_op_char False l)
      else if is_alpha c \<or> c = c_underscore \<or> c = c_dollar then
        let (word, l) = scala_read_word l 5 in
        (Some (depth, r\<lparr>ends_conditional := depth = 0 \<and> word_in word [''then'', ''do'']\<rparr>), l)
      else (Some (depth, stop), advance l))"

lemma pk_line_step [peek_rules]: "peeks l0 l \<Longrightarrow> pk l0 (line_step d r l)"
  unfolding line_step_def Let_def by (intro peek_rules)

lemma read_word_progress:
  assumes "word_char (lookahead l)"
  shows "pk (advance l) (scala_read_word l cap)"
  using assms pk_read_word_loop [OF peeks_refl [of "advance l"]]
  by (simp add: scala_read_word_def scala_read_word_loop.simps [of cap "[]" False l])

lemma line_step_progress:
  assumes "\<not> eof l"
  shows "remaining (snd (line_step d r l)) < remaining l"
proof -
  have w: "pk (advance l) (case scala_read_word l 5 of (word, l) \<Rightarrow>
      (Some (d, r\<lparr>ends_conditional := d = 0 \<and> word_in word [''then'', ''do'']\<rparr>), l))"
    if "is_alpha (lookahead l) \<or> lookahead l = c_underscore \<or> lookahead l = c_dollar"
    using read_word_progress [of l 5] that by (auto simp: word_char_def is_alnum_def pk_def split_beta)
  have "pk (advance l) (line_step d r l)"
    unfolding line_step_def Let_def by (intro peek_rules w)
  then have "remaining (snd (line_step d r l)) \<le> remaining (advance l)" by (rule pk_remaining)
  then show ?thesis using assms by (auto intro: le_less_trans)
qed

function line_loop :: "int \<Rightarrow> line_scan \<Rightarrow> 'k lexer \<Rightarrow> line_scan \<times> 'k lexer" where
  "line_loop depth r l =
     (if \<not> eof l \<and> lookahead l \<noteq> c_nl \<and> lookahead l \<noteq> c_cr then
        case line_step depth r l of
          (None, l) \<Rightarrow> (r, l)
        | (Some (depth, r), l) \<Rightarrow> line_loop depth r l
      else (r, l))"
  by pat_completeness auto
termination
proof (relation "measure (\<lambda>(_, _, l). remaining l)", goal_cases)
  case (2 d r l p l' q d' r')
  then have "snd (line_step d r l) = l'" by (metis snd_conv)
  then show ?case using line_step_progress [of l d r] 2 by simp
qed simp

declare line_loop.simps [simp del]

definition scan_rest_of_line :: "'k lexer \<Rightarrow> line_scan \<times> 'k lexer" where
  "scan_rest_of_line l =
     line_loop 0 \<lparr>ends_conditional = False, has_case_arrow = False, closes_bracket = False\<rparr> l"

lemma pk_line_loop: "peeks l0 l \<Longrightarrow> pk l0 (line_loop d r l)"
proof (induction d r l rule: line_loop.induct)
  case (1 d r l)
  obtain q m where m: "line_step d r l = (q, m)" by fastforce
  then have "peeks l0 m" using pk_line_step [OF 1(2), of d r] by (simp add: pk_def)
  then show ?case
    using 1 m by (subst line_loop.simps) (auto simp: pk_Pair split: option.split)
qed

lemma pk_scan_rest_of_line [peek_rules]: "peeks l0 l \<Longrightarrow> pk l0 (scan_rest_of_line l)"
  unfolding scan_rest_of_line_def by (rule pk_line_loop)

section \<open>Numbers with separators\<close>

text \<open>The loop of \<open>consume_digit_group\<close>, with \<open>*saw_sep\<close>.\<close>

function digits_loop :: "bool \<Rightarrow> 'k lexer \<Rightarrow> (bool \<times> bool) \<times> 'k lexer" where
  "digits_loop saw_sep l =
     (if is_digit (lookahead l) then digits_loop saw_sep (advance l)
      else if lookahead l = c_underscore then
        let l = advance l in
        if \<not> is_digit (lookahead l) then ((False, saw_sep), l) else digits_loop True (advance l)
      else ((True, saw_sep), l))"
  by pat_completeness auto
termination
proof (relation "measure (\<lambda>(_, l). remaining l)", goal_cases)
  case (2 s l)
  then have "lookahead l \<noteq> 0" by auto
  then show ?case by simp
qed auto

declare digits_loop.simps [simp del]

definition consume_digit_group :: "'k lexer \<Rightarrow> (bool \<times> bool) \<times> 'k lexer" where
  "consume_digit_group l =
     (if \<not> is_digit (lookahead l) then ((False, False), l) else digits_loop False (advance l))"

definition float_fraction :: "'k lexer \<Rightarrow> (bool \<times> bool) \<times> 'k lexer" where
  "float_fraction l =
     (if lookahead l = c_dot then
        let ((b, _), l) = consume_digit_group (advance l) in ((b, True), l)
      else ((True, False), l))"

definition float_exponent :: "'k lexer \<Rightarrow> (bool \<times> bool) \<times> 'k lexer" where
  "float_exponent l =
     (if lookahead l = c_e \<or> lookahead l = c_upper_E then
        let l = advance l;
            l = (if lookahead l = c_plus \<or> lookahead l = c_minus then advance l else l);
            ((b, _), l) = consume_digit_group l in ((b, True), l)
      else ((True, False), l))"

text \<open>The suffixes d, D, f, F.\<close>

definition float_suffix :: "'k lexer \<Rightarrow> bool \<times> 'k lexer" where
  "float_suffix l = (if lookahead l \<in> {100, 68, 102, 70} then (True, advance l) else (False, l))"

definition scan_float_with_separator :: "scala_token lexer \<Rightarrow> bool \<times> scala_token lexer" where
  "scan_float_with_separator l =
     (let ((b, int_sep), l) = consume_digit_group l in
      if \<not> b then (False, l)
      else if \<not> int_sep then (False, l)
      else
        let ((b, fraction), l) = float_fraction l in
        if \<not> b then (False, l)
        else
          let ((b, exponent), l) = float_exponent l in
          if \<not> b then (False, l)
          else
            let (suffix, l) = float_suffix l in
            if \<not> (fraction \<or> exponent \<or> suffix) then (False, l)
            else (True, set_result FLOATING_POINT_WITH_SEPARATORS (mark_end l)))"

lemma pk_digits_loop: "peeks l0 l \<Longrightarrow> pk l0 (digits_loop s l)"
proof (induction s l rule: digits_loop.induct)
  case (1 s l)
  then show ?case by (subst digits_loop.simps) (auto simp: Let_def intro!: peek_rules)
qed

lemma pk_consume_digit_group [peek_rules]: "peeks l0 l \<Longrightarrow> pk l0 (consume_digit_group l)"
  by (simp add: consume_digit_group_def pk_Pair pk_digits_loop)

lemma pk_float_parts [peek_rules]:
  "peeks l0 l \<Longrightarrow> pk l0 (float_fraction l)" "peeks l0 l \<Longrightarrow> pk l0 (float_exponent l)"
  "peeks l0 l \<Longrightarrow> pk l0 (float_suffix l)"
proof -
  assume l: "peeks l0 l"
  have g: "peeks l0 (snd (consume_digit_group m))" if "peeks l0 m" for m
    using pk_consume_digit_group [OF that] by (simp add: pk_def)
  show "pk l0 (float_fraction l)" "pk l0 (float_exponent l)" "pk l0 (float_suffix l)"
    using l g by (auto simp: float_fraction_def float_exponent_def float_suffix_def pk_def split_beta Let_def)
qed

section \<open>The cursor moves forward\<close>

lemmas readers_runs [runs_rules] =
  pk_consume_on_line [OF peeks_refl, THEN fwd_pk]
  pk_advance_past_blanks [OF peeks_refl, THEN fwd_pk]
  pk_scan_letters [OF peeks_refl, THEN fwd_pk]
  pk_scan_word [OF peeks_refl, THEN fwd_pk]
  pk_read_word [OF peeks_refl, THEN fwd_pk]
  pk_word_readers [OF peeks_refl, THEN fwd_pk]
  pk_modifier_readers [OF peeks_refl, THEN fwd_pk]
  pk_rest_of_line_is_blank_or_comments [OF peeks_refl, THEN fwd_pk]
  pk_has_operand [OF peeks_refl, THEN fwd_pk]
  pk_is_leading_infix_continuation [OF peeks_refl, THEN fwd_pk]
  pk_scan_rest_of_line [OF peeks_refl, THEN fwd_pk]
  pk_consume_digit_group [OF peeks_refl, THEN fwd_pk]
  pk_float_parts [OF peeks_refl, THEN fwd_pk]
  peeks_consume_block_comment_body [OF peeks_refl, THEN runs_peeks]
  peeks_skip_blanks_and_block_comments [OF peeks_refl, THEN runs_peeks]
  peeks_to_newline [OF peeks_refl, THEN runs_peeks]

lemma fwd_layout_comment_loop [runs_rules]: "runs l0 l \<Longrightarrow> fwd l0 (layout_comment_loop l)"
proof (induction l rule: layout_comment_loop.induct)
  case (1 l)
  then show ?case
    by (subst layout_comment_loop.simps) (auto simp: Let_def finish_block_comment_def intro!: runs_rules)
qed

lemma fwd_check_comment_at_layout [runs_rules]: "runs l0 l \<Longrightarrow> fwd l0 (check_comment_at_layout l valid)"
  unfolding check_comment_at_layout_def by (intro runs_rules)

lemma fwd_scan_float_with_separator [runs_rules]: "runs l0 l \<Longrightarrow> fwd l0 (scan_float_with_separator l)"
  unfolding scan_float_with_separator_def by (intro runs_rules) (auto intro!: runs_rules)

lemma fwd_string_loop: "runs l0 l \<Longrightarrow> fwd l0 (string_loop m k n l)"
proof (induction m k n l rule: string_loop.induct)
  case (1 m k n l)
  then show ?case by (subst string_loop.simps) (auto simp: Let_def intro!: runs_rules)
qed

lemma fwd_scala_scan_string_content [runs_rules]:
  "runs l0 l \<Longrightarrow> fwd l0 (scala_scan_string_content l m k)"
  unfolding scala_scan_string_content_def by (rule fwd_string_loop)

section \<open>Block comments\<close>

text \<open>The end of a comment whose text is \<open>cs\<close>: behind the matching \<open>*/\<close>, or the end of the input.\<close>

definition comment_length :: "nat \<Rightarrow> code_point list \<Rightarrow> nat" where
  "comment_length d cs = (case comment_close (\<lambda>c. False) d cs of Some n \<Rightarrow> n | None \<Rightarrow> length cs)"

lemma comment_length_simps:
  "comment_length d [] = 0"
  "c \<noteq> c_star \<Longrightarrow> c \<noteq> c_slash \<Longrightarrow> comment_length d (c # cs) = Suc (comment_length d cs)"
  "hd0 cs \<noteq> c_slash \<Longrightarrow> comment_length d (c_star # cs) = Suc (comment_length d cs)"
  "hd0 cs \<noteq> c_star \<Longrightarrow> comment_length d (c_slash # cs) = Suc (comment_length d cs)"
  "comment_length d (c_slash # c_star # cs) = Suc (Suc (comment_length (Suc d) cs))"
  "comment_length d (c_star # c_slash # cs) = (if d \<le> 1 then 2 else Suc (Suc (comment_length (d - 1) cs)))"
proof -
  note plain = comment_close_plain [where stop = "\<lambda>c. False"]
  show "hd0 cs \<noteq> c_slash \<Longrightarrow> comment_length d (c_star # cs) = Suc (comment_length d cs)"
    using plain(2) [of cs d] by (cases cs) (auto simp: comment_length_def split: option.split)
  show "hd0 cs \<noteq> c_star \<Longrightarrow> comment_length d (c_slash # cs) = Suc (comment_length d cs)"
    using plain(3) [of cs d] by (cases cs) (auto simp: comment_length_def split: option.split)
qed (auto simp: comment_length_def comment_close_plain(1) split: option.split)

lemma comment_body_text:
  "0 < d \<Longrightarrow> snd (comment_body False d l) = advance_n False (comment_length d (text_ahead l)) l"
proof (induction "remaining l" arbitrary: l d rule: less_induct)
  case less
  note step = comment_body.simps [of False d l]
  show ?case
  proof (cases "ahead l")
    case Nil
    then show ?thesis using less(2) by (simp add: step eof_def comment_length_simps)
  next
    case (Cons x xs)
    define m where "m = advance l"
    have ne: "\<not> eof l" using Cons by (simp add: eof_def)
    then have t: "text_ahead l = lookahead l # text_ahead m" unfolding m_def by (rule text_ahead_look)
    have rm: "remaining m < remaining l" using Cons by (simp add: m_def)
    have one: "snd (comment_body False d m) = advance_n False (comment_length d (text_ahead m)) m"
      using less(1) [OF rm less(2)] .
    have two: "lookahead m = c \<Longrightarrow> c \<noteq> 0 \<Longrightarrow> text_ahead m = c # text_ahead (advance m)" for c
      using text_ahead_nonzero [of m False] by simp
    have adv: "advance_n False (Suc n) l = advance_n False n m" for n by (simp add: advance_n_Suc m_def)
    have r2: "remaining (advance m) < remaining l" using rm by simp
    consider (opens) "lookahead l = c_slash" "lookahead m = c_star"
      | (slash) "lookahead l = c_slash" "lookahead m \<noteq> c_star"
      | (closes) "lookahead l = c_star" "lookahead m = c_slash"
      | (star) "lookahead l = c_star" "lookahead m \<noteq> c_slash"
      | (other) "lookahead l \<noteq> c_star" "lookahead l \<noteq> c_slash" by blast
    then show ?thesis
    proof cases
      case opens
      then have "comment_length d (text_ahead l) = Suc (Suc (comment_length (Suc d) (text_ahead (advance m))))"
        unfolding t using two by (simp add: comment_length_simps)
      then show ?thesis
        using opens ne less(2) less(1) [OF r2, of "Suc d"] by (simp add: step m_def [symmetric] adv advance_n_Suc)
    next
      case slash
      then have "comment_length d (text_ahead l) = Suc (comment_length d (text_ahead m))"
        unfolding t by (simp add: comment_length_simps lookahead_hd0)
      then show ?thesis using slash ne less(2) one by (simp add: step m_def [symmetric] adv)
    next
      case closes
      then have "comment_length d (text_ahead l) =
          (if d \<le> 1 then 2 else Suc (Suc (comment_length (d - 1) (text_ahead (advance m)))))"
        unfolding t using two by (simp add: comment_length_simps)
      moreover have "snd (comment_body False (d - 1) (advance m)) =
          (if d \<le> 1 then advance m else advance_n False (comment_length (d - 1) (text_ahead (advance m))) (advance m))"
        using less(1) [OF r2, of "d - 1"] less(2) by (simp add: comment_body.simps [of False 0])
      ultimately show ?thesis
        using closes ne less(2) by (simp add: step m_def [symmetric] adv advance_n_Suc numeral_2_eq_2)
    next
      case star
      then have "comment_length d (text_ahead l) = Suc (comment_length d (text_ahead m))"
        unfolding t by (simp add: comment_length_simps lookahead_hd0)
      then show ?thesis using star ne less(2) one by (simp add: step m_def [symmetric] adv)
    next
      case other
      then have "comment_length d (text_ahead l) = Suc (comment_length d (text_ahead m))"
        unfolding t by (simp add: comment_length_simps)
      then show ?thesis using other ne less(2) one by (simp add: step m_def [symmetric] adv)
    qed
  qed
qed

lemma consume_block_comment_body_text:
  "consume_block_comment_body l = advance_n False (comment_length 1 (text_ahead l)) l"
  by (simp add: consume_block_comment_body_def comment_body_text)

end
