(* ===== verification/Scala.thy ===== *)
theory Scala
  imports Scala_Text
begin

text \<open>
  The scan of \<^verbatim>\<open>codegraph-kernel/grammars/scala/scanner.c\<close>, \<open>scan_impl\<close> and the function around it. The
  C function is one sequence of attempts; each is a definition here, in the order of the source, and a
  definition ends with the call of the one that follows it. \<open>nc\<close> is \<open>newline_count\<close>, \<open>ind\<close> is
  \<open>indentation_size\<close>, \<open>prev\<close> the innermost entry of the stack of indentations, -1 when it is empty.
\<close>

type_synonym scala_result = "bool \<times> scala_scanner \<times> scala_token lexer"

section \<open>Helpers of the scan\<close>

definition prev_entry :: "scala_scanner \<Rightarrow> int" where
  "prev_entry s = (if indents s \<noteq> [] then last (indents s) else -1)"

definition pop_indent :: "scala_scanner \<Rightarrow> scala_scanner" where
  "pop_indent s = s\<lparr>indents := butlast (indents s)\<rparr>"

definition push_indent :: "int \<Rightarrow> scala_scanner \<Rightarrow> scala_scanner" where
  "push_indent entry s = s\<lparr>indents := indents s @ [entry]\<rparr>"

text \<open>The loop over white space: line feeds, and the characters behind the last one.\<close>

function count_spaces :: "int \<Rightarrow> int \<Rightarrow> 'k lexer \<Rightarrow> (int \<times> int) \<times> 'k lexer" where
  "count_spaces nc ind l =
     (if is_space (lookahead l) then
        if lookahead l = c_nl then count_spaces (to_int16 (nc + 1)) 0 (skip l)
        else count_spaces nc (to_int16 (ind + 1)) (skip l)
      else ((nc, ind), l))"
  by pat_completeness auto
termination
proof (relation "measure (\<lambda>(_, _, l). remaining l)", goal_cases)
  case (3 nc ind l)
  then have "lookahead l \<noteq> 0" by auto
  then show ?case by simp
qed auto

declare count_spaces.simps [simp del]

definition code_char :: "'k lexer \<Rightarrow> int" where
  "code_char l = to_int16 (lookahead l AND 0x7FFF)"

definition code_column :: "'k lexer \<Rightarrow> int" where
  "code_column l = to_int16 (int (get_column l))"

definition at_line_end :: "'k lexer \<Rightarrow> bool" where
  "at_line_end l \<longleftrightarrow> lookahead l = c_nl \<or> lookahead l = c_cr \<or> eof l"

section \<open>Using directives and outdents that are due already\<close>

definition using_directive :: "scala_token lexer \<Rightarrow> bool \<times> scala_token lexer" where
  "using_directive l =
     (let l = mark_end (advance l);
          (_, l) = advance_past_blanks l;
          (b, l) = scan_word l ''using'' in
      if \<not> b then (False, l) else (True, set_result USING_DIRECTIVE_START l))"

function comma_loop :: "'k lexer \<Rightarrow> bool \<times> 'k lexer" where
  "comma_loop l0 =
     (let l = advance_while is_blank False l0 in
      if at_line_end l then (True, l)
      else if lookahead l \<noteq> c_slash then (False, l)
      else
        let l = advance l in
        if lookahead l = c_slash then (True, l)
        else if lookahead l \<noteq> c_star then (False, l)
        else comma_loop (consume_block_comment_body (advance l)))"
  by pat_completeness auto
termination
proof (relation "measure remaining", goal_cases)
  case (2 l0 l l')
  then have "remaining l' < remaining l0" using advance_after_run [of is_blank False l0 False] by simp
  moreover have "remaining (consume_block_comment_body (advance l')) \<le> remaining l'"
    by (rule runs_remaining) (intro runs_rules)
  ultimately show ?case by simp
qed simp

declare comma_loop.simps [simp del]

definition comma_outdent ::
  "scala_scanner \<Rightarrow> scala_token lexer \<Rightarrow> (scala_token \<Rightarrow> bool) \<Rightarrow> scala_result" where
  "comma_outdent s l valid =
     (let l = mark_end l;
          (closes, l) =
            (if valid ERROR_SENTINEL then (True, l)
             else
               let (ends_line, l) = comma_loop (advance l) in
               if ends_line then (True, l)
               else let (line, l) = scan_rest_of_line l in (closes_bracket line, l)) in
      if \<not> closes then (False, s, l)
      else (True, pop_indent s, set_result COMMA_OUTDENT l))"

definition in_case_cascade ::
  "scala_scanner \<Rightarrow> scala_token lexer \<Rightarrow> (scala_token \<Rightarrow> bool) \<Rightarrow> bool" where
  "in_case_cascade s l valid \<longleftrightarrow>
     valid OUTDENT \<and> \<not> valid ERROR_SENTINEL \<and> last_indentation_size s \<noteq> -1 \<and>
     at_case_region_width (prev_entry s) (last_indentation_size s) \<and>
     (if eof l then last_column s = -1 else code_column l = last_column s)"

definition case_cascade ::
  "scala_scanner \<Rightarrow> scala_token lexer \<Rightarrow> scala_result" where
  "case_cascade s l =
     (let (b, l) = is_case_clause_intro (mark_end l) in
      if b then (False, s, l) else (True, pop_indent s, set_result OUTDENT l))"

definition outdent_due ::
  "scala_scanner \<Rightarrow> scala_token lexer \<Rightarrow> (scala_token \<Rightarrow> bool) \<Rightarrow> bool" where
  "outdent_due s l valid \<longleftrightarrow>
     valid OUTDENT \<and>
     (lookahead l = 0 \<or>
      prev_entry s \<noteq> -1 \<and> close_bracket (lookahead l) \<or>
      last_indentation_size s \<noteq> -1 \<and> prev_entry s \<noteq> -1 \<and>
      last_indentation_size s < indent_width (prev_entry s))"

section \<open>Indents\<close>

definition block_opening_stoppers :: "string list" where
  "block_opening_stoppers = [''else'', ''catch'', ''finally'', ''yield'', ''do'']"

definition gated_stoppers :: "string list" where
  "gated_stoppers = [''else'', ''catch'', ''finally'', ''yield'']"

definition push_block :: "int \<Rightarrow> scala_scanner \<Rightarrow> scala_token lexer \<Rightarrow> scala_result" where
  "push_block entry s l = (True, push_indent entry s, set_result INDENT l)"

text \<open>A block of width \<open>width\<close> opens here, unless the line starts with a word or operator that belongs
to what is before it.\<close>

definition open_block ::
  "scala_scanner \<Rightarrow> scala_token lexer \<Rightarrow> (scala_token \<Rightarrow> bool) \<Rightarrow> int \<Rightarrow> scala_result" where
  "open_block s l valid width =
     (if lookahead l \<in> set (codes ''ecfyd'') then
        let (word, l) = scala_read_word l 8 in
        if word_in word block_opening_stoppers then
          if valid CONTROL_TAIL_GATE \<and> word_in word gated_stoppers
          then (True, s, set_result CONTROL_TAIL_GATE l)
          else (False, s, l)
        else if indents s = [] \<and> word = Some (codes ''case'') then
          let (d, l) = is_case_definition_word l in
          if d then push_block width s l
          else
            let (line, l) = scan_rest_of_line l in
            push_block (if has_case_arrow line then to_int16 (width OR case_indent_flag) else width) s l
        else push_block width s l
      else if lookahead l = c_bar \<or> lookahead l = c_amp then
        if after_colon_eol s = 0 then
          let (b, l) = is_leading_infix_continuation l in
          if b then (False, s, l) else push_block width s l
        else push_block width s l
      else push_block width s l)"

definition indent_geometry :: "scala_scanner \<Rightarrow> int \<Rightarrow> bool" where
  "indent_geometry s ind \<longleftrightarrow>
     ind > indent_width (prev_entry s) \<or>
     after_colon_eol s \<noteq> 0 \<and> ind = indent_width (prev_entry s)"

definition indent_possible ::
  "scala_scanner \<Rightarrow> scala_token lexer \<Rightarrow> (scala_token \<Rightarrow> bool) \<Rightarrow> int \<Rightarrow> int \<Rightarrow> bool" where
  "indent_possible s l valid nc ind \<longleftrightarrow>
     valid INDENT \<and> nc > 0 \<and> \<not> close_bracket (lookahead l) \<and>
     (indent_geometry s ind \<or> ind = indent_width (prev_entry s) \<and> lookahead l = c_slash)"

definition scala_indent ::
  "scala_scanner \<Rightarrow> scala_token lexer \<Rightarrow> (scala_token \<Rightarrow> bool) \<Rightarrow> int \<Rightarrow> scala_result" where
  "scala_indent s l valid ind =
     (let (comment, l) = check_comment_at_layout (mark_end l) valid in
      case comment of
        COMMENT_LEXED \<Rightarrow> (True, s, l)
      | COMMENT_ABORT \<Rightarrow> (False, s, l)
      | COMMENT_SAME_LINE_CODE \<Rightarrow>
          if code_column l > indent_width (prev_entry s) then open_block s l valid (code_column l)
          else let (b, l) = finish_block_comment l in (b, s, l)
      | COMMENT_NONE \<Rightarrow>
          if \<not> indent_geometry s ind then (False, s, l) else open_block s l valid ind)"

section \<open>Outdents\<close>

definition case_region_close :: "scala_scanner \<Rightarrow> int \<Rightarrow> int \<Rightarrow> bool" where
  "case_region_close s nc ind \<longleftrightarrow> nc > 0 \<and> at_case_region_width (prev_entry s) ind"

definition outdent_possible ::
  "scala_scanner \<Rightarrow> scala_token lexer \<Rightarrow> (scala_token \<Rightarrow> bool) \<Rightarrow> int \<Rightarrow> int \<Rightarrow> bool" where
  "outdent_possible s l valid nc ind \<longleftrightarrow>
     valid OUTDENT \<and>
     (lookahead l = 0 \<or>
      nc > 0 \<and> prev_entry s \<noteq> -1 \<and> ind < indent_width (prev_entry s) \<or>
      case_region_close s nc ind)"

definition close_block ::
  "scala_scanner \<Rightarrow> scala_token lexer \<Rightarrow> int \<Rightarrow> int \<Rightarrow> bool \<Rightarrow> scala_result" where
  "close_block s l nc width case_close =
     (let s = s\<lparr>last_indentation_size := width, last_newline_count := nc,
               last_column := (if eof l then -1 else code_column l),
               last_char := (if eof l then 0 else code_char l)\<rparr>;
          (continues, l) =
            (if lookahead l \<noteq> 0 then
               let (b, l) = is_leading_infix_continuation l in
               if b then let (line, l) = scan_rest_of_line l in (\<not> ends_conditional line, l)
               else (False, l)
             else (False, l)) in
      if continues then (False, s, l)
      else
        let (b, l) = (if case_close then is_case_clause_intro l else (False, l)) in
        if b then (False, s, l) else (True, pop_indent s, set_result OUTDENT l))"

text \<open>A comment lexed instead of a layout token: the line feed is kept for the next scan.\<close>

definition keep_newline ::
  "int \<Rightarrow> scala_scanner \<Rightarrow> scala_token lexer \<Rightarrow> scala_scanner" where
  "keep_newline nc s l =
     s\<lparr>last_newline_count := nc, last_column := code_column l, last_char := code_char l\<rparr>"

definition scala_outdent ::
  "scala_scanner \<Rightarrow> scala_token lexer \<Rightarrow> (scala_token \<Rightarrow> bool) \<Rightarrow> int \<Rightarrow> int \<Rightarrow> scala_result" where
  "scala_outdent s l valid nc ind =
     (let (comment, l) = check_comment_at_layout (mark_end l) valid in
      case comment of
        COMMENT_LEXED \<Rightarrow> (True, s, l)
      | COMMENT_ABORT \<Rightarrow> (False, s, l)
      | COMMENT_SAME_LINE_CODE \<Rightarrow>
          if code_column l < indent_width (prev_entry s)
          then close_block s l nc (code_column l) (case_region_close s nc ind)
          else let (b, l') = finish_block_comment l in (b, keep_newline nc s l, l')
      | COMMENT_NONE \<Rightarrow> close_block s l nc ind (case_region_close s nc ind))"

section \<open>Automatic semicolons\<close>

text \<open>The saved line feeds are taken back when this scan stands where they were saved.\<close>

definition recovered_newlines :: "scala_scanner \<Rightarrow> scala_token lexer \<Rightarrow> int \<Rightarrow> int" where
  "recovered_newlines s l nc =
     (if last_newline_count s > 0 \<and>
         (eof l \<and> last_column s = -1 \<or>
          \<not> eof l \<and> nc = 0 \<and> code_char l = last_char s \<and>
          int (get_column l) = last_column s mod 2 ^ 32)
      then to_int16 (nc + last_newline_count s) else nc)"

definition end_keyword :: "scala_token lexer \<Rightarrow> bool \<times> scala_token lexer" where
  "end_keyword l =
     (let (b, l) = scan_word l ''end'' in
      if \<not> b then (False, l)
      else
        let (b, l) = name_follows_word l in
        if b then (True, set_result END_KEYWORD (mark_end l)) else (False, l))"

text \<open>Behind a closing brace: does anything but further closing brackets and comments follow?\<close>

function brace_loop :: "'k lexer \<Rightarrow> bool \<times> 'k lexer" where
  "brace_loop l0 =
     (let l = advance_while is_blank False l0 in
      if close_bracket (lookahead l) then brace_loop (advance l)
      else if lookahead l = c_slash then
        let l = advance l in
        if lookahead l = c_slash then (False, l)
        else if lookahead l = c_star then brace_loop (consume_block_comment_body (advance l))
        else (\<not> at_line_end l, l)
      else (\<not> at_line_end l, l))"
  by pat_completeness auto
termination
proof (relation "measure remaining", goal_cases)
  case (2 l0 l)
  then have "lookahead l \<noteq> 0" by (auto simp: close_bracket_def)
  then show ?case using 2 advance_after_run [of is_blank False l0 False] by simp
next
  case (3 l0 l l')
  then have "remaining l' < remaining l0" using advance_after_run [of is_blank False l0 False] by simp
  moreover have "remaining (consume_block_comment_body (advance l')) \<le> remaining l'"
    by (rule runs_remaining) (intro runs_rules)
  ultimately show ?case by simp
qed simp

declare brace_loop.simps [simp del]

text \<open>A keyword that continues the expression: the gate where it is valid, no semicolon otherwise.\<close>

definition gate_or_none ::
  "scala_token lexer \<Rightarrow> (scala_token \<Rightarrow> bool) \<Rightarrow> bool \<times> scala_token lexer" where
  "gate_or_none l valid =
     (if valid CONTROL_TAIL_GATE then (True, set_result CONTROL_TAIL_GATE l) else (False, l))"

text \<open>\<open>if (test && scan_word(lexer, word)) return false;\<close> before the final \<open>return true\<close>.\<close>

definition unless_word ::
  "bool \<Rightarrow> scala_token lexer \<Rightarrow> string \<Rightarrow> bool \<times> scala_token lexer" where
  "unless_word test l word =
     (if test then let (b, l) = scan_word l word in (\<not> b, l) else (True, l))"

definition semicolon_at_e ::
  "scala_token lexer \<Rightarrow> (scala_token \<Rightarrow> bool) \<Rightarrow> bool \<times> scala_token lexer" where
  "semicolon_at_e l valid =
     (if \<not> valid ELSE \<and> \<not> valid EXTENDS \<and> \<not> valid CONTROL_TAIL_GATE then (True, l)
      else
        let l = advance l;
            (b, l) = (if valid ELSE \<or> valid CONTROL_TAIL_GATE then scan_word l ''lse'' else (False, l)) in
        if b then gate_or_none l valid else unless_word (valid EXTENDS) l ''xtends'')"

definition semicolon_at_c ::
  "scala_token lexer \<Rightarrow> (scala_token \<Rightarrow> bool) \<Rightarrow> bool \<times> scala_token lexer" where
  "semicolon_at_c l valid =
     (let (word, l) = scala_read_word l 6 in
      if \<not> word_in word [''catch'', ''case''] then (True, l)
      else if (valid CATCH \<or> valid CONTROL_TAIL_GATE) \<and> word_in word [''catch''] then gate_or_none l valid
      else if word_in word [''case''] then
        let (d, l) = is_case_definition_word l in
        if d then (True, l)
        else
          let (line, l) = scan_rest_of_line l in
          (\<not> (has_case_arrow line \<and> \<not> closes_bracket line), l)
      else (True, l))"

definition semicolon_keywords ::
  "scala_token lexer \<Rightarrow> (scala_token \<Rightarrow> bool) \<Rightarrow> bool \<times> scala_token lexer" where
  "semicolon_keywords l valid =
     (if lookahead l = c_e then semicolon_at_e l valid
      else if lookahead l = c_c then semicolon_at_c l valid
      else if lookahead l = c_f then
        if valid FINALLY \<or> valid CONTROL_TAIL_GATE then
          let (b, l) = scan_word l ''finally'' in
          if b then gate_or_none l valid else (True, l)
        else (True, l)
      else if lookahead l = c_w then unless_word (valid WITH) l ''with''
      else if lookahead l = c_d then unless_word (valid DERIVES) l ''derives''
      else if lookahead l = c_u then unless_word (valid USES) l ''uses''
      else if lookahead l = c_m then unless_word True l ''match''
      else (True, l))"

definition semicolon_tail ::
  "scala_token lexer \<Rightarrow> (scala_token \<Rightarrow> bool) \<Rightarrow> int \<Rightarrow> bool \<times> scala_token lexer" where
  "semicolon_tail l valid nc =
     (if is_op_char (lookahead l) \<or> lookahead l = c_backtick then
        if nc = 1 then let (b, l) = is_leading_infix_continuation l in (\<not> b, l)
        else (True, l)
      else semicolon_keywords l valid)"

definition scala_semicolon ::
  "scala_scanner \<Rightarrow> scala_token lexer \<Rightarrow> (scala_token \<Rightarrow> bool) \<Rightarrow> int \<Rightarrow> scala_result" where
  "scala_semicolon s l0 valid nc =
     (let l = set_result AUTOMATIC_SEMICOLON (mark_end l0) in
      if lookahead l \<in> {c_dot, c_rparen, c_rbrack, c_comma} then (False, s, l)
      else if lookahead l = c_rbrace then
        let (b, l) = brace_loop (advance l) in (b, s, l)
      else if lookahead l = c_slash then
        let l = advance l in
        if lookahead l = c_slash then (False, s, l)
        else if lookahead l = c_star \<and> valid BLOCK_COMMENT then
          let l = advance_while is_blank False (consume_block_comment_body (advance l));
              s = (if \<not> at_line_end l then keep_newline nc s l else s);
              (b, l) = finish_block_comment l in
          (b, s, l)
        else let (b, l) = semicolon_tail l valid nc in (b, s, l)
      else let (b, l) = semicolon_tail l valid nc in (b, s, l))"

section \<open>Soft modifiers and closing keywords\<close>

definition soft_modifiers :: "(code_point \<times> string \<times> scala_token) list" where
  "soft_modifiers =
     [(c_e, ''erased'', ERASED_MODIFIER), (c_o, ''open'', OPEN_MODIFIER), (c_o, ''opaque'', OPAQUE_MODIFIER),
      (c_i, ''infix'', INFIX_MODIFIER), (c_t, ''tracked'', TRACKED_MODIFIER),
      (c_t, ''transparent'', TRANSPARENT_MODIFIER), (c_i, ''inline'', INLINE_MODIFIER),
      (c_i, ''into'', INTO_MODIFIER), (c_u, ''update'', UPDATE_MODIFIER), (c_c, ''consume'', CONSUME_MODIFIER)]"

definition block_closing_words :: "string list" where
  "block_closing_words = [''else'', ''catch'', ''finally'']"

definition outdent_arm ::
  "scala_scanner \<Rightarrow> scala_token lexer \<Rightarrow> (scala_token \<Rightarrow> bool) \<Rightarrow> int \<Rightarrow> bool" where
  "outdent_arm s l valid nc \<longleftrightarrow>
     valid OUTDENT \<and> \<not> valid CONTROL_TAIL_GATE \<and> nc = 0 \<and> prev_entry s \<noteq> -1 \<and>
     (lookahead l = c_e \<and> \<not> valid ELSE \<or> lookahead l = c_c \<and> \<not> valid CATCH \<or>
      lookahead l = c_f \<and> \<not> valid FINALLY)"

definition modifier_arm :: "scala_token lexer \<Rightarrow> (scala_token \<Rightarrow> bool) \<Rightarrow> bool" where
  "modifier_arm l valid = list_ex (\<lambda>(first, _, symbol). lookahead l = first \<and> valid symbol) soft_modifiers"

definition scala_modifier ::
  "scala_scanner \<Rightarrow> scala_token lexer \<Rightarrow> (scala_token \<Rightarrow> bool) \<Rightarrow> bool \<Rightarrow> scala_result" where
  "scala_modifier s l valid outdent =
     (let (word, l) = scala_read_word (if outdent then mark_end l else l) 12 in
      if word = None \<or> word = Some [] then (False, s, l)
      else
        case List.find (\<lambda>(_, w, symbol). valid symbol \<and> word = Some (codes w)) soft_modifiers of
          Some (_, _, modifier) \<Rightarrow>
            let l = mark_end l;
                (follows, l) = (if modifier = INLINE_MODIFIER then inline_modifier_follows l
                                else modifier_name_follows l) in
            if follows then (True, s, set_result modifier l) else (False, s, l)
        | None \<Rightarrow>
            if outdent \<and> word_in word block_closing_words
            then (True, pop_indent s, set_result OUTDENT l)
            else (False, s, l))"

section \<open>Operators\<close>

text \<open>The loop over an operator that goes on behind a slash. It ends at an opening comment, and answers
whether the last character it took is a slash that opens none.\<close>

function slash_loop :: "bool \<Rightarrow> 'k lexer \<Rightarrow> bool \<times> 'k lexer" where
  "slash_loop ends_in_slash l =
     (if lookahead l = c_slash then
        let l = advance l in
        if lookahead l = c_slash \<or> lookahead l = c_star then (False, l) else slash_loop True l
      else if is_op_char (lookahead l) then slash_loop False (advance l)
      else (ends_in_slash, l))"
  by pat_completeness auto
termination
proof (relation "measure (\<lambda>(_, l). remaining l)", goal_cases)
  case (3 e l)
  then have "lookahead l \<noteq> 0" by auto
  then show ?case by simp
qed auto

declare slash_loop.simps [simp del]

definition operator_branch :: "scala_token lexer \<Rightarrow> (scala_token \<Rightarrow> bool) \<Rightarrow> bool" where
  "operator_branch l valid \<longleftrightarrow>
     \<not> valid ERROR_SENTINEL \<and> is_op_char (lookahead l) \<and>
     (valid COLON_EOL \<and> lookahead l = c_colon \<or> valid POSTFIX_OP \<or> valid POSTFIX_STAR \<or>
      valid (op_left_class (lookahead l)) \<or> valid OP_NAME)"

definition reserved_operators :: "string list" where
  "reserved_operators =
     [''='', ''#'', ''@'', ''=>'', ''<-'', ''<:'', ''>:'', ''<%'', ''?=>'', ''=>>'']"

definition definition_words :: "string list" where
  "definition_words =
     [''abstract'', ''class'', ''def'', ''enum'', ''export'', ''final'', ''given'', ''import'', ''implicit'',
      ''lazy'', ''object'', ''override'', ''package'', ''private'', ''protected'', ''sealed'', ''trait'',
      ''type'', ''val'', ''var'']"

text \<open>An operator that stands in postfix position: \<open>sym\<close> is its token. The cursor is behind it.\<close>

definition scala_postfix ::
  "scala_token lexer \<Rightarrow> (scala_token \<Rightarrow> bool) \<Rightarrow> code_point list \<Rightarrow> bool \<times> scala_token lexer" where
  "scala_postfix l valid op =
     (let sym = (if op = [c_star] then POSTFIX_STAR else POSTFIX_OP) in
      if \<not> valid sym then (False, l)
      else if hd0 op \<in> {c_eq, c_lt, c_gt, c_hash, c_at, c_quest} \<and> op \<in> set (List.map codes reserved_operators)
      then (False, l)
      else
        let (b, l) = rest_of_line_is_blank_or_comments l in
        if \<not> b then
          if is_close_or_separator (lookahead l) then (True, set_result sym l) else (False, l)
        else
          let (b, l) = has_operand l in
          if \<not> b then (True, set_result sym l)
          else if lookahead l = c_dot \<or> lookahead l = c_eq then (False, l)
          else if lookahead l = c_at then (True, set_result sym l)
          else if 97 \<le> lookahead l \<and> lookahead l \<le> 122 then
            let (word, l) = scala_read_word l 10 in
            if word_in word definition_words then (True, set_result sym l) else (False, l)
          else (False, l))"

definition scala_operator ::
  "scala_token lexer \<Rightarrow> (scala_token \<Rightarrow> bool) \<Rightarrow> bool \<times> scala_token lexer" where
  "scala_operator l0 valid =
     (let op = takeWhile is_op_char (text_ahead l0);
          op_class = op_left_class (hd0 op);
          l = mark_end (advance_while is_op_char False l0) in
      if op = [c_colon] \<and> lookahead l \<noteq> c_slash then
        if valid COLON_EOL then
          let (b, l) = rest_of_line_is_blank_or_comments l in
          if b then (True, set_result COLON_EOL l) else (False, l)
        else (False, l)
      else if lookahead l = c_slash \<and> take 2 op \<noteq> [c_hash, c_bang] \<and> (valid op_class \<or> valid OP_NAME) then
        let (ends_in_slash, l) = slash_loop False l in
        if ends_in_slash \<and> lookahead l < 0x80
        then (True, set_result (if valid op_class then op_class else OP_NAME) (mark_end l))
        else (False, l)
      else scala_postfix l valid op)"

section \<open>Strings\<close>

definition comment_is_text :: "(scala_token \<Rightarrow> bool) \<Rightarrow> bool" where
  "comment_is_text valid \<longleftrightarrow>
     valid SUPPRESS_BLOCK_COMMENT \<or> valid SIMPLE_STRING_MIDDLE \<or> valid INTERPOLATED_STRING_MIDDLE \<or>
     valid RAW_STRING_MIDDLE \<or> valid RAW_STRING_MULTILINE_MIDDLE \<or>
     valid INTERPOLATED_MULTILINE_STRING_MIDDLE \<or> valid MULTILINE_STRING_END"

definition string_start :: "scala_token lexer \<Rightarrow> bool \<times> scala_token lexer" where
  "string_start l =
     (let l = mark_end (advance l) in
      if lookahead l = c_dquote then
        let l = advance l in
        if lookahead l = c_dquote then (True, mark_end (set_result SIMPLE_MULTILINE_STRING_START (advance l)))
        else (True, set_result SIMPLE_STRING_START l)
      else (True, set_result SIMPLE_STRING_START l))"

text \<open>The attempt at \<open>raw"\<close>; when it fails the cursor stays where it stopped.\<close>

definition raw_start :: "scala_token lexer \<Rightarrow> bool \<times> scala_token lexer" where
  "raw_start l =
     (let (b, l) = scan_letters (codes ''raw'') l in
      if b \<and> lookahead l = c_dquote then (True, set_result RAW_STRING_START (mark_end l)) else (False, l))"

text \<open>The text of a string, where one of its tokens is valid.\<close>

definition string_content ::
  "scala_token lexer \<Rightarrow> (scala_token \<Rightarrow> bool) \<Rightarrow> (bool \<times> scala_token lexer) option" where
  "string_content l valid =
     (if valid SIMPLE_STRING_MIDDLE then Some (scala_scan_string_content l False STRING_MODE_SIMPLE)
      else if valid INTERPOLATED_STRING_MIDDLE then
        Some (scala_scan_string_content l False STRING_MODE_INTERPOLATED)
      else if valid RAW_STRING_MIDDLE then Some (scala_scan_string_content l False STRING_MODE_RAW)
      else if valid RAW_STRING_MULTILINE_MIDDLE then Some (scala_scan_string_content l True STRING_MODE_RAW)
      else if valid INTERPOLATED_MULTILINE_STRING_MIDDLE then
        Some (scala_scan_string_content l True STRING_MODE_INTERPOLATED)
      else if valid MULTILINE_STRING_END then Some (scala_scan_string_content l True STRING_MODE_SIMPLE)
      else None)"

section \<open>Case regions and the gate before a control tail\<close>

definition tail_words :: "string list" where
  "tail_words = [''catch'', ''else'', ''finally'', ''then'', ''yield'']"

definition control_tail ::
  "scala_token lexer \<Rightarrow> (scala_token \<Rightarrow> bool) \<Rightarrow> bool \<times> scala_token lexer" where
  "control_tail l valid =
     (if valid CONTROL_TAIL_GATE \<and> \<not> valid ERROR_SENTINEL \<and> lookahead l \<in> set (codes ''cefty'') then
        let (word, l) = scala_read_word (mark_end l) 8 in
        if word_in word tail_words then (True, set_result CONTROL_TAIL_GATE l) else (False, l)
      else (False, l))"

text \<open>A case clause at the width of the enclosing block opens a region of its own, which is flagged.\<close>

definition same_width_case ::
  "scala_scanner \<Rightarrow> scala_token lexer \<Rightarrow> (scala_token \<Rightarrow> bool) \<Rightarrow> int \<Rightarrow> scala_result" where
  "same_width_case s l valid ind =
     (let (b, l) = is_case_clause_intro (mark_end l) in
      if b then push_block (to_int16 (ind OR case_indent_flag)) s l
      else if valid CONTROL_TAIL_GATE then
        let (b, l) = scan_word l ''tch'' in
        if b then (True, s, set_result CONTROL_TAIL_GATE l) else (False, s, l)
      else (False, s, l))"

definition scala_case_or_tail ::
  "scala_scanner \<Rightarrow> scala_token lexer \<Rightarrow> (scala_token \<Rightarrow> bool) \<Rightarrow> int \<Rightarrow> int \<Rightarrow> scala_result" where
  "scala_case_or_tail s l valid nc ind =
     (if valid INDENT \<and> \<not> valid ERROR_SENTINEL \<and> nc > 0 \<and> lookahead l = c_c \<and> prev_entry s \<noteq> -1 \<and>
         ind = indent_width (prev_entry s)
      then same_width_case s l valid ind
      else let (b, l) = control_tail l valid in (b, s, l))"

section \<open>The scan\<close>

text \<open>What follows the layout tokens and the modifiers, from the second loop over white space on.\<close>

function count_newlines :: "int \<Rightarrow> 'k lexer \<Rightarrow> int \<times> 'k lexer" where
  "count_newlines nc l =
     (if is_space (lookahead l) then
        count_newlines (if lookahead l = c_nl then to_int16 (nc + 1) else nc) (skip l)
      else (nc, l))"
  by pat_completeness auto
termination
proof (relation "measure (\<lambda>(_, l). remaining l)", goal_cases)
  case (2 nc l)
  then have "lookahead l \<noteq> 0" by auto
  then show ?case by simp
qed auto

declare count_newlines.simps [simp del]

definition scala_strings ::
  "scala_scanner \<Rightarrow> scala_token lexer \<Rightarrow> (scala_token \<Rightarrow> bool) \<Rightarrow> int \<Rightarrow> int \<Rightarrow> scala_result" where
  "scala_strings s l valid nc ind =
     (if valid SIMPLE_STRING_START \<and> lookahead l = c_dquote then
        let (b, l) = string_start l in (b, s, l)
      else
        let (b, l) = (if valid RAW_STRING_START \<and> lookahead l = c_r then raw_start l else (False, l)) in
        if b then (True, s, l)
        else
          case string_content l valid of
            Some (b, l) \<Rightarrow> (b, s, l)
          | None \<Rightarrow> scala_case_or_tail s l valid nc ind)"

definition scala_tokens ::
  "scala_scanner \<Rightarrow> scala_token lexer \<Rightarrow> (scala_token \<Rightarrow> bool) \<Rightarrow> int \<Rightarrow> int \<Rightarrow> scala_result" where
  "scala_tokens s l0 valid nc0 ind =
     (let (nc, l) = count_newlines nc0 l0 in
      if valid XML_TAG_START \<and> \<not> valid ERROR_SENTINEL \<and> lookahead l = c_lt then
        let l = advance l in
        if is_xml_name_start (lookahead l) then (True, s, set_result XML_TAG_START (mark_end l))
        else (False, s, l)
      else if valid FLOATING_POINT_WITH_SEPARATORS \<and> \<not> valid ERROR_SENTINEL \<and> is_digit (lookahead l) then
        let (b, l) = scan_float_with_separator l in (b, s, l)
      else if operator_branch l valid then
        let (b, l) = scala_operator l valid in (b, s, l)
      else if valid BLOCK_COMMENT \<and> lookahead l = c_slash \<and> (valid ERROR_SENTINEL \<or> \<not> comment_is_text valid) then
        let l = advance l in
        if lookahead l = c_star then let (b, l) = lex_block_comment (advance l) in (b, s, l)
        else (False, s, l)
      else scala_strings s l valid nc ind)"

text \<open>What follows the outdents: the automatic semicolon and everything behind it.\<close>

definition scala_statement ::
  "scala_scanner \<Rightarrow> scala_token lexer \<Rightarrow> (scala_token \<Rightarrow> bool) \<Rightarrow> int \<Rightarrow> int \<Rightarrow> scala_result" where
  "scala_statement s0 l valid nc0 ind =
     (let nc = recovered_newlines s0 l nc0;
          s = s0\<lparr>last_newline_count := 0\<rparr> in
      if valid END_KEYWORD \<and> \<not> valid ERROR_SENTINEL \<and> lookahead l = c_e then
        let (b, l) = end_keyword l in (b, s, l)
      else if valid AUTOMATIC_SEMICOLON \<and> nc > 0 then scala_semicolon s l valid nc
      else if \<not> valid ERROR_SENTINEL \<and> (outdent_arm s l valid nc \<or> modifier_arm l valid) then
        scala_modifier s l valid (outdent_arm s l valid nc)
      else scala_tokens s l valid nc ind)"

definition scala_layout ::
  "scala_scanner \<Rightarrow> scala_token lexer \<Rightarrow> (scala_token \<Rightarrow> bool) \<Rightarrow> int \<Rightarrow> int \<Rightarrow> scala_result" where
  "scala_layout s0 l valid nc ind =
     (if valid COMMA_OUTDENT \<and> lookahead l = c_comma \<and> prev_entry s0 \<noteq> -1 then comma_outdent s0 l valid
      else if in_case_cascade s0 l valid then case_cascade s0 l
      else if outdent_due s0 l valid then (True, pop_indent s0, set_result OUTDENT l)
      else
        let s = s0\<lparr>last_indentation_size := -1\<rparr> in
        if indent_possible s l valid nc ind then scala_indent s l valid ind
        else if outdent_possible s l valid nc ind then scala_outdent s l valid nc ind
        else scala_statement s l valid nc ind)"

definition scala_scan_impl ::
  "scala_scanner \<Rightarrow> scala_token lexer \<Rightarrow> (scala_token \<Rightarrow> bool) \<Rightarrow> scala_result" where
  "scala_scan_impl s l valid =
     (if valid USING_DIRECTIVE_START \<and> \<not> valid ERROR_SENTINEL \<and> lookahead l = c_gt then
        let (b, l) = using_directive l in (b, s, l)
      else
        let ((nc, ind), l) = count_spaces 0 0 l in
        scala_layout s l valid nc ind)"

definition scala_scan ::
  "scala_scanner \<Rightarrow> scala_token lexer \<Rightarrow> (scala_token \<Rightarrow> bool) \<Rightarrow> scala_result" where
  "scala_scan s l valid =
     (let (res, s, l) = scala_scan_impl s l valid in
      (res,
       if res then
         if result_symbol l = Some COLON_EOL then s\<lparr>after_colon_eol := 1\<rparr>
         else if result_symbol l \<noteq> Some BLOCK_COMMENT then s\<lparr>after_colon_eol := 0\<rparr>
         else s
       else s,
       l))"

section \<open>The cursor moves forward\<close>

lemma fwd_count_spaces [runs_rules]: "runs l0 l \<Longrightarrow> fwd l0 (count_spaces nc ind l)"
proof (induction nc ind l rule: count_spaces.induct)
  case (1 nc ind l)
  then show ?case by (subst count_spaces.simps) (auto intro!: runs_rules)
qed

lemma fwd_count_newlines [runs_rules]: "runs l0 l \<Longrightarrow> fwd l0 (count_newlines nc l)"
proof (induction nc l rule: count_newlines.induct)
  case (1 nc l)
  then show ?case by (subst count_newlines.simps) (auto intro!: runs_rules)
qed

lemma pk_comma_loop [peek_rules]: "peeks l0 l \<Longrightarrow> pk l0 (comma_loop l)"
proof (induction l rule: comma_loop.induct)
  case (1 l)
  then show ?case by (subst comma_loop.simps) (auto simp: Let_def intro!: peek_rules)
qed

lemma pk_brace_loop [peek_rules]: "peeks l0 l \<Longrightarrow> pk l0 (brace_loop l)"
proof (induction l rule: brace_loop.induct)
  case (1 l)
  then show ?case by (subst brace_loop.simps) (auto simp: Let_def intro!: peek_rules)
qed

lemma pk_slash_loop [peek_rules]: "peeks l0 l \<Longrightarrow> pk l0 (slash_loop e l)"
proof (induction e l rule: slash_loop.induct)
  case (1 e l)
  then show ?case by (subst slash_loop.simps) (auto simp: Let_def intro!: peek_rules)
qed

lemmas loops_run [runs_rules] =
  pk_comma_loop [OF peeks_refl, THEN fwd_pk] pk_brace_loop [OF peeks_refl, THEN fwd_pk]
  pk_slash_loop [OF peeks_refl, THEN fwd_pk]

lemma fwd_finish_block_comment [runs_rules]: "runs l0 l \<Longrightarrow> fwd l0 (finish_block_comment l)"
  unfolding finish_block_comment_def by (intro runs_rules)

lemma fwd_lex_block_comment [runs_rules]: "runs l0 l \<Longrightarrow> fwd l0 (lex_block_comment l)"
  unfolding lex_block_comment_def by (intro runs_rules)

lemma fwd_using_directive [runs_rules]: "runs l0 l \<Longrightarrow> fwd l0 (using_directive l)"
  unfolding using_directive_def by (intro runs_rules)

lemma fwd3_comma_outdent [runs_rules]: "runs l0 l \<Longrightarrow> fwd3 l0 (comma_outdent s l valid)"
  unfolding comma_outdent_def by (intro runs_rules)

lemma fwd3_case_cascade [runs_rules]: "runs l0 l \<Longrightarrow> fwd3 l0 (case_cascade s l)"
  unfolding case_cascade_def by (intro runs_rules)

lemma fwd3_push_block [runs_rules]: "runs l0 l \<Longrightarrow> fwd3 l0 (push_block entry s l)"
  unfolding push_block_def by (intro runs_rules)

lemma fwd3_open_block [runs_rules]: "runs l0 l \<Longrightarrow> fwd3 l0 (open_block s l valid width)"
  unfolding open_block_def by (intro runs_rules)

lemma fwd3_comment_cases [runs_rules]:
  assumes "fwd3 l0 a" and "fwd3 l0 b" and "fwd3 l0 c" and "fwd3 l0 d"
  shows "fwd3 l0 (case x of COMMENT_NONE \<Rightarrow> a | COMMENT_LEXED \<Rightarrow> b | COMMENT_ABORT \<Rightarrow> c | COMMENT_SAME_LINE_CODE \<Rightarrow> d)"
  using assms by (cases x) simp_all

lemma fwd3_scala_indent [runs_rules]: "runs l0 l \<Longrightarrow> fwd3 l0 (scala_indent s l valid ind)"
  unfolding scala_indent_def by (intro runs_rules)

lemma fwd3_close_block [runs_rules]: "runs l0 l \<Longrightarrow> fwd3 l0 (close_block s l nc width c)"
  unfolding close_block_def Let_def by (intro runs_rules)

lemma fwd3_scala_outdent [runs_rules]: "runs l0 l \<Longrightarrow> fwd3 l0 (scala_outdent s l valid nc ind)"
  unfolding scala_outdent_def by (intro runs_rules)

lemma fwd_end_keyword [runs_rules]: "runs l0 l \<Longrightarrow> fwd l0 (end_keyword l)"
  unfolding end_keyword_def by (intro runs_rules)

lemma fwd_gate_or_none [runs_rules]: "runs l0 l \<Longrightarrow> fwd l0 (gate_or_none l valid)"
  unfolding gate_or_none_def by (intro runs_rules)

lemma fwd_unless_word [runs_rules]: "runs l0 l \<Longrightarrow> fwd l0 (unless_word t l w)"
  unfolding unless_word_def by (intro runs_rules)

lemma fwd_semicolon_keywords [runs_rules]:
  assumes "runs l0 l" shows "fwd l0 (semicolon_keywords l valid)"
proof -
  have "fwd l0 (semicolon_at_e l valid)"
    unfolding semicolon_at_e_def using assms by (intro runs_rules)
  moreover have "fwd l0 (semicolon_at_c l valid)"
    unfolding semicolon_at_c_def using assms by (intro runs_rules)
  ultimately show ?thesis unfolding semicolon_keywords_def using assms by (intro runs_rules)
qed

lemma fwd_semicolon_tail [runs_rules]: "runs l0 l \<Longrightarrow> fwd l0 (semicolon_tail l valid nc)"
  unfolding semicolon_tail_def by (intro runs_rules)

lemma fwd3_scala_semicolon [runs_rules]: "runs l0 l \<Longrightarrow> fwd3 l0 (scala_semicolon s l valid nc)"
  unfolding scala_semicolon_def Let_def by (intro runs_rules)

lemma fwd3_scala_modifier [runs_rules]: "runs l0 l \<Longrightarrow> fwd3 l0 (scala_modifier s l valid o')"
  unfolding scala_modifier_def by (intro runs_rules) (auto split: option.split intro!: runs_rules)

lemma fwd_scala_postfix [runs_rules]: "runs l0 l \<Longrightarrow> fwd l0 (scala_postfix l valid op)"
  unfolding scala_postfix_def Let_def by (intro runs_rules)

lemma fwd_scala_operator [runs_rules]: "runs l0 l \<Longrightarrow> fwd l0 (scala_operator l valid)"
  unfolding scala_operator_def Let_def by (intro runs_rules)

lemma fwd_string_start [runs_rules]: "runs l0 l \<Longrightarrow> fwd l0 (string_start l)"
  unfolding string_start_def by (intro runs_rules)

lemma fwd_raw_start [runs_rules]: "runs l0 l \<Longrightarrow> fwd l0 (raw_start l)"
  unfolding raw_start_def by (intro runs_rules)

lemma fwd_string_content: "runs l0 l \<Longrightarrow> string_content l valid = Some r \<Longrightarrow> fwd l0 r"
  by (auto simp: string_content_def intro!: runs_rules split: if_splits)

lemma fwd_control_tail [runs_rules]: "runs l0 l \<Longrightarrow> fwd l0 (control_tail l valid)"
  unfolding control_tail_def by (intro runs_rules)

lemma fwd3_same_width_case [runs_rules]: "runs l0 l \<Longrightarrow> fwd3 l0 (same_width_case s l valid ind)"
  unfolding same_width_case_def by (intro runs_rules)

lemma fwd3_scala_case_or_tail [runs_rules]: "runs l0 l \<Longrightarrow> fwd3 l0 (scala_case_or_tail s l valid nc ind)"
  unfolding scala_case_or_tail_def by (intro runs_rules)

lemma fwd3_scala_strings [runs_rules]: "runs l0 l \<Longrightarrow> fwd3 l0 (scala_strings s l valid nc ind)"
  unfolding scala_strings_def
  by (intro runs_rules) (auto split: option.split intro!: runs_rules dest: fwdD [OF fwd_string_content])

lemma fwd3_scala_tokens [runs_rules]: "runs l0 l \<Longrightarrow> fwd3 l0 (scala_tokens s l valid nc ind)"
  unfolding scala_tokens_def by (intro runs_rules)

lemma fwd3_scala_statement [runs_rules]: "runs l0 l \<Longrightarrow> fwd3 l0 (scala_statement s l valid nc ind)"
  unfolding scala_statement_def Let_def by (intro runs_rules)

lemma fwd3_scala_layout [runs_rules]: "runs l0 l \<Longrightarrow> fwd3 l0 (scala_layout s l valid nc ind)"
  unfolding scala_layout_def Let_def by (intro runs_rules)

lemma fwd3_scala_scan_impl: "runs l0 l \<Longrightarrow> fwd3 l0 (scala_scan_impl s l valid)"
  unfolding scala_scan_impl_def by (intro runs_rules) (auto intro!: runs_rules)

lemma fwd3_scala_scan: "fwd3 l (scala_scan s l valid)"
  using fwd3_scala_scan_impl [OF runs_refl, of l s valid]
  by (simp add: scala_scan_def fwd3_def split_beta)

section \<open>White space before a line\<close>

text \<open>The indentation of a line behind the white space \<open>ws\<close>: what follows its last line feed.\<close>

definition indentation_of :: "code_point list \<Rightarrow> nat" where
  "indentation_of ws = length (takeWhile (\<lambda>c. c \<noteq> c_nl) (rev ws))"

lemma indentation_of_Cons:
  "indentation_of (c # ws) =
     (if c_nl \<in> set ws then indentation_of ws else if c = c_nl then length ws else Suc (length ws))"
proof (cases "c_nl \<in> set ws")
  case True
  then show ?thesis by (simp add: indentation_of_def takeWhile_append1)
next
  case False
  then have "takeWhile (\<lambda>x. x \<noteq> c_nl) (rev ws @ [c]) = rev ws @ takeWhile (\<lambda>x. x \<noteq> c_nl) [c]"
    by (intro takeWhile_append2) auto
  then show ?thesis using False by (simp add: indentation_of_def)
qed

lemma count_spaces_text:
  assumes "text_ahead l = ws @ cs" and "list_all is_space ws" and "\<not> is_space (hd0 cs)"
    and "0 \<le> nc" and "nc + int (length ws) < 32768" and "0 \<le> ind" and "ind + int (length ws) < 32768"
  shows "count_spaces nc ind l =
    ((nc + int (count_list ws c_nl),
      if c_nl \<in> set ws then int (indentation_of ws) else ind + int (length ws)),
     advance_n True (length ws) l)"
  using assms
proof (induction ws arbitrary: l nc ind)
  case Nil
  then have "\<not> is_space (lookahead l)" by (simp add: lookahead_hd0)
  then show ?case by (simp add: count_spaces.simps [of nc ind l])
next
  case (Cons c ws)
  note l = text_ahead_ConsD [of l c "ws @ cs", OF Cons.prems(1) [simplified]]
  have c: "is_space c" using Cons.prems(2) by simp
  show ?case
  proof (cases "c = c_nl")
    case True
    have "count_spaces nc ind l = count_spaces (nc + 1) 0 (skip l)"
      using Cons.prems c True l(2) by (simp add: count_spaces.simps [of nc ind l] to_int16_id)
    also have "\<dots> = ((nc + 1 + int (count_list ws c_nl),
        if c_nl \<in> set ws then int (indentation_of ws) else int (length ws)), advance_n True (length ws) (skip l))"
      using Cons.IH [of "skip l" "nc + 1" 0] Cons.prems l(1) by simp
    finally show ?thesis using True by (simp add: indentation_of_Cons advance_n_Suc)
  next
    case False
    have "count_spaces nc ind l = count_spaces nc (ind + 1) (skip l)"
      using Cons.prems c False l(2) by (simp add: count_spaces.simps [of nc ind l] to_int16_id)
    also have "\<dots> = ((nc + int (count_list ws c_nl),
        if c_nl \<in> set ws then int (indentation_of ws) else ind + 1 + int (length ws)),
        advance_n True (length ws) (skip l))"
      using Cons.IH [of "skip l" nc "ind + 1"] Cons.prems l(1) by simp
    finally show ?thesis using False by (simp add: indentation_of_Cons advance_n_Suc)
  qed
qed

lemma count_spaces_none: "\<not> is_space (lookahead l) \<Longrightarrow> count_spaces nc ind l = ((nc, ind), l)"
  by (simp add: count_spaces.simps [of nc ind l])

section \<open>The state between two scans\<close>

definition int16 :: "int \<Rightarrow> bool" where
  "int16 x \<longleftrightarrow> -32768 \<le> x \<and> x < 32768"

definition scala_int16 :: "scala_scanner \<Rightarrow> bool" where
  "scala_int16 s \<longleftrightarrow>
     list_all int16 (indents s) \<and> int16 (last_indentation_size s) \<and> int16 (last_newline_count s) \<and>
     int16 (last_column s) \<and> int16 (last_char s) \<and> int16 (after_colon_eol s)"

definition scala_storable :: "scala_scanner \<Rightarrow> bool" where
  "scala_storable s \<longleftrightarrow> scala_int16 s \<and> length (indents s) \<le> 507"

definition scala_restore :: "scala_scanner \<Rightarrow> byte list \<Rightarrow> scala_scanner" where
  "scala_restore s bytes = (case scala_deserialize s bytes of Some t \<Rightarrow> t | None \<Rightarrow> s)"

definition scala_scan_fun :: "(scala_scanner, scala_token) scan_fun" where
  "scala_scan_fun s l valid = Some (scala_scan s l valid)"

lemma read_i16s_bytes: "list_all int16 is \<Longrightarrow> read_i16s (concat (List.map bytes_of_i16 is)) = is"
proof (induction "is")
  case (Cons i "is")
  then have "i16_of_bytes (bytes_of_i16 i) = i"
    using i16_of_bytes_of_i16 [of i "[]"] by (simp add: int16_def)
  then show ?case using Cons by (simp add: bytes_of_i16_def)
qed simp

lemma length_scala_serialize:
  "length (indents s) \<le> 507 \<Longrightarrow> length (scala_serialize s) = 2 * length (indents s) + 10"
  by (simp add: scala_serialize_def serialization_buffer_size_def length_concat comp_def sum_list_triv)

lemma scala_deserialize_serialize:
  assumes "scala_storable s"
  shows "scala_deserialize t (scala_serialize s) = Some s"
proof -
  have len: "length (indents s) \<le> 507" using assms by (simp add: scala_storable_def)
  have i: "int16 (last_indentation_size s)" "int16 (last_newline_count s)" "int16 (last_column s)"
    "int16 (last_char s)" "int16 (after_colon_eol s)" "list_all int16 (indents s)"
    using assms by (simp_all add: scala_storable_def scala_int16_def)
  have d: "drop n (bytes_of_i16 x @ ys) = drop (n - 2) ys" if "2 \<le> n" for n x ys
    using that by (simp add: drop_append)
  have b: "scala_serialize s = bytes_of_i16 (last_indentation_size s) @ bytes_of_i16 (last_newline_count s) @
      bytes_of_i16 (last_column s) @ bytes_of_i16 (last_char s) @ bytes_of_i16 (after_colon_eol s) @
      concat (List.map bytes_of_i16 (indents s))"
    using len by (simp add: scala_serialize_def serialization_buffer_size_def)
  show ?thesis
    using i length_scala_serialize [OF len]
    by (simp add: scala_deserialize_def b d read_i16s_bytes) (simp add: int16_def)
qed

interpretation scala: storing_scanner scala_create scala_storable scala_serialize scala_restore scala_scan_fun
proof
  show "scala_storable scala_create"
    by (simp add: scala_storable_def scala_int16_def scala_create_def int16_def)
  show "length (scala_serialize s) \<le> serialization_buffer_size" if "scala_storable s" for s
    using that length_scala_serialize [of s] by (simp add: scala_storable_def serialization_buffer_size_def)
  show "scala_restore t (scala_serialize s) = s" if "scala_storable s" for s t
    using that by (simp add: scala_restore_def scala_deserialize_serialize)
  show "runs l l'" if "scala_scan_fun s l v = Some (ok, s', l')" for s l v ok s' l'
    using that fwd3_scala_scan [of l s v] by (simp add: scala_scan_fun_def fwd3_def)
qed

end
