(* ===== verification/Scala_Stack.thy ===== *)
theory Scala_Stack
  imports Scala
begin

text \<open>
  What a scan of the Scala scanner answers: which token, where the token ends, and what becomes of the
  stack of indentations. The rules follow the code, as those of \<open>Scanner_Interface\<close> do, with one more
  thing to keep track of: behind \<open>mark_end\<close> the scanner only looks ahead, so that the end of the token stays
  where it was set.
\<close>

section \<open>Tokens and stacks\<close>

text \<open>The tokens that take no text, and those that leave the stack alone.\<close>

definition empty_token :: "scala_token \<Rightarrow> bool" where
  "empty_token k \<longleftrightarrow> k \<in> {AUTOMATIC_SEMICOLON, INDENT, OUTDENT, COMMA_OUTDENT, CONTROL_TAIL_GATE}"

definition steady :: "scala_token \<Rightarrow> bool" where
  "steady k \<longleftrightarrow> k \<notin> {INDENT, OUTDENT, COMMA_OUTDENT}"

definition scala_stack_step :: "(int \<Rightarrow> bool) \<Rightarrow> int list \<Rightarrow> scala_token \<Rightarrow> int list \<Rightarrow> bool" where
  "scala_stack_step E is k js \<longleftrightarrow>
     (if k = INDENT then \<exists>e. js = is @ [e] \<and> E e
      else if k = OUTDENT \<or> k = COMMA_OUTDENT then js = butlast is
      else js = is)"

lemma scala_stack_step_steady: "steady k \<Longrightarrow> scala_stack_step E is k is"
  by (simp add: steady_def scala_stack_step_def)

text \<open>\<open>Q k e\<close>: the token \<open>k\<close> may be reported with its end at \<open>e\<close>. \<open>E\<close> is what a new entry satisfies.\<close>

definition tells :: "(scala_token \<Rightarrow> nat \<Rightarrow> bool) \<Rightarrow> bool \<times> scala_token lexer \<Rightarrow> bool" where
  "tells Q r \<longleftrightarrow>
     (fst r \<longrightarrow> (\<exists>k. result_symbol (snd r) = Some k \<and> steady k \<and> Q k (token_end (snd r))))"

definition answers ::
  "(scala_token \<Rightarrow> nat \<Rightarrow> bool) \<Rightarrow> (int \<Rightarrow> bool) \<Rightarrow> int list \<Rightarrow> scala_result \<Rightarrow> bool" where
  "answers Q E is r \<longleftrightarrow>
     (case r of (b, s, l) \<Rightarrow>
        if b then \<exists>k. result_symbol l = Some k \<and> scala_stack_step E is k (indents s) \<and> Q k (token_end l)
        else indents s = is)"

text \<open>The tokens a scan may report: the valid ones, and the end or the longer start of a string where
another of its tokens is valid.\<close>

definition reportable :: "(scala_token \<Rightarrow> bool) \<Rightarrow> scala_token \<Rightarrow> bool" where
  "reportable valid k \<longleftrightarrow>
     valid k \<or>
     k = SIMPLE_MULTILINE_STRING_START \<and> valid SIMPLE_STRING_START \<or>
     k = SINGLE_LINE_STRING_END \<and>
       (valid SIMPLE_STRING_MIDDLE \<or> valid INTERPOLATED_STRING_MIDDLE \<or> valid RAW_STRING_MIDDLE) \<or>
     k = MULTILINE_STRING_END \<and>
       (valid RAW_STRING_MULTILINE_MIDDLE \<or> valid INTERPOLATED_MULTILINE_STRING_MIDDLE)"

definition offers :: "(scala_token \<Rightarrow> bool) \<Rightarrow> nat \<Rightarrow> (scala_token \<Rightarrow> nat \<Rightarrow> bool) \<Rightarrow> bool" where
  "offers valid p Q \<longleftrightarrow>
     (\<forall>k. empty_token k \<and> k \<noteq> OUTDENT \<and> valid k \<longrightarrow> Q k p) \<and>
     (\<forall>k e. \<not> empty_token k \<and> reportable valid k \<longrightarrow> Q k e)"

lemma offers_empty: "offers valid p Q \<Longrightarrow> valid k \<Longrightarrow> empty_token k \<Longrightarrow> k \<noteq> OUTDENT \<Longrightarrow> Q k p"
  and offers_text: "offers valid p Q \<Longrightarrow> reportable valid k \<Longrightarrow> \<not> empty_token k \<Longrightarrow> Q k e"
  by (simp_all add: offers_def)

lemma offers_valid: "offers valid p Q \<Longrightarrow> valid k \<Longrightarrow> \<not> empty_token k \<Longrightarrow> Q k e"
  by (simp add: offers_def reportable_def)

section \<open>Rules for the shape of the code\<close>

named_theorems ans_rules \<open>structural rules for tells and answers\<close>
named_theorems ans_peeks \<open>the same, for steps that look ahead from l0\<close>

lemma ans_fail [ans_rules]:
  "tells Q (False, l)" "indents s = is \<Longrightarrow> answers Q E is (False, s, l)"
  by (simp_all add: tells_def answers_def)

lemma ans_if [ans_rules]:
  "(c \<Longrightarrow> tells Q x) \<Longrightarrow> (\<not> c \<Longrightarrow> tells Q y) \<Longrightarrow> tells Q (if c then x else y)"
  "(c \<Longrightarrow> answers Q E is u) \<Longrightarrow> (\<not> c \<Longrightarrow> answers Q E is v) \<Longrightarrow> answers Q E is (if c then u else v)"
  by simp_all

lemma ans_return [ans_rules]:
  "tells Q p \<Longrightarrow> indents s = is \<Longrightarrow> answers Q E is (let (b, l) = p in (b, s, l))"
  by (auto simp: tells_def answers_def scala_stack_step_steady split: prod.split)

lemma ans_let [ans_peeks]:
  "peeks l0 m \<Longrightarrow> (\<And>l. peeks l0 l \<Longrightarrow> tells Q (f l)) \<Longrightarrow> tells Q (let l = m in f l)"
  "peeks l0 m \<Longrightarrow> (\<And>l. peeks l0 l \<Longrightarrow> answers Q E is (g l)) \<Longrightarrow> answers Q E is (let l = m in g l)"
  "pk l0 p \<Longrightarrow> (\<And>a l. peeks l0 l \<Longrightarrow> tells Q (f' a l)) \<Longrightarrow> tells Q (let (a, l) = p in f' a l)"
  "pk l0 p \<Longrightarrow> (\<And>a l. peeks l0 l \<Longrightarrow> answers Q E is (g' a l)) \<Longrightarrow> answers Q E is (let (a, l) = p in g' a l)"
  by (auto simp: pk_def split: prod.split)

lemma ans_let_any:
  "(\<And>l. tells Q (f l)) \<Longrightarrow> tells Q (let l = (m :: scala_token lexer) in f l)"
  "(\<And>l. answers Q E is (g l)) \<Longrightarrow> answers Q E is (let l = (m :: scala_token lexer) in g l)"
  "(\<And>a l. tells Q (f' a l)) \<Longrightarrow> tells Q (let (a, l) = (p :: 'a \<times> scala_token lexer) in f' a l)"
  "(\<And>a l. answers Q E is (g' a l)) \<Longrightarrow> answers Q E is (let (a, l) = (p :: 'a \<times> scala_token lexer) in g' a l)"
  by (auto split: prod.split)

text \<open>The leaves: \<open>l0\<close> is where the end of the token was set.\<close>

lemma tells_set:
  "peeks l0 l \<Longrightarrow> tok_end l0 = Some e \<Longrightarrow> steady k \<Longrightarrow> Q k e \<Longrightarrow> tells Q (b, set_result k l)"
  by (simp add: tells_def token_end_def peeks_frame)

lemma tells_kept:
  "peeks l0 l \<Longrightarrow> result_symbol l0 = Some k \<Longrightarrow> tok_end l0 = Some e \<Longrightarrow> steady k \<Longrightarrow> Q k e \<Longrightarrow> tells Q (b, l)"
  by (simp add: tells_def token_end_def peeks_frame)

lemma answers_set:
  "peeks l0 l \<Longrightarrow> tok_end l0 = Some e \<Longrightarrow> scala_stack_step E is k (indents s) \<Longrightarrow> Q k e \<Longrightarrow>
    answers Q E is (True, s, set_result k l)"
  by (simp add: answers_def token_end_def peeks_frame)

text \<open>A token of whose end nothing is known.\<close>

lemma tells_any: "steady k \<Longrightarrow> (\<And>e. Q k e) \<Longrightarrow> result_symbol l = Some k \<Longrightarrow> tells Q (b, l)"
  by (simp add: tells_def)

lemma steady_simps [simp]:
  "steady AUTOMATIC_SEMICOLON" "steady CONTROL_TAIL_GATE" "\<not> empty_token k \<Longrightarrow> steady k"
  by (auto simp: steady_def empty_token_def)

section \<open>Layout tokens\<close>

lemma pop_step [simp]:
  "scala_stack_step E (indents s) OUTDENT (indents (pop_indent s))"
  "scala_stack_step E (indents s) COMMA_OUTDENT (indents (pop_indent s))"
  by (simp_all add: scala_stack_step_def pop_indent_def)

lemma answers_comma_outdent:
  assumes "Q COMMA_OUTDENT (pos l)"
  shows "answers Q E (indents s) (comma_outdent s l valid)"
proof -
  have m: "pk (mark_end l)
      (if valid ERROR_SENTINEL then (True, m)
       else let (ends_line, l) = comma_loop (advance m) in
            if ends_line then (True, l)
            else let (line, l) = scan_rest_of_line l in (closes_bracket line, l))"
    if "m = mark_end l" for m unfolding that by (intro peek_rules)
  show ?thesis
    unfolding comma_outdent_def Let_def [of "mark_end l"]
    by (intro ans_rules ans_let [where ?l0.0 = "mark_end l"] m
        answers_set [where ?l0.0 = "mark_end l" and e = "pos l"])
      (auto simp: assms)
qed

lemma answers_case_cascade:
  assumes "Q OUTDENT (pos l)"
  shows "answers Q E (indents s) (case_cascade s l)"
  unfolding case_cascade_def
  by (intro ans_rules ans_let [where ?l0.0 = "mark_end l"] peek_rules
      answers_set [where ?l0.0 = "mark_end l" and e = "pos l"])
    (auto simp: assms)

lemma answers_push_block:
  assumes "peeks (mark_end m) l" and "E entry" and "Q INDENT (pos m)"
  shows "answers Q E (indents s) (push_block entry s l)"
  unfolding push_block_def using assms
  by (intro answers_set [where ?l0.0 = "mark_end m" and e = "pos m"])
    (simp_all add: scala_stack_step_def push_indent_def)

lemma answers_open_block:
  assumes "peeks (mark_end m) l" and "E width" and "E (to_int16 (width OR case_indent_flag))"
    and "Q INDENT (pos m)" and "valid CONTROL_TAIL_GATE \<Longrightarrow> Q CONTROL_TAIL_GATE (pos m)"
  shows "answers Q E (indents s) (open_block s l valid width)"
  unfolding open_block_def
  by (intro ans_rules ans_let [where ?l0.0 = "mark_end m"] peek_rules answers_push_block [of m]
      answers_set [where ?l0.0 = "mark_end m" and e = "pos m"] assms(1,4))
    (use assms in \<open>auto simp: scala_stack_step_def\<close>)

lemma layout_comment_loop_answer:
  assumes "peeks l0 l" and "layout_comment_loop l = (c, l')"
  shows "if c = COMMENT_LEXED then result_symbol l' = Some BLOCK_COMMENT
    else c = COMMENT_SAME_LINE_CODE \<and> peeks l0 l'"
  using assms
proof (induction l arbitrary: c l' rule: layout_comment_loop.induct)
  case (1 l)
  define m where "m = advance_while is_blank False (consume_block_comment_body l)"
  have m: "peeks l0 m" unfolding m_def using 1(2) by (intro peek_rules)
  show ?case
  proof (cases "lookahead m = c_slash \<and> lookahead (advance m) = c_star")
    case True
    then have "\<not> eof m" using lookahead_eof by fastforce
    then have "layout_comment_loop (advance (advance m)) = (c, l')"
      using 1(3) True by (subst (asm) layout_comment_loop.simps) (simp add: m_def [symmetric])
    then show ?thesis
      using 1(1) [OF m_def _ _ refl] True m \<open>\<not> eof m\<close> by simp
  next
    case False
    with 1(3) m show ?thesis
      by (subst (asm) layout_comment_loop.simps)
        (auto simp: m_def [symmetric] finish_block_comment_def Let_def split: if_splits)
  qed
qed

lemma check_comment_answer:
  assumes "peeks l0 l" and "check_comment_at_layout l valid = (c, l')"
  shows "if c = COMMENT_LEXED then result_symbol l' = Some BLOCK_COMMENT \<and> valid BLOCK_COMMENT
    else peeks l0 l' \<and> (c = COMMENT_SAME_LINE_CODE \<longrightarrow> valid BLOCK_COMMENT)"
  using assms layout_comment_loop_answer [of l0 "advance (advance l)" c l']
  by (auto simp: check_comment_at_layout_def Let_def split: if_splits)

lemma answers_block_comment:
  assumes "\<And>e. Q BLOCK_COMMENT e" and "result_symbol l = Some BLOCK_COMMENT" and "indents s = is"
  shows "answers Q E is (b, s, l)"
  using assms by (simp add: answers_def scala_stack_step_def)

lemma answers_scala_indent:
  assumes "offers valid (pos l) Q" and "valid INDENT"
    and "indent_geometry s ind \<Longrightarrow> E ind \<and> E (to_int16 (ind OR case_indent_flag))"
    and "\<And>m. runs l m \<Longrightarrow> code_column m > indent_width (prev_entry s) \<Longrightarrow>
      E (code_column m) \<and> E (to_int16 (code_column m OR case_indent_flag))"
  shows "answers Q E (indents s) (scala_indent s l valid ind)"
proof -
  obtain c m where c: "check_comment_at_layout (mark_end l) valid = (c, m)" by fastforce
  note q = check_comment_answer [OF peeks_refl c] offers_valid [OF assms(1)]
  have i: "Q INDENT (pos l)" "valid CONTROL_TAIL_GATE \<Longrightarrow> Q CONTROL_TAIL_GATE (pos l)"
    using offers_empty [OF assms(1)] assms(2) by (simp_all add: empty_token_def)
  have r: "runs l m" if "c \<noteq> COMMENT_LEXED"
    using q(1) that by (auto intro: runs_peeks [of "mark_end l"])
  show ?thesis
  proof (cases c)
    case COMMENT_NONE
    then show ?thesis
      using q answers_open_block [of l m E ind Q valid s] i assms(3)
      by (auto simp: scala_indent_def c answers_def)
  next
    case COMMENT_SAME_LINE_CODE
    then show ?thesis
      using q answers_open_block [of l m E "code_column m" Q valid s] i assms(4) [OF r]
      by (auto simp: scala_indent_def c finish_block_comment_def empty_token_def intro!: answers_block_comment)
  next
    case COMMENT_ABORT
    then show ?thesis by (simp add: scala_indent_def c answers_def)
  next
    case COMMENT_LEXED
    then show ?thesis
      using q by (simp add: scala_indent_def c empty_token_def answers_block_comment)
  qed
qed

lemma answers_close_block:
  assumes "peeks (mark_end m) l" and "Q OUTDENT (pos m)"
  shows "answers Q E (indents s) (close_block s l nc width c)"
proof -
  have p: "indents (pop_indent (s\<lparr>last_indentation_size := a, last_newline_count := b, last_column := c,
      last_char := d\<rparr>)) = indents (pop_indent s)" for a b c d
    by (simp add: pop_indent_def)
  show ?thesis
    unfolding close_block_def Let_def [of "s\<lparr>last_indentation_size := _, last_newline_count := _,
        last_column := _, last_char := _\<rparr>"]
    by (intro ans_rules ans_let [where ?l0.0 = "mark_end m"] peek_rules
        answers_set [where ?l0.0 = "mark_end m" and e = "pos m"] assms)
      (simp_all add: p)
qed

lemma answers_scala_outdent:
  assumes "offers valid (pos l) Q" and "Q OUTDENT (pos l)"
  shows "answers Q E (indents s) (scala_outdent s l valid nc ind)"
proof -
  obtain c m where c: "check_comment_at_layout (mark_end l) valid = (c, m)" by fastforce
  note q = check_comment_answer [OF peeks_refl c] offers_valid [OF assms(1)]
  note close = answers_close_block [of l m Q E s, OF _ assms(2)]
  show ?thesis
  proof (cases c)
    case COMMENT_NONE
    then show ?thesis using q close by (simp add: scala_outdent_def c)
  next
    case COMMENT_SAME_LINE_CODE
    then show ?thesis using q close
      by (auto simp: scala_outdent_def c finish_block_comment_def keep_newline_def empty_token_def
          intro!: answers_block_comment)
  next
    case COMMENT_ABORT
    then show ?thesis by (simp add: scala_outdent_def c answers_def)
  next
    case COMMENT_LEXED
    then show ?thesis using q by (simp add: scala_outdent_def c empty_token_def answers_block_comment)
  qed
qed

section \<open>Semicolons, modifiers and what follows\<close>

text \<open>The cursor of the automatic semicolon: its end and its symbol are set, and only looked behind.\<close>

definition semicolon_cursor :: "scala_token lexer \<Rightarrow> scala_token lexer" where
  "semicolon_cursor l = set_result AUTOMATIC_SEMICOLON (mark_end l)"

lemma semicolon_cursor_simps [simp]:
  "result_symbol (semicolon_cursor l) = Some AUTOMATIC_SEMICOLON" "tok_end (semicolon_cursor l) = Some (pos l)"
  "lookahead (semicolon_cursor l) = lookahead l"
  by (simp_all add: semicolon_cursor_def)

lemma tells_semicolon:
  assumes "offers valid (pos l0) Q" and "valid AUTOMATIC_SEMICOLON" and "peeks (semicolon_cursor l0) l"
  shows "tells Q (b, l)"
  by (rule tells_kept [OF assms(3)]) (use offers_empty [OF assms(1,2)] in \<open>simp_all add: empty_token_def\<close>)

lemma tells_gate_or_none:
  assumes "offers valid (pos l0) Q" and "peeks (semicolon_cursor l0) l"
  shows "tells Q (gate_or_none l valid)"
  unfolding gate_or_none_def
  by (intro ans_rules tells_set [OF assms(2)])
    (auto simp: empty_token_def intro: offers_empty [OF assms(1)])

lemma tells_semicolon_tail:
  assumes "offers valid (pos l0) Q" and "valid AUTOMATIC_SEMICOLON" and "peeks (semicolon_cursor l0) l"
  shows "tells Q (semicolon_tail l valid nc)"
proof -
  note leaf = tells_semicolon [OF assms(1,2)] tells_gate_or_none [OF assms(1)]
  note rules = ans_rules ans_let [where ?l0.0 = "semicolon_cursor l0"] peek_rules leaf assms(3)
  have u: "tells Q (unless_word t m w)" if "peeks (semicolon_cursor l0) m" for t m w
    unfolding unless_word_def by (intro rules that)
  have e: "tells Q (semicolon_at_e l valid)"
    unfolding semicolon_at_e_def by (intro rules u)
  have c: "tells Q (semicolon_at_c l valid)"
    unfolding semicolon_at_c_def by (intro rules)
  have "tells Q (semicolon_keywords l valid)"
    unfolding semicolon_keywords_def by (intro rules u e c)
  then show ?thesis unfolding semicolon_tail_def by (intro rules)
qed

lemma answers_scala_semicolon:
  assumes "offers valid (pos l) Q" and "valid AUTOMATIC_SEMICOLON"
  shows "answers Q E (indents s) (scala_semicolon s l valid nc)"
proof -
  let ?l0 = "semicolon_cursor l"
  note leaf = tells_semicolon [OF assms(1,2)] tells_semicolon_tail [OF assms(1,2)]
  note rules = ans_rules ans_let [where ?l0.0 = ?l0] peek_rules
  have comment: "answers Q E (indents s)
      (let l = advance_while is_blank False (consume_block_comment_body (advance m));
           s = (if \<not> at_line_end l then keep_newline nc s l else s);
           (b, l) = finish_block_comment l in (b, s, l))" if "valid BLOCK_COMMENT" for m
    unfolding Let_def
    using offers_valid [OF assms(1) that]
    by (auto simp: finish_block_comment_def keep_newline_def empty_token_def intro!: answers_block_comment)
  have brace: "tells Q (brace_loop (advance ?l0))"
    using leaf(1) [of "snd (brace_loop (advance ?l0))" "fst (brace_loop (advance ?l0))"]
      pk_brace_loop [of ?l0 "advance ?l0"] by (simp add: pk_def)
  show ?thesis
    unfolding scala_semicolon_def semicolon_cursor_def [symmetric] Let_def [of ?l0]
    by (intro rules leaf comment brace refl) (simp_all add: peeks_advance)
qed

lemma answers_scala_modifier:
  assumes "offers valid (pos l) Q" and "outdent \<Longrightarrow> Q OUTDENT (pos l)"
  shows "answers Q E (indents s) (scala_modifier s l valid outdent)"
proof -
  let ?m = "if outdent then mark_end l else l"
  obtain word m where w: "scala_read_word ?m 12 = (word, m)" by fastforce
  then have m: "peeks ?m m" using pk_read_word [of ?m ?m 12] by (simp add: pk_def)
  have out: "answers Q E (indents s) (True, pop_indent s, set_result OUTDENT m)" if outdent
    by (rule answers_set [where ?l0.0 = "mark_end l"]) (use that m assms(2) in simp_all)
  show ?thesis
  proof (cases "List.find (\<lambda>(_, w, symbol). valid symbol \<and> word = Some (codes w)) soft_modifiers")
    case None
    then show ?thesis
      unfolding scala_modifier_def w
      by (simp only: Let_def prod.case option.case None) (intro ans_rules refl, simp add: out)
  next
    case (Some x)
    then obtain a v k where x: "x = (a, v, k)" by (cases x)
    have "valid k" "\<not> empty_token k"
      using Some x by (auto simp: find_Some_iff soft_modifiers_def empty_token_def nth_Cons' split: if_splits)
    then have "answers Q E (indents s) (True, s, set_result k n)" for n
      using offers_valid [OF assms(1)] by (simp add: answers_def scala_stack_step_steady)
    then show ?thesis
      unfolding scala_modifier_def w
      by (simp only: Let_def prod.case option.case Some x) (auto simp: answers_def [of _ _ _ "(False, _)"] split: prod.split)
  qed
qed

lemma tells_scala_postfix:
  assumes "offers valid (pos l0) Q"
  shows "tells Q (scala_postfix l valid op)"
proof -
  define sym where "sym = (if op = [c_star] then POSTFIX_STAR else POSTFIX_OP)"
  have leaf: "tells Q (True, set_result sym m)" if "valid sym" for m
    by (rule tells_any [of sym]) (use offers_valid [OF assms that] in \<open>auto simp: sym_def empty_token_def\<close>)
  show ?thesis
    unfolding scala_postfix_def sym_def [symmetric] Let_def [of sym]
    by (intro ans_rules ans_let_any leaf) simp_all
qed

lemma op_left_class_not_empty: "\<not> empty_token (op_left_class c)"
  by (simp add: op_left_class_def empty_token_def)

lemma tells_scala_operator:
  assumes "offers valid (pos l0) Q"
  shows "tells Q (scala_operator l valid)"
proof -
  have leaf: "tells Q (True, set_result k m)" if "valid k" "\<not> empty_token k" for k m
    by (rule tells_any [of k]) (use offers_valid [OF assms that(1)] that in simp_all)
  show ?thesis
    unfolding scala_operator_def
    by (auto simp: Let_def split_beta tells_scala_postfix [OF assms] op_left_class_not_empty
        empty_token_def [of COLON_EOL] empty_token_def [of OP_NAME] intro!: ans_rules leaf)
qed

text \<open>The tokens that the text of a string can end with.\<close>

definition string_tokens :: "bool \<Rightarrow> string_mode \<Rightarrow> scala_token set" where
  "string_tokens m mode =
     {if m then MULTILINE_STRING_END else SINGLE_LINE_STRING_END} \<union>
     (if mode = STRING_MODE_SIMPLE then if m then {} else {SIMPLE_STRING_MIDDLE} else {string_middle m mode})"

lemma string_loop_token:
  "fst (string_loop m mode n l) \<Longrightarrow>
    \<exists>k \<in> string_tokens m mode. result_symbol (snd (string_loop m mode n l)) = Some k"
proof (induction m mode n l rule: string_loop.induct)
  case (1 m mode n l)
  then show ?case
    by (subst string_loop.simps, subst (asm) (5) string_loop.simps)
      (auto simp: Let_def string_middle_def string_tokens_def split: if_splits string_mode.splits)
qed

lemma tells_string:
  assumes "offers valid p Q" and "\<forall>k \<in> string_tokens m mode. reportable valid k \<and> \<not> empty_token k"
  shows "tells Q (scala_scan_string_content l m mode)"
  using string_loop_token [of m mode 0 l] assms(2) offers_text [OF assms(1)]
  by (fastforce simp: tells_def scala_scan_string_content_def)

lemma tells_string_content:
  assumes "offers valid p Q" and "string_content l valid = Some r"
  shows "tells Q r"
  using assms(2)
  by (auto simp: string_content_def reportable_def string_tokens_def string_middle_def empty_token_def
      intro!: tells_string [OF assms(1)] split: if_splits)

lemma tells_string_start:
  assumes "offers valid p Q" and "valid SIMPLE_STRING_START"
  shows "tells Q (string_start l)"
proof -
  have "Q SIMPLE_STRING_START e" "Q SIMPLE_MULTILINE_STRING_START e" for e
    using offers_text [OF assms(1)] assms(2) by (simp_all add: reportable_def empty_token_def)
  then show ?thesis by (simp add: string_start_def Let_def tells_def steady_def)
qed

lemma tells_control_tail:
  assumes "offers valid (pos l) Q" shows "tells Q (control_tail l valid)"
  unfolding control_tail_def
  by (intro ans_rules ans_let [where ?l0.0 = "mark_end l"] peek_rules
      tells_set [where ?l0.0 = "mark_end l" and e = "pos l"])
    (auto simp: empty_token_def intro: offers_empty [OF assms])

lemma answers_same_width_case:
  assumes "offers valid (pos l) Q" and "valid INDENT" and "E (to_int16 (ind OR case_indent_flag))"
  shows "answers Q E (indents s) (same_width_case s l valid ind)"
  unfolding same_width_case_def
  by (intro ans_rules ans_let [where ?l0.0 = "mark_end l"] peek_rules answers_push_block [of l]
      answers_set [where ?l0.0 = "mark_end l" and e = "pos l"])
    (auto simp: empty_token_def scala_stack_step_def assms intro: offers_empty [OF assms(1)])

text \<open>\<open>cases_open\<close>: a case region may open at the width of the innermost block.\<close>

abbreviation cases_open :: "(int \<Rightarrow> bool) \<Rightarrow> scala_scanner \<Rightarrow> int \<Rightarrow> bool" where
  "cases_open E s ind \<equiv>
     prev_entry s \<noteq> -1 \<and> ind = indent_width (prev_entry s) \<longrightarrow> E (to_int16 (ind OR case_indent_flag))"

lemma answers_scala_case_or_tail:
  assumes "offers valid (pos l) Q" and "cases_open E s ind"
  shows "answers Q E (indents s) (scala_case_or_tail s l valid nc ind)"
  unfolding scala_case_or_tail_def
  by (intro ans_rules answers_same_width_case tells_control_tail) (use assms in auto)

lemma answers_scala_strings:
  assumes "offers valid (pos l) Q" and "cases_open E s ind"
    and "\<And>p. valid RAW_STRING_START \<Longrightarrow> lookahead l = c_r \<Longrightarrow> offers valid p Q"
  shows "answers Q E (indents s) (scala_strings s l valid nc ind)"
proof -
  define r where "r = (if valid RAW_STRING_START \<and> lookahead l = c_r then raw_start l else (False, l))"
  obtain b m where r': "r = (b, m)" by fastforce
  have raw: "tells Q r" "offers valid (pos m) Q"
  proof -
    have "Q RAW_STRING_START e" if "valid RAW_STRING_START" for e
      using offers_valid [OF assms(1) that] by (simp add: empty_token_def)
    then show "tells Q r"
      by (auto simp: r_def raw_start_def tells_def steady_def split_beta Let_def)
    show "offers valid (pos m) Q" using assms(1,3) r' by (auto simp: r_def split: if_splits)
  qed
  have "answers Q E (indents s) (True, s, m)" if b
    using raw(1) r' that by (auto simp: tells_def answers_def scala_stack_step_steady)
  moreover have "answers Q E (indents s)
      (case string_content m valid of Some (b, l) \<Rightarrow> (b, s, l) | None \<Rightarrow> scala_case_or_tail s m valid nc ind)"
    using ans_return [OF tells_string_content [OF raw(2)] refl, of m _ E s]
      answers_scala_case_or_tail [of valid m Q s ind E] raw(2) assms(2)
    by (auto split: option.split)
  ultimately show ?thesis
    unfolding scala_strings_def r_def [symmetric] r'
    by (intro ans_rules tells_string_start [OF assms(1)] refl) (simp_all add: Let_def)
qed

lemma count_newlines_none: "\<not> is_space (lookahead l) \<Longrightarrow> count_newlines nc l = (nc, l)"
  by (simp add: count_newlines.simps [of nc l])

lemma answers_scala_tokens:
  assumes "offers valid (pos l) Q" and "cases_open E s ind" and "\<not> is_space (lookahead l)"
    and "\<And>p. valid RAW_STRING_START \<Longrightarrow> lookahead l = c_r \<Longrightarrow> offers valid p Q"
  shows "answers Q E (indents s) (scala_tokens s l valid nc ind)"
proof -
  have leaf: "tells Q (True, m)" if "valid k" "\<not> empty_token k" "result_symbol m = Some k" for k m
    by (rule tells_any [of k]) (use offers_valid [OF assms(1) that(1)] that in simp_all)
  have xml: "answers Q E (indents s) (True, s, set_result XML_TAG_START m)" if "valid XML_TAG_START" for m
    using ans_return [OF leaf [OF that], of "set_result XML_TAG_START m" s "indents s" E]
    by (simp add: empty_token_def)
  have float: "tells Q (scan_float_with_separator l)" if "valid FLOATING_POINT_WITH_SEPARATORS"
    unfolding scan_float_with_separator_def
    by (auto simp: Let_def split_beta empty_token_def intro!: ans_rules leaf [OF that])
  have comment: "tells Q (lex_block_comment m)" if "valid BLOCK_COMMENT" for m
    by (auto simp: lex_block_comment_def finish_block_comment_def empty_token_def intro!: leaf [OF that])
  show ?thesis
    unfolding scala_tokens_def count_newlines_none [OF assms(3)] Let_def [of "(_, _)"] prod.case
    by (intro ans_rules ans_let_any xml float comment tells_scala_operator [OF assms(1)]
        answers_scala_strings assms refl) simp_all
qed

section \<open>The whole scan\<close>

lemma answers_scala_statement:
  assumes "offers valid (pos l) Q" and "cases_open E s ind" and "\<not> is_space (lookahead l)"
    and "\<And>p. valid RAW_STRING_START \<Longrightarrow> lookahead l = c_r \<Longrightarrow> offers valid p Q"
    and "outdent_arm s l valid (recovered_newlines s l nc) \<Longrightarrow> Q OUTDENT (pos l)"
  shows "answers Q E (indents s) (scala_statement s l valid nc ind)"
proof -
  define t where "t = s\<lparr>last_newline_count := 0\<rparr>"
  have t: "indents s = indents t" "prev_entry s = prev_entry t" "outdent_arm t l valid = outdent_arm s l valid"
    by (simp_all add: t_def prev_entry_def outdent_arm_def fun_eq_iff)
  have key: "tells Q (end_keyword l)" if "valid END_KEYWORD"
    using offers_valid [OF assms(1) that]
    by (auto simp: end_keyword_def Let_def split_beta tells_def steady_def empty_token_def)
  show ?thesis
    unfolding scala_statement_def Let_def [of "recovered_newlines s l nc"] t_def [symmetric] Let_def [of t]
      t(1)
    by (intro ans_rules key answers_scala_semicolon answers_scala_modifier answers_scala_tokens
        assms(1,3,4) refl)
      (use assms(2,5) t in auto)
qed

lemma answers_scala_layout:
  assumes "offers valid (pos l) Q" and "cases_open E s ind" and "\<not> is_space (lookahead l)"
    and "\<And>p. valid RAW_STRING_START \<Longrightarrow> lookahead l = c_r \<Longrightarrow> offers valid p Q"
    and "valid OUTDENT \<Longrightarrow> Q OUTDENT (pos l)" and "tok_end l = None"
    and "indent_geometry s ind \<Longrightarrow> E ind \<and> E (to_int16 (ind OR case_indent_flag))"
    and "\<And>m. runs l m \<Longrightarrow> code_column m > indent_width (prev_entry s) \<Longrightarrow>
      E (code_column m) \<and> E (to_int16 (code_column m OR case_indent_flag))"
  shows "answers Q E (indents s) (scala_layout s l valid nc ind)"
proof -
  define t where "t = s\<lparr>last_indentation_size := -1\<rparr>"
  have t: "indents s = indents t" "prev_entry s = prev_entry t" "indent_geometry s = indent_geometry t"
    by (simp_all add: t_def prev_entry_def indent_geometry_def fun_eq_iff)
  have due: "answers Q E (indents s) (True, pop_indent s, set_result OUTDENT l)" if "outdent_due s l valid"
    using that assms(5,6) by (simp add: answers_def outdent_due_def token_end_def)
  have rest: "answers Q E (indents s)
      (if indent_possible t l valid nc ind then scala_indent t l valid ind
       else if outdent_possible t l valid nc ind then scala_outdent t l valid nc ind
       else scala_statement t l valid nc ind)"
    unfolding t(1)
    by (intro ans_rules answers_scala_indent answers_scala_outdent answers_scala_statement assms(1,3,4))
      (use assms(2,5,7,8) t in \<open>auto simp: indent_possible_def outdent_possible_def outdent_arm_def\<close>)
  show ?thesis
    unfolding scala_layout_def t_def [symmetric] Let_def [of t]
    by (intro ans_rules answers_comma_outdent answers_case_cascade due rest)
      (use assms(5) offers_empty [OF assms(1), of COMMA_OUTDENT] in
        \<open>auto simp: in_case_cascade_def empty_token_def\<close>)
qed

lemma count_spaces_cursor: "snd (count_spaces nc ind l) = advance_while is_space True l"
proof (induction nc ind l rule: count_spaces.induct)
  case (1 nc ind l)
  then show ?case
    by (subst count_spaces.simps, subst advance_while_unfold) (auto split: if_splits)
qed

lemma not_space_after: "\<not> is_space (lookahead (advance_while is_space True l))"
  using look_advance_while [of is_space True l] by auto

text \<open>\<open>line_start l\<close> is the first character that is no white space.\<close>

definition line_start :: "'k lexer \<Rightarrow> 'k lexer" where
  "line_start l = advance_while is_space True l"

definition line_indent :: "'k lexer \<Rightarrow> int" where
  "line_indent l = snd (fst (count_spaces 0 0 l))"

lemma count_spaces_result: "count_spaces 0 0 l = ((fst (fst (count_spaces 0 0 l)), line_indent l), line_start l)"
  by (simp add: line_indent_def line_start_def count_spaces_cursor [of 0 0 l, symmetric])

lemma answers_scala_scan:
  assumes "tok_end l = None" and "offers valid (pos (line_start l)) Q"
    and "cases_open E s (line_indent l)"
    and "\<And>p. valid RAW_STRING_START \<Longrightarrow> lookahead (line_start l) = c_r \<Longrightarrow> offers valid p Q"
    and "valid OUTDENT \<Longrightarrow> Q OUTDENT (pos (line_start l))"
    and "indent_geometry s (line_indent l) \<Longrightarrow>
      E (line_indent l) \<and> E (to_int16 (line_indent l OR case_indent_flag))"
    and "\<And>m. runs l m \<Longrightarrow> code_column m > indent_width (prev_entry s) \<Longrightarrow>
      E (code_column m) \<and> E (to_int16 (code_column m OR case_indent_flag))"
  shows "answers Q E (indents s) (scala_scan s l valid)"
proof -
  have layout: "answers Q E (indents s) (scala_layout s (line_start l) valid nc (line_indent l))" for nc
    by (rule answers_scala_layout)
      (use assms in \<open>auto simp: line_start_def not_space_after intro: runs_trans [OF runs_advance_while [OF runs_refl]]\<close>)
  have using_tells: "tells Q (using_directive l)" if "valid USING_DIRECTIVE_START"
    using offers_valid [OF assms(2) that]
    by (auto simp: using_directive_def Let_def split_beta tells_def steady_def empty_token_def)
  obtain nc where c: "count_spaces 0 0 l = ((nc, line_indent l), line_start l)"
    using count_spaces_result by blast
  have "answers Q E (indents s) (scala_scan_impl s l valid)"
    unfolding scala_scan_impl_def c Let_def [of "((_, _), _)"] prod.case
    by (intro ans_rules using_tells layout refl) simp
  then show ?thesis by (auto simp: answers_def scala_scan_def split_beta Let_def)
qed

section \<open>Widths\<close>

lemma indent_width_plain: "0 \<le> w \<Longrightarrow> w < 0x4000 \<Longrightarrow> indent_width w = w"
proof -
  assume w: "0 \<le> w" "w < 0x4000"
  have "w AND 0x3FFF = take_bit 14 w" by (simp add: take_bit_eq_mask mask_eq_exp_minus_1)
  then show ?thesis using w by (simp add: indent_width_def take_bit_int_eq_self to_int16_id)
qed

lemma case_entry:
  assumes "0 \<le> w" and "w < 0x4000"
  shows "to_int16 (w OR case_indent_flag) = w + 0x4000"
    and "indent_width (to_int16 (w OR case_indent_flag)) = w"
proof -
  have m: "take_bit 14 w = w" using assms by (simp add: take_bit_int_eq_self)
  have "\<not> bit w 14" using m by (metis bit_take_bit_iff less_irrefl)
  then have "w AND 2 ^ 14 = 0" by (rule and_exp_eq_0_iff_not_bit [THEN iffD2])
  then have "w + 2 ^ 14 = w OR 2 ^ 14" by (rule disjunctive_add_eq_or)
  then have e: "w OR 0x4000 = w + 0x4000" by simp
  then show r: "to_int16 (w OR case_indent_flag) = w + 0x4000"
    using assms by (simp add: case_indent_flag_def to_int16_id)
  have "(w + 0x4000) AND 0x3FFF = take_bit 14 (w + 0x4000)" by (simp add: take_bit_eq_mask mask_eq_exp_minus_1)
  also have "\<dots> = w" using assms by (simp add: take_bit_eq_mod)
  finally show "indent_width (to_int16 (w OR case_indent_flag)) = w"
    using assms by (simp add: r indent_width_def to_int16_id)
qed

text \<open>The entries are widths or flagged widths, and an inner block is never narrower than an outer one.\<close>

definition stack_ok :: "int list \<Rightarrow> bool" where
  "stack_ok is \<longleftrightarrow> sorted (List.map indent_width is) \<and> list_all (\<lambda>e. 0 \<le> e \<and> e < 0x8000) is"

lemma stack_ok_butlast: "stack_ok is \<Longrightarrow> stack_ok (butlast is)"
  by (auto simp: stack_ok_def map_butlast list_all_iff sorted_butlast dest: in_set_butlastD)

lemma stack_ok_snoc:
  "stack_ok is \<Longrightarrow> 0 \<le> e \<Longrightarrow> e < 0x8000 \<Longrightarrow> is = [] \<or> indent_width (last is) \<le> indent_width e \<Longrightarrow>
    stack_ok (is @ [e])"
  by (cases "is" rule: rev_cases) (auto simp: stack_ok_def sorted_append)

lemma stack_ok_step:
  assumes "stack_ok is" and "scala_stack_step E is k js"
    and "\<And>e. E e \<Longrightarrow> 0 \<le> e \<and> e < 0x8000 \<and> (is = [] \<or> indent_width (last is) \<le> indent_width e)"
  shows "stack_ok js"
  using assms by (auto simp: scala_stack_step_def stack_ok_butlast intro!: stack_ok_snoc split: if_splits)

text \<open>Lines narrow enough for the two bits above a width to be free.\<close>

definition narrow :: "'k lexer \<Rightarrow> bool" where
  "narrow l \<longleftrightarrow> 0 \<le> line_indent l \<and> line_indent l < 0x4000 \<and> column (eof_cell l) < 0x4000 \<and>
     list_all (\<lambda>c. column c < 0x4000) (ahead l)"

lemma narrow_column:
  assumes "narrow l" and "runs l m"
  shows "code_column m = int (get_column m)" and "code_column m < 0x4000"
proof -
  have a: "ahead m = drop (pos m - pos l) (ahead l)" "eof_cell m = eof_cell l"
    using assms(2) by (simp_all add: runs_def)
  have "get_column m < 0x4000"
  proof (cases "ahead m")
    case Nil
    then show ?thesis using assms(1) a by (simp add: get_column_def narrow_def)
  next
    case (Cons c cs)
    then have "c \<in> set (ahead l)" using a(1) by (metis in_set_dropD list.set_intros(1))
    then show ?thesis using assms(1) Cons by (simp add: get_column_def narrow_def list_all_iff)
  qed
  then show "code_column m = int (get_column m)" "code_column m < 0x4000"
    by (simp_all add: code_column_def to_int16_id)
qed

section \<open>Closing several blocks\<close>

text \<open>A character that starts a line of its own: no comment, operator, backtick or closing bracket.\<close>

definition plain_start :: "code_point \<Rightarrow> bool" where
  "plain_start c \<longleftrightarrow>
     c \<notin> {0, c_slash, c_backtick, c_comma} \<and> \<not> is_space c \<and> \<not> is_op_char c \<and> \<not> close_bracket c"

definition saved_line :: "int \<Rightarrow> int \<Rightarrow> scala_token lexer \<Rightarrow> scala_scanner \<Rightarrow> bool" where
  "saved_line width nc l s \<longleftrightarrow>
     last_indentation_size s = width \<and> last_newline_count s = nc \<and>
     last_column s = code_column l \<and> last_char s = code_char l"

lemma first_outdent:
  assumes "text_ahead l = ws @ c # cs" and "list_all is_space ws" and "c_nl \<in> set ws" and "length ws < 32768"
    and "plain_start c" and "valid OUTDENT" and "last_indentation_size s = -1"
    and "int (indentation_of ws) < indent_width (prev_entry s)" and "m = advance_n True (length ws) l"
  shows "\<exists>s'. scala_scan s l valid = (True, s', set_result OUTDENT (mark_end m)) \<and>
    indents s' = butlast (indents s) \<and>
    saved_line (int (indentation_of ws)) (int (count_list ws c_nl)) m s'"
proof -
  define w where "w = int (indentation_of ws)"
  define nc where "nc = int (count_list ws c_nl)"
  have c: "c \<noteq> 0" "c \<noteq> c_slash" "c \<noteq> c_comma" "c \<noteq> c_backtick" "\<not> is_space c" "\<not> is_op_char c" "\<not> close_bracket c"
    using assms(5) by (auto simp: plain_start_def)
  have m: "lookahead m = c" "\<not> eof m"
    using text_ahead_advance_n [OF assms(1), of True] assms(9) c(1)
    by (auto simp: lookahead_hd0 eof_text)
  obtain d ds where ws: "ws = d # ds" using assms(3) by (cases ws) auto
  have "is_space (lookahead l)" using assms(1,2) ws by (simp add: lookahead_hd0)
  then have gt: "lookahead l \<noteq> c_gt" by (auto simp: is_space_def)
  have count: "count_spaces 0 0 l = ((nc, w), m)"
    using count_spaces_text [OF assms(1,2), of 0 0] c(5) assms(3,4,9) by (simp add: nc_def w_def)
  have nc: "0 < nc" using assms(3) by (simp add: nc_def count_list_0_iff zero_less_iff_neq_zero)
  have prev: "prev_entry s \<noteq> -1" "w < indent_width (prev_entry s)"
    using assms(8) by (auto simp: indent_width_def w_def)
  define t where "t = s\<lparr>last_indentation_size := -1\<rparr>"
  have t: "prev_entry t = prev_entry s" "indents t = indents s" by (simp_all add: t_def prev_entry_def)
  have layout: "scala_layout s m valid nc w = scala_outdent t m valid nc w"
    using c m prev nc assms(6,7)
    by (simp add: scala_layout_def in_case_cascade_def outdent_due_def indent_possible_def indent_geometry_def
        outdent_possible_def t t_def [symmetric] Let_def)
  have out: "scala_outdent t m valid nc w = close_block t (mark_end m) nc w False"
    using c m prev nc
    by (simp add: scala_outdent_def check_comment_at_layout_def case_region_close_def at_case_region_width_def t)
  have "is_leading_infix_continuation (mark_end m) = (False, mark_end m)"
    using c m by (simp add: is_leading_infix_continuation_def)
  with m c out layout count gt show ?thesis
    by (simp add: scala_scan_def scala_scan_impl_def close_block_def Let_def pop_indent_def t w_def nc_def
        saved_line_def code_column_def code_char_def)
qed

lemma next_outdent:
  assumes "plain_start (lookahead m)" and "valid OUTDENT" and "last_indentation_size s = w" and "0 \<le> w"
    and "w < indent_width (prev_entry s)"
  shows "\<exists>s'. scala_scan s m valid = (True, s', set_result OUTDENT m) \<and>
    indents s' = butlast (indents s) \<and>
    (\<forall>nc l. saved_line w nc l s \<longrightarrow> saved_line w nc l s')"
proof -
  have c: "lookahead m \<noteq> 0" "lookahead m \<noteq> c_comma" "\<not> is_space (lookahead m)" "lookahead m \<noteq> c_gt"
    using assms(1) by (auto simp: plain_start_def is_op_char_def)
  have prev: "prev_entry s \<noteq> -1" using assms(4,5) by (auto simp: indent_width_def)
  have "outdent_due s m valid" "\<not> in_case_cascade s m valid"
    using assms c prev by (auto simp: outdent_due_def in_case_cascade_def at_case_region_width_def)
  then show ?thesis
    using c by (simp add: scala_scan_def scala_scan_impl_def count_spaces_none scala_layout_def Let_def
        pop_indent_def saved_line_def)
qed

lemma no_more_outdent:
  assumes "plain_start (lookahead m)" and "saved_line w nc m s" and "tok_end m = None" and "0 < nc" and "nc < 32768"
    and "get_column m < 32768" and "0 \<le> w" and "indent_width (prev_entry s) \<le> w"
    and "\<not> at_case_region_width (prev_entry s) w"
    and "scala_scan s m valid = (True, s', l')"
  shows "result_symbol l' \<noteq> Some OUTDENT"
proof -
  define Q where "Q k e \<longleftrightarrow> k \<noteq> OUTDENT" for k :: scala_token and e :: nat
  have c: "lookahead m \<noteq> 0" "lookahead m \<noteq> c_comma" "\<not> is_space (lookahead m)" "lookahead m \<noteq> c_gt"
    "\<not> close_bracket (lookahead m)" "\<not> eof m"
    using assms(1) by (auto simp: plain_start_def is_op_char_def lookahead_eof)
  define t where "t = s\<lparr>last_indentation_size := -1\<rparr>"
  have offers: "offers valid p Q" for p
    by (auto simp: offers_def Q_def reportable_def empty_token_def)
  have rec: "recovered_newlines t m 0 = nc"
    using assms(2,4,5,6) c by (simp add: recovered_newlines_def t_def saved_line_def code_column_def to_int16_id)
  have st: "answers Q (\<lambda>e. True) (indents t) (scala_statement t m valid 0 0)"
    using answers_scala_statement [of valid m Q t 0 "\<lambda>e. True" 0] offers c assms(4)
    by (simp add: rec outdent_arm_def)
  have "scala_layout s m valid 0 0 = scala_statement t m valid 0 0"
    using c assms(2,7,8,9)
    by (simp add: scala_layout_def in_case_cascade_def outdent_due_def indent_possible_def
        outdent_possible_def case_region_close_def saved_line_def t_def [symmetric] Let_def)
  then have "answers Q (\<lambda>e. True) (indents s) (scala_scan_impl s m valid)"
    using c st by (simp add: scala_scan_impl_def count_spaces_none t_def)
  moreover have "snd (snd (scala_scan_impl s m valid)) = l'" "fst (scala_scan_impl s m valid)"
    using assms(10) by (auto simp: scala_scan_def split: prod.splits)
  ultimately show ?thesis by (auto simp: answers_def Q_def split: prod.splits)
qed

text \<open>The parser asks \<open>n\<close> times for an OUTDENT, each time from the end of the token before.\<close>

fun outdents ::
  "cell list \<Rightarrow> cell \<Rightarrow> (scala_token \<Rightarrow> bool) \<Rightarrow> nat \<Rightarrow> scala_scanner \<Rightarrow> nat \<Rightarrow> (scala_scanner \<times> nat) option" where
  "outdents cs e valid 0 s p = Some (s, p)"
| "outdents cs e valid (Suc n) s p =
     (case scala_scan s (lexer_at cs e p) valid of
        (True, s', l') \<Rightarrow> if result_symbol l' = Some OUTDENT then outdents cs e valid n s' (token_end l') else None
      | (False, s', l') \<Rightarrow> None)"

lemma outdents_add:
  "outdents cs e valid (m + n) s p =
     (case outdents cs e valid m s p of None \<Rightarrow> None | Some (s, p) \<Rightarrow> outdents cs e valid n s p)"
  by (induction m arbitrary: s p) (auto split: prod.split bool.split)

lemma outdents_rest:
  assumes "plain_start (lookahead (lexer_at cs e p :: scala_token lexer))" and "valid OUTDENT" and "0 \<le> w"
    and "saved_line w nc (lexer_at cs e p) s" and "indents s = outer @ inner"
    and "\<forall>e \<in> set inner. w < indent_width e"
  shows "\<exists>s'. outdents cs e valid (length inner) s p = Some (s', p) \<and> indents s' = outer \<and>
    saved_line w nc (lexer_at cs e p) s'"
  using assms(4-6)
proof (induction inner arbitrary: s rule: rev_induct)
  case (snoc x xs)
  have "prev_entry s = x" using snoc.prems(2) by (simp add: prev_entry_def)
  then obtain s1 where s1: "scala_scan s (lexer_at cs e p) valid = (True, s1, set_result OUTDENT (lexer_at cs e p))"
    "indents s1 = outer @ xs" "saved_line w nc (lexer_at cs e p) s1"
    using next_outdent [of "lexer_at cs e p" valid s w] assms(1-3) snoc.prems by (auto simp: saved_line_def butlast_append)
  then show ?case
    using snoc.IH [OF s1(3,2)] snoc.prems(3) by (simp add: token_end_def)
qed simp

section \<open>Properties\<close>

text \<open>At the end of the input the line feeds before it are not saved: the outdent that is due there comes
before the code that saves them (and that would save a column of -1 at the end of the input).\<close>

lemma scala_eof_outdent:
  assumes "eof (line_start l)" and "valid OUTDENT" and "lookahead l \<noteq> c_gt"
  shows "\<exists>l'. scala_scan s l valid = (True, (pop_indent s)\<lparr>after_colon_eol := 0\<rparr>, l')"
proof -
  obtain nc where c: "count_spaces 0 0 l = ((nc, line_indent l), line_start l)"
    using count_spaces_result by blast
  have z: "lookahead (line_start l) = 0" by (rule lookahead_eof [OF assms(1)])
  then have "outdent_due s (line_start l) valid" using assms(2) by (simp add: outdent_due_def)
  moreover have "is_case_clause_intro (mark_end (line_start l)) = (False, mark_end (line_start l))"
    using z by (simp add: is_case_clause_intro_def scan_word_def)
  ultimately have "\<exists>l'. scala_layout s (line_start l) valid nc (line_indent l) = (True, pop_indent s, set_result OUTDENT l')"
    using z by (auto simp: scala_layout_def case_cascade_def)
  then show ?thesis using assms(3) by (auto simp: scala_scan_def scala_scan_impl_def c pop_indent_def)
qed

text \<open>C7. The stack of indentations follows the tokens. A failed scan leaves it as it was; INDENT pushes
one entry, OUTDENT and COMMA_OUTDENT take one away, every other token keeps it. The token is one that the
parser can use (or the end or the longer start of a string one of whose tokens it can use), and the layout
tokens are empty: they end at the first character behind the white space. The one exception is a scan that
first tried to read \<open>raw"\<close>.\<close>

theorem scala_layout_protocol:
  assumes "tok_end l = None"
  shows "case scala_scan s l valid of
      (False, s', l') \<Rightarrow> indents s' = indents s
    | (True, s', l') \<Rightarrow> \<exists>k. result_symbol l' = Some k \<and> reportable valid k \<and>
        scala_stack_step (\<lambda>e. True) (indents s) k (indents s') \<and>
        (empty_token k \<and> token_end l' \<noteq> pos (line_start l) \<longrightarrow>
          valid RAW_STRING_START \<and> lookahead (line_start l) = c_r)"
proof -
  define Q where "Q k e \<longleftrightarrow> reportable valid k \<and> (empty_token k \<and> e \<noteq> pos (line_start l) \<longrightarrow>
      valid RAW_STRING_START \<and> lookahead (line_start l) = c_r)" for k e
  have "offers valid (pos (line_start l)) Q" "valid OUTDENT \<Longrightarrow> Q OUTDENT (pos (line_start l))"
    "\<And>p. valid RAW_STRING_START \<Longrightarrow> lookahead (line_start l) = c_r \<Longrightarrow> offers valid p Q"
    by (auto simp: offers_def Q_def reportable_def)
  then have "answers Q (\<lambda>e. True) (indents s) (scala_scan s l valid)"
    using assms by (intro answers_scala_scan) simp_all
  then show ?thesis by (auto simp: answers_def Q_def split: prod.split bool.split)
qed

theorem scala_layout_protocol_witness:
  "\<exists>s' l'. scala_scan scala_create (lexer_on [10, 32, 32, 120]) (\<lambda>k. k = INDENT) = (True, s', l') \<and>
    indents s' = [2] \<and> token_end l' = 3"
proof -
  have "fst (scala_scan scala_create (lexer_on [10, 32, 32, 120]) (\<lambda>k. k = INDENT))"
    "pos (line_start (lexer_on [10, 32, 32, 120] :: scala_token lexer)) = 3"
    "indents (fst (snd (scala_scan scala_create (lexer_on [10, 32, 32, 120]) (\<lambda>k. k = INDENT)))) = [2]"
    by code_simp+
  then show ?thesis
    using scala_layout_protocol [of "lexer_on [10, 32, 32, 120]" "\<lambda>k. k = INDENT" scala_create]
    by (auto simp: reportable_def empty_token_def scala_stack_step_def scala_create_def split: prod.splits bool.splits)
qed

text \<open>C33. Inner blocks are never narrower than outer ones: as long as no line is indented by 16384
columns or more, every scan keeps the stack sorted by width, with entries that a 16 bit integer holds.\<close>

theorem scala_stack_sorted:
  assumes "stack_ok (indents s)" and "tok_end l = None" and "narrow l"
  shows "stack_ok (indents (fst (snd (scala_scan s l valid))))"
proof -
  define E where "E e \<longleftrightarrow> 0 \<le> e \<and> e < 0x8000 \<and> (indents s = [] \<or> indent_width (last (indents s)) \<le> indent_width e)" for e
  have width: "E w \<and> E (to_int16 (w OR case_indent_flag))"
    if "0 \<le> w" "w < 0x4000" "indents s \<noteq> [] \<Longrightarrow> indent_width (prev_entry s) \<le> w" for w
  proof -
    have "indent_width (w + 0x4000) = w" using case_entry [OF that(1,2)] by simp
    then show ?thesis using that by (auto simp: E_def indent_width_plain case_entry(1) prev_entry_def)
  qed
  have "answers (\<lambda>k e. True) E (indents s) (scala_scan s l valid)"
  proof (rule answers_scala_scan)
    show "cases_open E s (line_indent l)"
      using width [of "line_indent l"] assms(3) by (auto simp: narrow_def)
    show "E (line_indent l) \<and> E (to_int16 (line_indent l OR case_indent_flag))" if "indent_geometry s (line_indent l)"
      using width [of "line_indent l"] assms(3) that by (auto simp: narrow_def indent_geometry_def)
    show "E (code_column m) \<and> E (to_int16 (code_column m OR case_indent_flag))"
      if "runs l m" "code_column m > indent_width (prev_entry s)" for m
      using width [of "code_column m"] narrow_column [OF assms(3) that(1)] that(2) by auto
  qed (simp_all add: assms(2) offers_def)
  then show ?thesis
    using assms(1) stack_ok_step [of "indents s" E]
    by (auto simp: answers_def E_def split: prod.splits if_splits)
qed

theorem scala_stack_sorted_witness:
  "stack_ok (indents (fst (snd (scala_scan (scala_create\<lparr>indents := [0, 0x4000]\<rparr>)
      (lexer_on [10, 32, 32, 120]) (\<lambda>k. k = INDENT)))))"
proof (rule scala_stack_sorted)
  show "stack_ok (indents (scala_create\<lparr>indents := [0, 0x4000]\<rparr>))"
    "narrow (lexer_on [10, 32, 32, 120] :: scala_token lexer)" by code_simp+
qed simp

text \<open>C4. A line that starts left of some blocks closes exactly these, one OUTDENT each, all at its first
character: where the white space before a line has a line feed, the line does not start with a comment, an
operator or a closing bracket, no outdent of an earlier line is pending, \<open>inner\<close> are the blocks wider than the
line is indented, and the last block of \<open>outer\<close> is no case region of the width of the line, the parser gets
\<open>length inner\<close> OUTDENTs and not one more, and the blocks \<open>outer\<close> stay open.\<close>

theorem scala_outdent_cascade:
  assumes "drop p (List.map cp cs) = ws @ c # rest" and "list_all is_space ws" and "c_nl \<in> set ws"
    and "length ws < 32768" and "plain_start c" and "column (cs ! (p + length ws)) < 32768"
    and "valid OUTDENT" and "last_indentation_size s = -1" and "indents s = outer @ inner" and "inner \<noteq> []"
    and "\<forall>e \<in> set inner. int (indentation_of ws) < indent_width e"
    and "outer = [] \<or> indent_width (last outer) \<le> int (indentation_of ws) \<and>
      \<not> at_case_region_width (last outer) (int (indentation_of ws))"
  shows "\<exists>s'. outdents cs e valid (length inner) s p = Some (s', p + length ws) \<and> indents s' = outer \<and>
    outdents cs e valid (Suc (length inner)) s p = None"
proof -
  define q where "q = p + length ws"
  define w where "w = int (indentation_of ws)"
  define nc where "nc = int (count_list ws c_nl)"
  let ?l = "lexer_at cs e p :: scala_token lexer"
  let ?m = "lexer_at cs e q :: scala_token lexer"
  define m where "m = advance_n True (length ws) ?l"
  have l: "text_ahead ?l = ws @ c # rest" using assms(1) by (simp add: drop_map)
  have am: "ahead m = drop q cs" "eof_cell m = e" "pos m = q"
    using pos_advance_n_text [OF l] by (simp_all add: m_def q_def add.commute)
  have tm: "text_ahead ?m = c # rest"
    using text_ahead_advance_n [OF l, of True] am(1) by (simp add: m_def)
  have look: "lookahead ?m = c" using tm by (rule lookahead_Cons)
  have same: "saved_line w nc m t = saved_line w nc ?m t" for t
    using am by (simp add: saved_line_def code_column_def code_char_def get_column_def lookahead_def split: list.split)
  obtain x xs where inner: "inner = xs @ [x]" using assms(10) by (cases inner rule: rev_cases) auto
  have "prev_entry s = x" using assms(9) inner by (simp add: prev_entry_def)
  then have "int (indentation_of ws) < indent_width (prev_entry s)" using assms(11) inner by simp
  then obtain s1 where s1: "scala_scan s ?l valid = (True, s1, set_result OUTDENT (mark_end m))"
    "indents s1 = outer @ xs" "saved_line w nc m s1"
    using first_outdent [OF l assms(2-5), of valid s m] assms(7-9) inner
    unfolding w_def [symmetric] nc_def [symmetric] m_def [symmetric]
    by (metis butlast_append butlast_snoc append_assoc snoc_eq_iff_butlast)
  obtain s2 where s2: "outdents cs e valid (length xs) s1 q = Some (s2, q)" "indents s2 = outer"
    "saved_line w nc ?m s2"
    using outdents_rest [of cs e q valid w nc s1 outer xs] s1 assms(5,7,11) inner look same by (auto simp: w_def)
  have first: "outdents cs e valid (length inner) s p = Some (s2, q)"
    using s1(1) s2(1) inner am(3) by (simp add: token_end_def)
  have "get_column ?m < 32768"
    using tm assms(6) by (cases "drop q cs") (auto simp: get_column_def q_def nth_via_drop)
  moreover have "0 < nc" "nc < 32768" "0 \<le> w"
    using assms(3,4) count_le_length [of ws c_nl]
    by (simp_all add: nc_def w_def count_list_0_iff zero_less_iff_neq_zero)
  moreover have "indent_width (prev_entry s2) \<le> w" "\<not> at_case_region_width (prev_entry s2) w"
    using assms(12) s2(2) by (auto simp: prev_entry_def w_def indent_width_def at_case_region_width_def)
  ultimately have "result_symbol l' \<noteq> Some OUTDENT" if "scala_scan s2 ?m valid = (True, s', l')" for s' l'
    using no_more_outdent [of ?m w nc s2 valid s' l'] s2(3) look assms(5) that by simp
  then have "outdents cs e valid 1 s2 q = None" by (auto split: prod.split bool.split)
  then have "outdents cs e valid (Suc (length inner)) s p = None"
    unfolding Suc_eq_plus1 outdents_add first by simp
  then show ?thesis using first s2(2) by (auto simp: q_def)
qed

theorem scala_outdent_cascade_witness:
  "\<exists>s'. outdents (cells_of 0 [10, 32, 120]) end_cell (\<lambda>k. k = OUTDENT) 2
      (scala_create\<lparr>indents := [0, 2, 4]\<rparr>) 0 = Some (s', 2) \<and> indents s' = [0]"
proof -
  have [simp]: "indent_width 0 = 0" "indent_width 2 = 2" "indent_width 4 = 4" "indentation_of [10, 32] = 1"
    "plain_start 120"
    by code_simp+
  show ?thesis
    using scala_outdent_cascade [of 0 "cells_of 0 [10, 32, 120]" "[10, 32]" 120 "[]" "\<lambda>k. k = OUTDENT"
        "scala_create\<lparr>indents := [0, 2, 4]\<rparr>" "[0]" "[2, 4]" end_cell]
    by (auto simp: scala_create_def is_space_def at_case_region_width_def eval_nat_numeral simp del: outdents.simps)
qed

text \<open>C34. A block comment nests and needs no end: in a line, where no text of a string can follow, the scan
takes \<open>/*\<close> up to the \<open>*/\<close> that the reference reader finds for it, and the rest of the input if there is
none.\<close>

theorem scala_block_comment:
  assumes "text_ahead l = c_slash # c_star # cs" and "valid BLOCK_COMMENT"
    and "valid ERROR_SENTINEL \<or> \<not> comment_is_text valid"
    and "last_indentation_size s = -1" and "last_newline_count s = 0"
  shows "\<exists>l'. scala_scan s l valid = (True, s, l') \<and> result_symbol l' = Some BLOCK_COMMENT \<and>
    token_end l' = pos l + 2 + (case comment_close (\<lambda>c. False) 1 cs of None \<Rightarrow> length cs | Some n \<Rightarrow> n)"
proof -
  note t1 = text_ahead_ConsD [OF assms(1)]
  note t2 = text_ahead_ConsD [OF t1(1) [where b = False]]
  define m where "m = advance (advance l)"
  have sp: "\<not> is_space (lookahead l)" using t1(2) by (simp add: is_space_def)
  have op: "\<not> is_op_char (lookahead l)" using t1(2) by (simp add: is_op_char_def)
  have s: "s\<lparr>last_indentation_size := -1\<rparr> = s" "s\<lparr>last_newline_count := 0\<rparr> = s"
    using assms(4,5) by simp_all
  have none: "recovered_newlines s l 0 = 0" "\<not> outdent_arm s l valid 0" "\<not> modifier_arm l valid"
    "\<not> operator_branch l valid"
    using assms(5) t1(2) op
    by (simp_all add: recovered_newlines_def outdent_arm_def modifier_arm_def soft_modifiers_def operator_branch_def)
  have "scala_tokens s l valid 0 0 = (let (b, l) = lex_block_comment m in (b, s, l))"
    using t1(2) t2(2) assms(2,3) none sp
    by (auto simp: scala_tokens_def count_newlines_none is_digit_def m_def)
  moreover have "scala_layout s l valid 0 0 = scala_tokens s l valid 0 0"
    using t1(2) assms(4) none
    by (simp add: scala_layout_def in_case_cascade_def outdent_due_def close_bracket_def indent_possible_def
        outdent_possible_def case_region_close_def scala_statement_def s)
  moreover have "scala_scan_impl s l valid = scala_layout s l valid 0 0"
    using t1(2) sp by (simp add: scala_scan_impl_def count_spaces_none)
  ultimately have "scala_scan s l valid =
      (True, s, set_result BLOCK_COMMENT (mark_end (consume_block_comment_body m)))"
    by (simp add: scala_scan_def lex_block_comment_def finish_block_comment_def)
  moreover have "pos (consume_block_comment_body m) = pos m + comment_length 1 cs"
  proof -
    have "comment_length 1 cs \<le> length cs"
      by (auto simp: comment_length_def dest: comment_close_le split: option.split)
    moreover have "length cs = remaining m"
      using arg_cong [OF t2(1) [where b = False], of length] by (simp add: m_def)
    ultimately show ?thesis
      using t2(1) by (simp add: consume_block_comment_body_text pos_advance_n m_def)
  qed
  moreover have "pos m = pos l + 2" using t1(4) t2(4) by (simp add: m_def)
  ultimately show ?thesis by (simp add: comment_length_def split: option.split)
qed

theorem scala_block_comment_witness:
  "\<exists>l'. scala_scan scala_create (lexer_on (codes ''/* /* x */ */ y'')) (\<lambda>k. k = BLOCK_COMMENT) =
      (True, scala_create, l') \<and> result_symbol l' = Some BLOCK_COMMENT \<and> token_end l' = 13"
proof -
  have t: "codes ''/* /* x */ */ y'' = c_slash # c_star # codes '' /* x */ */ y''" by code_simp
  have c: "comment_close (\<lambda>c. False) 1 (codes '' /* x */ */ y'') = Some 11" by code_simp
  show ?thesis
    using scala_block_comment [of "lexer_on (codes ''/* /* x */ */ y'')" "codes '' /* x */ */ y''"
        "\<lambda>k. k = BLOCK_COMMENT" scala_create] t c
    by (simp add: comment_is_text_def scala_create_def)
qed

text \<open>C35. The state survives the buffer while there are at most 507 open blocks; with more of them nothing is
written, and the next scan starts with no block open.\<close>

theorem scala_roundtrip:
  assumes "scala_int16 s"
  shows "scala_deserialize t (scala_serialize s) =
    Some (if length (indents s) \<le> 507 then s else scala_create)"
proof (cases "length (indents s) \<le> 507")
  case True
  then show ?thesis using assms by (simp add: scala_deserialize_serialize scala_storable_def)
next
  case False
  then have "scala_serialize s = []" by (simp add: scala_serialize_def serialization_buffer_size_def)
  then show ?thesis using False by (simp add: scala_deserialize_def)
qed

theorem scala_roundtrip_witness:
  "scala_deserialize scala_create (scala_serialize (scala_create\<lparr>indents := replicate 508 2\<rparr>)) = Some scala_create \<and>
   scala_deserialize scala_create (scala_serialize (scala_create\<lparr>indents := [0, 0x4000]\<rparr>)) =
     Some (scala_create\<lparr>indents := [0, 0x4000]\<rparr>)"
  using scala_roundtrip [of "scala_create\<lparr>indents := replicate 508 2\<rparr>" scala_create]
    scala_roundtrip [of "scala_create\<lparr>indents := [0, 0x4000]\<rparr>" scala_create]
  by (simp add: scala_int16_def scala_create_def int16_def list_all_iff)

text \<open>One of the states of the generated parser, by the tokens it can use: an expression, or the keyword
that goes on with a control expression.\<close>

definition expression_state :: "scala_token \<Rightarrow> bool" where
  "expression_state k \<longleftrightarrow>
     k \<in> {SIMPLE_STRING_START, SIMPLE_MULTILINE_STRING_START, RAW_STRING_START, BLOCK_COMMENT,
          FLOATING_POINT_WITH_SEPARATORS, CONTROL_TAIL_GATE, XML_TAG_START, INLINE_MODIFIER, OP_LEFT_OR,
          OP_LEFT_XOR, OP_LEFT_AND, OP_LEFT_EQ, OP_LEFT_REL, OP_LEFT_COLON, OP_LEFT_ADD, OP_LEFT_MUL,
          OP_LEFT_OTHER}"

text \<open>An identifier may be torn apart: where both a raw string and the keyword behind a control
expression can follow, the attempt to read \<open>raw"\<close> leaves the cursor behind the letters it took, and a
keyword is looked for there. An identifier that is one of \<open>catch\<close>, \<open>else\<close>, \<open>finally\<close>, \<open>then\<close>, \<open>yield\<close> behind
an r is reported as the gate in front of that keyword, and the gate, which should be empty, takes the r.\<close>

theorem scala_raw_prefix_gate:
  "list_all (\<lambda>w. case scala_scan scala_create (lexer_on (c_r # codes w)) expression_state of
     (b, s', l') \<Rightarrow> b \<and> result_symbol l' = Some CONTROL_TAIL_GATE \<and> token_end l' = 1) tail_words"
  by code_simp

end
