(* ===== verification/Cfml_Tags.thy ===== *)
theory Cfml_Tags
  imports Scanner_Interface
begin

text \<open>
  \<^verbatim>\<open>codegraph-kernel/grammars/cfml-common/tag.h\<close>: the types of the tags of CFML, by name, and the few
  functions on them that the scanner uses.
\<close>

section \<open>Types of tags\<close>

text \<open>
  The enumeration \<open>TagType\<close> has a constant for each HTML element, spelt like the element. Here these
  constants are \<open>ELEMENT\<close> of the name, and \<open>tag_types\<close> lists all constants in the order of the enumeration:
  the number of a constant is its place in this list. \<open>END_TYPE\<close> is the last one, \<open>END_\<close> in C.
\<close>

datatype tag_type =
    ELEMENT string
  | END_OF_VOID_TAGS | CUSTOM | DYNAMIC | CFML | CF_VOID | CF_SET | CF_RETURN | CF_IF | CF_ELSEIF
  | CF_ELSE | CF_OUTPUT | CF_FUNCTION | CF_QUERY | CF_XML | CF_SCRIPT | CF_SAVECONTENT | END_TYPE

definition void_elements :: "string list" where
  "void_elements =
      [''AREA'', ''BASE'', ''BASEFONT'', ''BGSOUND'', ''BR'', ''COL'', ''COMMAND'', ''EMBED'',
       ''FRAME'', ''HR'', ''IMAGE'', ''IMG'', ''INPUT'', ''ISINDEX'', ''KEYGEN'', ''LINK'',
       ''MENUITEM'', ''META'', ''NEXTID'', ''PARAM'', ''SOURCE'', ''TRACK'', ''WBR'']"

definition other_elements :: "string list" where
  "other_elements =
      [''A'', ''ABBR'', ''ADDRESS'', ''ARTICLE'', ''ASIDE'', ''AUDIO'', ''B'', ''BDI'', ''BDO'',
       ''BLOCKQUOTE'', ''BODY'', ''BUTTON'', ''CANVAS'', ''CAPTION'', ''CITE'', ''CODE'',
       ''COLGROUP'', ''DATA'', ''DATALIST'', ''DD'', ''DEL'', ''DETAILS'', ''DFN'', ''DIALOG'',
       ''DIV'', ''DL'', ''DT'', ''EM'', ''FIELDSET'', ''FIGCAPTION'', ''FIGURE'', ''FOOTER'',
       ''FORM'', ''H1'', ''H2'', ''H3'', ''H4'', ''H5'', ''H6'', ''HEAD'', ''HEADER'', ''HGROUP'',
       ''HTML'', ''I'', ''IFRAME'', ''INS'', ''KBD'', ''LABEL'', ''LEGEND'', ''LI'', ''MAIN'',
       ''MAP'', ''MARK'', ''MATH'', ''MENU'', ''METER'', ''NAV'', ''NOSCRIPT'', ''OBJECT'', ''OL'',
       ''OPTGROUP'', ''OPTION'', ''OUTPUT'', ''P'', ''PICTURE'', ''PRE'', ''PROGRESS'', ''Q'',
       ''RB'', ''RP'', ''RT'', ''RTC'', ''RUBY'', ''S'', ''SAMP'', ''SCRIPT'', ''SECTION'',
       ''SELECT'', ''SLOT'', ''SMALL'', ''SPAN'', ''STRONG'', ''STYLE'', ''SUB'', ''SUMMARY'',
       ''SUP'', ''SVG'', ''TABLE'', ''TBODY'', ''TD'', ''TEMPLATE'', ''TEXTAREA'', ''TFOOT'',
       ''TH'', ''THEAD'', ''TIME'', ''TITLE'', ''TR'', ''U'', ''UL'', ''VAR'', ''VIDEO'']"

definition tag_types :: "tag_type list" where
  "tag_types =
     List.map ELEMENT void_elements @
     [END_OF_VOID_TAGS, CUSTOM, DYNAMIC, CFML, CF_VOID, CF_SET, CF_RETURN, CF_IF, CF_ELSEIF, CF_ELSE,
      CF_OUTPUT, CF_FUNCTION, CF_QUERY, CF_XML, CF_SCRIPT, CF_SAVECONTENT] @
     List.map ELEMENT other_elements @ [END_TYPE]"

definition type_number :: "tag_type \<Rightarrow> nat" where
  "type_number t = length (takeWhile (\<lambda>u. u \<noteq> t) tag_types)"

text \<open>The types that are constants of the enumeration.\<close>

definition known_type :: "tag_type \<Rightarrow> bool" where
  "known_type t \<longleftrightarrow> t \<in> set tag_types"

section \<open>Tags\<close>

text \<open>A name is an \<open>Array(char)\<close>; \<open>html_depth\<close> is an \<open>unsigned\<close>.\<close>

record tag =
  tag_kind :: tag_type
  tag_name :: "byte list"
  html_depth :: "32 word"

definition name_is :: "byte list \<Rightarrow> string \<Rightarrow> bool" where
  "name_is name s \<longleftrightarrow> name = List.map to_char (codes s)"

definition tag_new :: tag where
  "tag_new = \<lparr>tag_kind = END_TYPE, tag_name = [], html_depth = 0\<rparr>"

text \<open>\<open>TAG_TYPES_BY_TAG_NAME\<close>: every constant under its own name, and the name \<open>CUSTOM\<close>.\<close>

definition tag_types_by_tag_name :: "(string \<times> tag_type) list" where
  "tag_types_by_tag_name =
     List.map (\<lambda>n. (n, ELEMENT n)) (void_elements @ other_elements) @ [(''CUSTOM'', CUSTOM)]"

definition tag_type_for_name :: "byte list \<Rightarrow> tag_type" where
  "tag_type_for_name name =
     (case List.find (\<lambda>(n, _). name_is name n) tag_types_by_tag_name of
        Some (_, t) \<Rightarrow> t | None \<Rightarrow> CUSTOM)"

definition cf_void_tags :: "string list" where
  "cf_void_tags =
      [''COMPONENT'', ''PARAM'', ''ARGUMENT'', ''PROPERTY'', ''RETHROW'', ''THROW'', ''SCHEDULE'',
       ''HTTPPARAM'', ''QUERYPARAM'', ''TIMER'', ''FLUSH'', ''LOGOUT'', ''ZIPELEMENT'', ''BREAK'',
       ''CONTINUE'', ''ABORT'', ''EXIT'', ''INCLUDE'', ''LOCATION'', ''HEADER'', ''DUMP'',
       ''CONTENT'', ''COOKIE'', ''LOG'', ''FILE'', ''DIRECTORY'', ''WDDX'', ''AUTHENTICATE'',
       ''NTAUTHENTICATE'', ''REPORTPARAM'', ''PROCPARAM'', ''PROCRESULT'', ''INVOKEARGUMENT'',
       ''SPREADSHEET'', ''PDFPARAM'', ''PDFFORMPARAM'', ''PDFSUBFORM'', ''MAILPARAM'', ''GRIDROW'',
       ''GRIDUPDATE'', ''IMAGE'', ''TREEITEM'', ''MENUITEM'', ''MAPLOCATION'', ''PRESENTERITEM'',
       ''IMPORT'', ''TRACE'', ''GRIDCOLUMN'', ''OBJECT'']"

definition cf_tag_name_in :: "byte list \<Rightarrow> string list \<Rightarrow> bool" where
  "cf_tag_name_in name names \<longleftrightarrow> list_ex (name_is name) names"

text \<open>The chain of comparisons of \<open>cf_tag_for_name\<close>.\<close>

definition cf_types :: "(string \<times> tag_type) list" where
  "cf_types =
     [(''SET'', CF_SET), (''RETURN'', CF_RETURN), (''OUTPUT'', CF_OUTPUT), (''FUNCTION'', CF_FUNCTION),
      (''IF'', CF_IF), (''ELSEIF'', CF_ELSEIF), (''ELSE'', CF_ELSE), (''XML'', CF_XML), (''QUERY'', CF_QUERY),
      (''SCRIPT'', CF_SCRIPT), (''SAVECONTENT'', CF_SAVECONTENT)]"

definition cf_type_for_name :: "byte list \<Rightarrow> tag_type" where
  "cf_type_for_name name =
     (case List.find (\<lambda>(n, _). name_is name n) cf_types of
        Some (_, t) \<Rightarrow> t
      | None \<Rightarrow> if cf_tag_name_in name cf_void_tags then CF_VOID else CFML)"

definition cf_tag_for_name :: "byte list \<Rightarrow> tag" where
  "cf_tag_for_name name = tag_new\<lparr>tag_kind := cf_type_for_name name, tag_name := name\<rparr>"

definition tag_for_name :: "byte list \<Rightarrow> tag" where
  "tag_for_name name =
     (if tag_type_for_name name = CUSTOM then tag_new\<lparr>tag_kind := CUSTOM, tag_name := name\<rparr>
      else tag_new\<lparr>tag_kind := tag_type_for_name name\<rparr>)"

definition tag_is_void :: "tag \<Rightarrow> bool" where
  "tag_is_void self \<longleftrightarrow> type_number (tag_kind self) < type_number END_OF_VOID_TAGS"

definition cf_tag_is_void :: "tag \<Rightarrow> bool" where
  "cf_tag_is_void self \<longleftrightarrow> tag_kind self = CF_VOID"

definition self_closing_elements :: "string list" where
  "self_closing_elements =
      [''P'', ''LI'', ''DT'', ''DD'', ''TD'', ''TH'', ''TR'', ''THEAD'', ''TBODY'', ''TFOOT'',
       ''COLGROUP'', ''OPTION'', ''OPTGROUP'', ''HEAD'', ''BODY'', ''HTML'', ''RB'', ''RP'', ''RT'',
       ''RTC'']"

definition tag_implicitly_closes_self :: "tag \<Rightarrow> bool" where
  "tag_implicitly_closes_self self \<longleftrightarrow> tag_kind self \<in> ELEMENT ` set self_closing_elements"

text \<open>The types whose tags carry their name; the condition is the same in \<open>tag_eq\<close>, \<open>tag_free\<close> and
\<open>tag_has_name\<close> of the scanner.\<close>

definition named_types :: "tag_type list" where
  "named_types =
     [CUSTOM, CFML, CF_VOID, CF_XML, CF_QUERY, CF_SCRIPT, CF_SAVECONTENT, CF_OUTPUT, CF_FUNCTION, CF_SET,
      CF_RETURN, CF_IF, CF_ELSEIF, CF_ELSE]"

definition tag_has_name :: "tag_type \<Rightarrow> bool" where
  "tag_has_name t \<longleftrightarrow> t \<in> set named_types"

definition tag_eq :: "tag \<Rightarrow> tag \<Rightarrow> bool" where
  "tag_eq self other \<longleftrightarrow>
     tag_kind self = tag_kind other \<and> (tag_has_name (tag_kind self) \<longrightarrow> tag_name self = tag_name other)"

end
