(* ===== verification/Cfml_Text.thy ===== *)
theory Cfml_Text
  imports Cfml_Tags Cfscript
begin

text \<open>
  The readers of \<^verbatim>\<open>codegraph-kernel/grammars/cfml-common/scanner.h\<close>, the scanner that CFML and CFQuery
  share: its tokens and state, tag names, comments, text, the content of tags that are not parsed, and the
  automatic semicolon. White space with script comments and the table of word operators are verbatim copies
  of functions of \<^verbatim>\<open>cfscript/scanner.c\<close>, and so are theirs here.
\<close>

section \<open>Tokens and state\<close>

datatype (plugins only: code size) cfml_token =
    AUTOMATIC_SEMICOLON | TERNARY_QMARK | ELVIS_OPERATOR | LOGICAL_OR | CF_START_TAG_NAME | CF_END_TAG_NAME
  | ERRONEOUS_CF_END_TAG_NAME | CF_SELF_CLOSING_TAG_DELIMITER | CF_SELF_CLOSING_VOID_TAG_DELIMITER
  | IMPLICIT_CF_END_TAG | RAW_TEXT | CFML_COMMENT | CLOSE_TAG_DELIM | CLOSE_CF_TAG_DELIM | HTML_TEXT
  | CF_VOID_START_TAG_NAME | CF_SET_START_TAG_NAME | CF_IF_START_TAG_NAME | CF_IF_END_TAG_NAME
  | CF_ELSEIF_TAG_NAME | CF_ELSE_TAG_NAME | CF_RETURN_START_TAG_NAME | CF_OUTPUT_START_TAG_NAME
  | SCRIPT_START_TAG_NAME | STYLE_START_TAG_NAME | START_TAG_NAME | END_TAG_NAME | ERRONEOUS_END_TAG_NAME
  | SELF_CLOSING_TAG_DELIMITER | IMPLICIT_END_TAG | START_HASH_EXPRESSION | SINGLE_HASH | HASH_EMPTY
  | CF_XML_START_TAG_NAME | CF_XML_END_TAG_NAME | CF_XML_CONTENT | CF_QUERY_START_TAG_NAME
  | CF_QUERY_END_TAG_NAME | CF_QUERY_CONTENT | CF_SCRIPT_START_TAG_NAME | CF_SCRIPT_END_TAG_NAME
  | CF_SCRIPT_CONTENT | CF_SAVECONTENT_START_TAG_NAME | CF_SAVECONTENT_END_TAG_NAME
  | CF_SAVECONTENT_BODY_CFML | CF_SAVECONTENT_BODY_HTML | CF_SAVECONTENT_BODY_SCRIPT
  | CF_SAVECONTENT_BODY_CSS | CF_SAVECONTENT_BODY_XML | CF_SAVECONTENT_BODY_SQL | CF_SAVECONTENT_BODY_RAW
  | CF_SAVECONTENT_CONTENT | CF_FUNCTION_START_TAG_NAME | CF_FUNCTION_END_TAG_NAME
  | CF_COMPONENT_START_TAG_NAME | CF_COMPONENT_END_TAG_NAME | CF_COMPONENT_CONTENT

text \<open>The tokens in the order of the enumeration. \<open>count\<close> is how many of them a dialect knows.\<close>

definition cfml_tokens :: "cfml_token list" where
  "cfml_tokens =
     [AUTOMATIC_SEMICOLON, TERNARY_QMARK, ELVIS_OPERATOR, LOGICAL_OR, CF_START_TAG_NAME, CF_END_TAG_NAME,
      ERRONEOUS_CF_END_TAG_NAME, CF_SELF_CLOSING_TAG_DELIMITER, CF_SELF_CLOSING_VOID_TAG_DELIMITER,
      IMPLICIT_CF_END_TAG, RAW_TEXT, CFML_COMMENT, CLOSE_TAG_DELIM, CLOSE_CF_TAG_DELIM, HTML_TEXT,
      CF_VOID_START_TAG_NAME, CF_SET_START_TAG_NAME, CF_IF_START_TAG_NAME, CF_IF_END_TAG_NAME,
      CF_ELSEIF_TAG_NAME, CF_ELSE_TAG_NAME, CF_RETURN_START_TAG_NAME, CF_OUTPUT_START_TAG_NAME,
      SCRIPT_START_TAG_NAME, STYLE_START_TAG_NAME, START_TAG_NAME, END_TAG_NAME, ERRONEOUS_END_TAG_NAME,
      SELF_CLOSING_TAG_DELIMITER, IMPLICIT_END_TAG, START_HASH_EXPRESSION, SINGLE_HASH, HASH_EMPTY,
      CF_XML_START_TAG_NAME, CF_XML_END_TAG_NAME, CF_XML_CONTENT, CF_QUERY_START_TAG_NAME,
      CF_QUERY_END_TAG_NAME, CF_QUERY_CONTENT, CF_SCRIPT_START_TAG_NAME, CF_SCRIPT_END_TAG_NAME,
      CF_SCRIPT_CONTENT, CF_SAVECONTENT_START_TAG_NAME, CF_SAVECONTENT_END_TAG_NAME,
      CF_SAVECONTENT_BODY_CFML, CF_SAVECONTENT_BODY_HTML, CF_SAVECONTENT_BODY_SCRIPT,
      CF_SAVECONTENT_BODY_CSS, CF_SAVECONTENT_BODY_XML, CF_SAVECONTENT_BODY_SQL, CF_SAVECONTENT_BODY_RAW,
      CF_SAVECONTENT_CONTENT, CF_FUNCTION_START_TAG_NAME, CF_FUNCTION_END_TAG_NAME,
      CF_COMPONENT_START_TAG_NAME, CF_COMPONENT_END_TAG_NAME, CF_COMPONENT_CONTENT]"

definition scanner_symbol_count :: nat where
  "scanner_symbol_count = length cfml_tokens"

definition VS :: "(cfml_token \<Rightarrow> bool) \<Rightarrow> nat \<Rightarrow> cfml_token \<Rightarrow> bool" where
  "VS valid_symbols count k \<longleftrightarrow> k \<in> set (take count cfml_tokens) \<and> valid_symbols k"

record cfml_scanner =
  tags :: "tag list"
  cf_tags :: "tag list"
  cfoutput_depth :: "16 word"
  cfcomponent_depth :: "16 word"
  cffunction_depth :: "16 word"

definition cfml_create :: cfml_scanner where
  "cfml_create = \<lparr>tags = [], cf_tags = [], cfoutput_depth = 0, cfcomponent_depth = 0, cffunction_depth = 0\<rparr>"

section \<open>Tag names\<close>

definition tag_name_char :: "code_point \<Rightarrow> bool" where
  "tag_name_char c \<longleftrightarrow> iswalnum c \<or> c = c_minus \<or> c = c_underscore \<or> c = c_colon"

lemma tag_name_char_zero [simp]: "\<not> tag_name_char 0"
  by (simp add: tag_name_char_def)

text \<open>A tag of ColdFusion has the letters CF in front of its name.\<close>

definition cf_prefix :: "'k lexer \<Rightarrow> (byte list \<times> bool) \<times> 'k lexer" where
  "cf_prefix l =
     (if towlower (lookahead l) = c_c then
        let first = to_char (towupper (lookahead l)); l = advance l in
        if towlower (lookahead l) = c_f then (([], True), advance l) else (([first], False), l)
      else (([], False), l))"

definition scan_tag_name :: "'k lexer \<Rightarrow> (byte list \<times> bool) \<times> 'k lexer" where
  "scan_tag_name l =
     (let ((prefix, is_cf_tag), l) = cf_prefix l in
      ((prefix @ List.map (to_char \<circ> towupper) (takeWhile tag_name_char (text_ahead l)), is_cf_tag),
       advance_while tag_name_char False l))"

section \<open>Comments\<close>

text \<open>A conditional comment of Internet Explorer, and then a comment that nests. A \<open>direction\<close> of 0
means that the last character was \<open><\<close>, of 1 that \<open><!\<close> was read, and -1 neither.\<close>

function conditional_comment :: "nat \<Rightarrow> cfml_token lexer \<Rightarrow> bool \<times> cfml_token lexer" where
  "conditional_comment close_dashes l =
     (if lookahead l = 0 then (False, l)
      else if lookahead l = c_minus then conditional_comment (close_dashes + 1) (advance l)
      else if lookahead l = c_gt \<and> close_dashes \<ge> 2 then (True, mark_end (advance (set_result CFML_COMMENT l)))
      else conditional_comment 0 (advance l))"
  by pat_completeness auto
termination by (relation "measure (\<lambda>(_, l). remaining l)") auto

function nested_comment ::
  "nat \<Rightarrow> int \<Rightarrow> nat \<Rightarrow> cfml_token lexer \<Rightarrow> bool \<times> cfml_token lexer" where
  "nested_comment dashes direction nesting l =
     (if lookahead l = 0 then (False, l)
      else if lookahead l = c_minus then
        if direction = 1 \<and> dashes + 1 \<ge> 2 then nested_comment 0 (-1) (nesting + 1) (advance l)
        else nested_comment (dashes + 1) direction nesting (advance l)
      else if lookahead l = c_gt \<and> dashes \<ge> 2 then
        let l' = mark_end (advance (set_result CFML_COMMENT l)) in
        if nesting - 1 = 0 then (True, l') else nested_comment 0 (-1) (nesting - 1) l'
      else if lookahead l = c_lt then nested_comment 0 0 nesting (advance l)
      else if lookahead l = c_bang \<and> direction = 0 then nested_comment dashes 1 nesting (advance l)
      else nested_comment 0 (-1) nesting (advance l))"
  by pat_completeness auto
termination by (relation "measure (\<lambda>(_, _, _, l). remaining l)") auto

declare conditional_comment.simps [simp del] nested_comment.simps [simp del]

definition cfml_scan_comment :: "cfml_token lexer \<Rightarrow> bool \<times> cfml_token lexer" where
  "cfml_scan_comment l =
     (if lookahead l \<noteq> c_minus then (False, l)
      else
        let l = advance l in
        if lookahead l \<noteq> c_minus then (False, l)
        else
          let l = advance l in
          if lookahead l = c_lbrack \<or> lookahead l = c_lt then conditional_comment 0 l
          else nested_comment 0 (-1) 1 l)"

text \<open>\<open>scan_script_comment\<close>. The loop goes on behind each comment and leaves by the last branch only.\<close>

function scan_script_comment :: "'k lexer \<Rightarrow> bool \<times> 'k lexer" where
  "scan_script_comment l =
     (if lookahead l = c_slash then scan_script_comment (advance_while comment_char True (skip l))
      else if lookahead l = c_star then scan_script_comment (snd (snd (cfscript_block_comment False (skip l))))
      else (False, l))"
  by pat_completeness auto
termination
proof (relation "measure remaining", goal_cases)
  case (2 l)
  then show ?case by (auto intro!: le_less_trans [OF remaining_advance_while])
next
  case (3 l)
  have "remaining (snd (snd (cfscript_block_comment False (skip l)))) \<le> remaining (skip l)"
    by (rule runs_remaining) (rule runs_cfscript_block_comment, rule runs_refl)
  then show ?case using 3 by (auto intro: le_less_trans)
qed simp

declare scan_script_comment.simps [simp del]

section \<open>Text\<close>

text \<open>What follows a \<open><\<close> the cursor is behind: a tag of ColdFusion, a slash that is not followed by C, or text.\<close>

datatype tag_boundary = AT_CF_TAG | AFTER_SLASH | NO_TAG

definition tag_boundary :: "'k lexer \<Rightarrow> tag_boundary \<times> 'k lexer" where
  "tag_boundary l =
     (if towlower (lookahead l) = c_c then
        let l = advance l in (if towlower (lookahead l) = c_f then AT_CF_TAG else NO_TAG, l)
      else if lookahead l = c_slash then
        let l = advance l in
        if towlower (lookahead l) = c_c then
          let l = advance l in (if towlower (lookahead l) = c_f then AT_CF_TAG else NO_TAG, l)
        else (AFTER_SLASH, l)
      else (NO_TAG, l))"

lemma fwd_tag_boundary [runs_rules]: "runs l0 l \<Longrightarrow> fwd l0 (tag_boundary l)"
  unfolding tag_boundary_def by (intro runs_rules)

lemma tag_boundary_remaining: "remaining (snd (tag_boundary l)) \<le> remaining l"
  using fwd_remaining [OF fwd_tag_boundary [OF runs_refl]] .

text \<open>The loop of \<open>scan_html_text\<close> inside of a script or style element.\<close>

function script_text :: "bool \<Rightarrow> 'k lexer \<Rightarrow> bool \<times> 'k lexer" where
  "script_text saw_text l =
     (if lookahead l = 0 \<or> lookahead l = c_hash then (saw_text, l)
      else if lookahead l = c_lt then
        case tag_boundary (advance l) of
          (AT_CF_TAG, l) \<Rightarrow> (saw_text, l)
        | (AFTER_SLASH, l) \<Rightarrow>
            if towlower (lookahead l) = c_s then (saw_text, l) else script_text True (mark_end l)
        | (NO_TAG, l) \<Rightarrow> script_text True (mark_end l)
      else script_text True (mark_end (advance l)))"
  by pat_completeness auto
termination
proof (relation "measure (\<lambda>(_, l). remaining l)", goal_cases)
  case (2 s l t l')
  then have "remaining l' \<le> remaining (advance l)" using tag_boundary_remaining [of "advance l"] by (metis snd_conv)
  then show ?case using 2 by (auto intro: le_less_trans)
next
  case (3 s l t l')
  then have "remaining l' \<le> remaining (advance l)" using tag_boundary_remaining [of "advance l"] by (metis snd_conv)
  then show ?case using 3 by (auto intro: le_less_trans)
qed auto

declare script_text.simps [simp del]

text \<open>Up to \<open>n\<close> letters, in lower case.\<close>

fun read_letters :: "nat \<Rightarrow> 'k lexer \<Rightarrow> code_point list \<times> 'k lexer" where
  "read_letters 0 l = ([], l)"
| "read_letters (Suc n) l =
     (if iswalpha (lookahead l) then
        let (w, l') = read_letters n (advance l) in (towlower (lookahead l) # w, l')
      else ([], l))"

text \<open>At an ampersand: whether the loop goes on, and whether text was taken.\<close>

definition html_ampersand :: "'k lexer \<Rightarrow> (bool \<times> bool) \<times> 'k lexer" where
  "html_ampersand l =
     (let l = advance (mark_end l) in
      if lookahead l = c_hash then
        let l = advance (mark_end l) in
        if towlower (lookahead l) = c_x \<or> iswdigit (lookahead l) then
          let l = (if towlower (lookahead l) = c_x then advance_while iswxdigit False (advance l)
                   else advance_while iswdigit False l);
              l = (if lookahead l = c_semi then advance l else l) in
          ((True, True), mark_end l)
        else ((False, True), l)
      else if iswalpha (lookahead l) then
        let (w, l) = read_letters 31 l in
        if lookahead l = c_semi \<and> w \<noteq> [] then ((False, False), l) else ((True, True), mark_end l)
      else ((True, True), mark_end l))"

lemma fwd_read_letters [runs_rules]: "runs l0 l \<Longrightarrow> fwd l0 (read_letters n l)"
  by (induction n arbitrary: l) (auto simp: fwd_simps intro!: runs_rules)

lemma html_ampersand_remaining: "remaining (snd (html_ampersand l)) \<le> remaining (advance l)"
proof -
  have "fwd (advance (mark_end l)) (html_ampersand l)"
    unfolding html_ampersand_def Let_def [of "advance (mark_end l)"] by (intro runs_rules)
  then show ?thesis using fwd_remaining by fastforce
qed

definition html_stop :: "code_point \<Rightarrow> bool" where
  "html_stop c \<longleftrightarrow> c \<in> {0, c_lt, c_gt, c_lbrace, c_rbrace, c_hash}"

text \<open>The flags are \<open>saw_text\<close>, \<open>saw_any\<close> and \<open>at_newline\<close>.\<close>

function html_loop :: "bool \<times> bool \<times> bool \<Rightarrow> 'k lexer \<Rightarrow> (bool \<times> bool) \<times> 'k lexer" where
  "html_loop st l =
     (let (saw_text, saw_any, at_newline) = st in
      if html_stop (lookahead l) then ((saw_text, saw_any), l)
      else if lookahead l = c_amp then
        case html_ampersand l of ((go, taken), l) \<Rightarrow>
          if go then html_loop (saw_text \<or> taken, saw_any \<or> taken, at_newline) l
          else ((saw_text \<or> taken, saw_any \<or> taken), l)
      else
        let at_newline = lookahead l = c_nl \<or> at_newline \<and> iswspace (lookahead l) in
        html_loop (saw_text \<or> \<not> at_newline, True, at_newline) (advance l))"
  by pat_completeness auto
termination
proof (relation "measure (\<lambda>(_, l). remaining l)", goal_cases)
  case (2 st l x a y b c r l')
  then have "remaining l' \<le> remaining (advance l)" using html_ampersand_remaining [of l] by (metis snd_conv)
  moreover have "\<not> eof l" using 2 by (auto dest: lookahead_eof)
  ultimately show ?case by (auto intro: le_less_trans)
next
  case (3 st l a b c n)
  then have "lookahead l \<noteq> 0" by (auto simp: html_stop_def)
  then show ?case by simp
qed simp

declare html_loop.simps [simp del]

definition in_script_style :: "cfml_scanner \<Rightarrow> bool" where
  "in_script_style s \<longleftrightarrow>
     tags s \<noteq> [] \<and> tag_kind (last (tags s)) \<in> {ELEMENT ''SCRIPT'', ELEMENT ''STYLE''}"

definition scan_html_text :: "cfml_scanner \<Rightarrow> cfml_token lexer \<Rightarrow> bool \<times> cfml_token lexer" where
  "scan_html_text s l =
     (if in_script_style s then
        let (saw_text, l) = script_text False (mark_end l) in (saw_text, set_result HTML_TEXT l)
      else
        let ((saw_text, saw_any), l) = html_loop (False, False, False) l in
        (saw_text \<or> saw_any \<and> lookahead l = c_hash, set_result HTML_TEXT l))"

section \<open>Content that is not parsed\<close>

text \<open>A character of the input against one of the end delimiter: a \<open>char\<close>, which is widened to \<open>wint_t\<close>.\<close>

definition upper_is :: "code_point \<Rightarrow> byte \<Rightarrow> bool" where
  "upper_is c b \<longleftrightarrow> towupper c mod 2 ^ 32 = char_val b mod 2 ^ 32"

definition end_delimiter :: "byte list \<Rightarrow> byte list" where
  "end_delimiter name = List.map to_char (codes ''</CF'') @ name"

text \<open>The loop that \<open>scan_cfquery_content\<close>, \<open>scan_cfxml_content\<close> and \<open>scan_cfscript_content\<close> have in common.\<close>

function content_loop :: "byte list \<Rightarrow> nat \<Rightarrow> 'k lexer \<Rightarrow> 'k lexer" where
  "content_loop delimiter delimiter_index l =
     (if lookahead l = 0 then l
      else if upper_is (lookahead l) (delimiter ! delimiter_index) then
        if delimiter_index + 1 = length delimiter then l
        else content_loop delimiter (delimiter_index + 1) (advance l)
      else content_loop delimiter 0 (mark_end (advance l)))"
  by pat_completeness auto
termination by (relation "measure (\<lambda>(_, _, l). remaining l)") auto

declare content_loop.simps [simp del]

definition max_cf_end_delimiter_size :: nat where
  "max_cf_end_delimiter_size = 256"

definition scan_cf_content ::
  "tag_type \<Rightarrow> cfml_token \<Rightarrow> cfml_scanner \<Rightarrow> cfml_token lexer \<Rightarrow> bool \<times> cfml_token lexer" where
  "scan_cf_content kind content s l =
     (if cf_tags s = [] then (False, l)
      else
        let cf_tag = last (cf_tags s) in
        if tag_kind cf_tag \<noteq> kind then (False, l)
        else
          let l = mark_end l in
          if length (tag_name cf_tag) > max_cf_end_delimiter_size - 5 then (False, l)
          else (True, set_result content (content_loop (end_delimiter (tag_name cf_tag)) 0 l)))"

definition scan_cfquery_content :: "cfml_scanner \<Rightarrow> cfml_token lexer \<Rightarrow> bool \<times> cfml_token lexer" where
  "scan_cfquery_content = scan_cf_content CF_QUERY CF_QUERY_CONTENT"

definition scan_cfxml_content :: "cfml_scanner \<Rightarrow> cfml_token lexer \<Rightarrow> bool \<times> cfml_token lexer" where
  "scan_cfxml_content = scan_cf_content CF_XML CF_XML_CONTENT"

definition scan_cfscript_content :: "cfml_scanner \<Rightarrow> cfml_token lexer \<Rightarrow> bool \<times> cfml_token lexer" where
  "scan_cfscript_content = scan_cf_content CF_SCRIPT CF_SCRIPT_CONTENT"

section \<open>Saved content\<close>

text \<open>A literal, character by character; the cursor stops at the first difference.\<close>

fun match_codes :: "code_point list \<Rightarrow> 'k lexer \<Rightarrow> bool \<times> 'k lexer" where
  "match_codes [] l = (True, l)"
| "match_codes (c # cs) l = (if lookahead l \<noteq> c then (False, l) else match_codes cs (advance l))"

lemma fwd_match_codes [runs_rules]: "runs l0 l \<Longrightarrow> fwd l0 (match_codes cs l)"
  by (induction cs arbitrary: l) (auto simp: fwd_simps)

definition body_types :: "(string \<times> cfml_token) list" where
  "body_types =
     [(''script'', CF_SAVECONTENT_BODY_SCRIPT), (''css'', CF_SAVECONTENT_BODY_CSS),
      (''xml'', CF_SAVECONTENT_BODY_XML), (''sql'', CF_SAVECONTENT_BODY_SQL),
      (''raw'', CF_SAVECONTENT_BODY_RAW), (''html'', CF_SAVECONTENT_BODY_HTML)]"

text \<open>The type a directive \<open><!--- @content TYPE --->\<close> asks for.\<close>

definition content_directive :: "'k lexer \<Rightarrow> cfml_token \<times> 'k lexer" where
  "content_directive l =
     (let (b, l) = match_codes (codes ''<!---'') (advance_while iswspace False l) in
      if \<not> b then (CF_SAVECONTENT_BODY_CFML, l)
      else
        let (b, l) = match_codes (codes ''@content'') (advance_while iswspace False l) in
        if \<not> b then (CF_SAVECONTENT_BODY_CFML, l)
        else
          let (word, l) = read_letters 15 (advance_while iswspace False l) in
          (case List.find (\<lambda>(n, _). word = codes n) body_types of
             Some (_, t) \<Rightarrow> t | None \<Rightarrow> CF_SAVECONTENT_BODY_CFML,
           l))"

definition scan_cfsavecontent_body_type ::
  "cfml_scanner \<Rightarrow> cfml_token lexer \<Rightarrow> (cfml_token \<Rightarrow> bool) \<Rightarrow> bool \<times> cfml_token lexer" where
  "scan_cfsavecontent_body_type s l vs =
     (if cf_tags s = [] then (False, l)
      else if tag_kind (last (cf_tags s)) \<noteq> CF_SAVECONTENT then (False, l)
      else
        let (result, l) = content_directive (mark_end l) in
        if \<not> vs result then (False, l) else (True, set_result result l))"

text \<open>The rest of an end delimiter; the cursor stays at its last character.\<close>

fun match_rest :: "byte list \<Rightarrow> 'k lexer \<Rightarrow> bool \<times> 'k lexer" where
  "match_rest [] l = (True, l)"
| "match_rest (b # bs) l =
     (if \<not> upper_is (lookahead l) b then (False, l) else match_rest bs (if bs = [] then l else advance l))"

lemma fwd_match_rest [runs_rules]: "runs l0 l \<Longrightarrow> fwd l0 (match_rest bs l)"
  by (induction bs arbitrary: l) (auto simp: fwd_simps)

lemma match_rest_remaining: "remaining (snd (match_rest bs l)) \<le> remaining l"
  using fwd_remaining [OF fwd_match_rest [OF runs_refl]] .

function savecontent_loop :: "byte list \<Rightarrow> bool \<Rightarrow> 'k lexer \<Rightarrow> bool \<times> 'k lexer" where
  "savecontent_loop delimiter has_content l =
     (if lookahead l = 0 then (has_content, l)
      else if lookahead l = c_lt then
        let l = advance (mark_end l) in
        if lookahead l = c_slash then
          case match_rest (drop 2 delimiter) (advance l) of (matched, l) \<Rightarrow>
            if matched then (has_content, l) else savecontent_loop delimiter True (mark_end l)
        else savecontent_loop delimiter True (mark_end l)
      else savecontent_loop delimiter True (mark_end (advance l)))"
  by pat_completeness auto
termination
proof (relation "measure (\<lambda>(_, _, l). remaining l)", goal_cases)
  case (2 d h l m b l')
  then have "remaining l' \<le> remaining (advance m)"
    using match_rest_remaining [of "drop 2 d" "advance m"] by (metis snd_conv)
  then show ?case using 2 by (auto intro: le_less_trans)
qed auto

declare savecontent_loop.simps [simp del]

definition scan_cfsavecontent_content :: "cfml_scanner \<Rightarrow> cfml_token lexer \<Rightarrow> bool \<times> cfml_token lexer" where
  "scan_cfsavecontent_content s l =
     (if cf_tags s = [] then (False, l)
      else
        let cf_tag = last (cf_tags s) in
        if tag_kind cf_tag \<noteq> CF_SAVECONTENT then (False, l)
        else
          let l = mark_end l in
          if length (tag_name cf_tag) > max_cf_end_delimiter_size - 5 then (False, l)
          else
            let (has_content, l) = savecontent_loop (end_delimiter (tag_name cf_tag)) False l in
            (has_content, set_result CF_SAVECONTENT_CONTENT l))"

section \<open>Raw text of script and style elements\<close>

text \<open>\<open>hashes\<close>: an expression in hashes ends the text, as \<open>cfoutput_depth\<close> is not 0. The end delimiter of C
is indexed past a character that \<open>tag_boundary\<close> has looked at already.\<close>

function raw_text_loop ::
  "bool \<Rightarrow> bool \<Rightarrow> byte list \<Rightarrow> bool \<Rightarrow> nat \<Rightarrow> 'k lexer \<Rightarrow> bool \<times> 'k lexer" where
  "raw_text_loop stop_at_cfml hashes delimiter has_content delimiter_index l =
     (if lookahead l = 0 then (has_content, l)
      else if stop_at_cfml \<and> delimiter_index = 0 \<and> lookahead l = c_hash \<and> hashes then (has_content, l)
      else if stop_at_cfml \<and> delimiter_index = 0 \<and> lookahead l = c_lt then
        case tag_boundary (advance l) of
          (AT_CF_TAG, l) \<Rightarrow> (has_content, l)
        | (AFTER_SLASH, l) \<Rightarrow>
            if upper_is (lookahead l) (delimiter ! 2)
            then raw_text_loop stop_at_cfml hashes delimiter has_content 3 (advance l)
            else raw_text_loop stop_at_cfml hashes delimiter True 0 (mark_end l)
        | (NO_TAG, l) \<Rightarrow> raw_text_loop stop_at_cfml hashes delimiter True 0 (mark_end l)
      else if upper_is (lookahead l) (delimiter ! delimiter_index) then
        if delimiter_index + 1 = length delimiter then (has_content, l)
        else raw_text_loop stop_at_cfml hashes delimiter has_content (delimiter_index + 1) (advance l)
      else raw_text_loop stop_at_cfml hashes delimiter True 0 (mark_end (advance l)))"
  by pat_completeness auto
termination
proof (relation "measure (\<lambda>(_, _, _, _, _, l). remaining l)", goal_cases)
  case (2 s h d c i l t l')
  then have "remaining l' \<le> remaining (advance l)" using tag_boundary_remaining [of "advance l"] by (metis snd_conv)
  moreover have "remaining (advance l') \<le> remaining l'" by simp
  ultimately have "remaining (advance l') \<le> remaining (advance l)" by (rule order_trans [rotated])
  then show ?case using 2 by (auto intro: le_less_trans)
next
  case (3 s h d c i l t l')
  then have "remaining l' \<le> remaining (advance l)" using tag_boundary_remaining [of "advance l"] by (metis snd_conv)
  then show ?case using 3 by (auto intro: le_less_trans)
next
  case (4 s h d c i l t l')
  then have "remaining l' \<le> remaining (advance l)" using tag_boundary_remaining [of "advance l"] by (metis snd_conv)
  then show ?case using 4 by (auto intro: le_less_trans)
qed auto

declare raw_text_loop.simps [simp del]

definition scan_raw_text ::
  "cfml_scanner \<Rightarrow> cfml_token lexer \<Rightarrow> bool \<Rightarrow> bool \<times> cfml_token lexer" where
  "scan_raw_text s l is_cfquery_context =
     (if tags s = [] then (False, l)
      else
        let kind = tag_kind (last (tags s));
            delimiter = List.map to_char
              (codes (if kind = ELEMENT ''SCRIPT'' then ''</SCRIPT'' else ''</STYLE''));
            (has_content, l) =
              raw_text_loop (\<not> is_cfquery_context \<and> kind \<in> {ELEMENT ''SCRIPT'', ELEMENT ''STYLE''})
                (cfoutput_depth s > 0) delimiter False 0 (mark_end l) in
        if \<not> has_content then (False, l) else (True, set_result RAW_TEXT l))"

section \<open>Components\<close>

function component_comment :: "'k lexer \<Rightarrow> 'k lexer" where
  "component_comment l =
     (if lookahead l = 0 then l
      else if lookahead l = c_star then
        let l = advance l in if lookahead l = c_slash then advance l else component_comment l
      else component_comment (advance l))"
  by pat_completeness auto
termination by (relation "measure remaining") auto

declare component_comment.simps [simp del]

lemma runs_component_comment [runs_rules]: "runs l0 l \<Longrightarrow> runs l0 (component_comment l)"
proof (induction l rule: component_comment.induct)
  case (1 l)
  then show ?case by (subst component_comment.simps) (auto simp: Let_def)
qed

text \<open>White space and comments in front of a component; a slash that opens no comment fails.\<close>

function component_blanks :: "'k lexer \<Rightarrow> bool \<times> 'k lexer" where
  "component_blanks l0 =
     (let l = advance_while iswspace False l0 in
      if lookahead l = c_slash then
        let l = advance l in
        if lookahead l = c_slash then
          component_blanks (advance_while (\<lambda>c. c \<noteq> 0 \<and> c \<noteq> c_nl) False (advance l))
        else if lookahead l = c_star then component_blanks (component_comment (advance l))
        else (False, l)
      else (True, l))"
  by pat_completeness auto
termination
proof (relation "measure remaining", goal_cases)
  case (2 l0 l m)
  then have "remaining m < remaining l0" using advance_after_run [of iswspace False l0 False] by simp
  then show ?case by (auto intro!: le_less_trans [OF remaining_advance_while] intro: le_less_trans)
next
  case (3 l0 l m)
  then have "remaining m < remaining l0" using advance_after_run [of iswspace False l0 False] by simp
  moreover have "remaining (component_comment (advance m)) \<le> remaining m"
    by (rule runs_remaining) (intro runs_rules)
  ultimately show ?case by simp
qed simp

declare component_blanks.simps [simp del]

definition identifier_part :: "code_point \<Rightarrow> bool" where
  "identifier_part c \<longleftrightarrow> iswalnum c \<or> c = c_underscore"

definition component_modifiers :: "string list" where
  "component_modifiers = [''abstract'', ''static'']"

definition component_words :: "string list" where
  "component_words = [''component'', ''property'', ''interface'', ''import'']"

text \<open>The keyword of a component, behind a modifier if there is one.\<close>

definition component_keyword :: "'k lexer \<Rightarrow> bool \<times> 'k lexer" where
  "component_keyword l =
     (let (word, l) = read_letters 15 l in
      if identifier_part (lookahead l) then (False, l)
      else if word \<in> set (List.map codes component_modifiers) then
        let (word, l) = read_letters 15 (advance_while iswspace False l) in
        if identifier_part (lookahead l) then (False, l)
        else (word \<in> set (List.map codes component_words), l)
      else (word \<in> set (List.map codes component_words), l))"

definition scan_cf_component_content :: "cfml_token lexer \<Rightarrow> bool \<times> cfml_token lexer" where
  "scan_cf_component_content l =
     (let (b, l) = component_blanks l in
      if \<not> b then (False, l)
      else
        let (b, l) = component_keyword l in
        if \<not> b then (False, l)
        else (True, set_result CF_COMPONENT_CONTENT (mark_end (advance_while (\<lambda>c. c \<noteq> 0) False l))))"

section \<open>Automatic semicolons\<close>

text \<open>
  The first loop of \<open>scan_automatic_semicolon\<close>. The step at a comment compares the result, one of
  \<open>REJECT\<close>, \<open>NO_NEWLINE\<close>, \<open>ACCEPT\<close>, with \<open>false\<close> and \<open>true\<close>, which are the numbers of the first two.
\<close>

definition cfml_semicolon_comment ::
  "bool \<Rightarrow> bool \<Rightarrow> 'k lexer \<Rightarrow> (bool option \<times> bool) \<times> 'k lexer" where
  "cfml_semicolon_comment comment_condition scanned_comment l =
     (if lookahead l = c_slash then
        case cfscript_scan_whitespace_and_comments False (False, scanned_comment) l of
          ((result, scanned_comment), l) \<Rightarrow>
            if result = REJECT then ((Some False, scanned_comment), l)
            else if result = NO_NEWLINE \<and> comment_condition \<and> lookahead l \<noteq> c_comma \<and> lookahead l \<noteq> c_eq
            then ((Some True, scanned_comment), l)
            else ((None, scanned_comment), l)
      else ((None, scanned_comment), l))"

lemma fwd_cfml_semicolon_comment [runs_rules]: "runs l0 l \<Longrightarrow> fwd l0 (cfml_semicolon_comment cc sc l)"
  using fwd_cfscript_scan_whitespace_and_comments [of l0 l False "(False, sc)"]
  by (auto simp: cfml_semicolon_comment_def fwd_def split: prod.splits)

function cfml_line_end ::
  "bool \<Rightarrow> bool \<Rightarrow> 'k lexer \<Rightarrow> (bool option \<times> bool) \<times> 'k lexer" where
  "cfml_line_end comment_condition scanned_comment l0 =
     (if lookahead l0 = 0 then ((Some True, scanned_comment), l0)
      else
        case cfml_semicolon_comment comment_condition scanned_comment l0 of
          ((Some b, sc), l) \<Rightarrow> ((Some b, sc), l)
        | ((None, sc), l) \<Rightarrow>
            if lookahead l = c_rbrace then ((Some True, sc), l)
            else if is_at_included_range_start l then ((Some True, sc), l)
            else if line_break (lookahead l) then ((None, sc), l)
            else if \<not> iswspace (lookahead l) then ((Some False, sc), l)
            else cfml_line_end comment_condition sc (skip l))"
  by pat_completeness auto
termination
proof (relation "measure (\<lambda>(_, _, l). remaining l)", goal_cases)
  case (2 cc s l0 r l o' sc)
  then have "snd (cfml_semicolon_comment cc s l0) = l" by (metis snd_conv)
  then have "remaining l \<le> remaining l0"
    using fwd_remaining [OF fwd_cfml_semicolon_comment [OF runs_refl]] by metis
  moreover have "remaining (skip l) < remaining l" using 2 by (cases "ahead l") (auto simp: lookahead_def)
  ultimately show ?case by simp
qed simp

declare cfml_line_end.simps [simp del]

text \<open>The \<open>switch\<close> behind the line feed and \<open>scan_cfml_word_operator\<close> are those of CFScript.\<close>

definition cfml_scan_automatic_semicolon ::
  "cfml_token lexer \<Rightarrow> bool \<Rightarrow> (bool \<times> bool) \<times> cfml_token lexer" where
  "cfml_scan_automatic_semicolon l comment_condition =
     (let l = mark_end (set_result AUTOMATIC_SEMICOLON l) in
      case cfml_line_end comment_condition False l of
        ((Some b, scanned_comment), l) \<Rightarrow> ((b, scanned_comment), l)
      | ((None, scanned_comment), l) \<Rightarrow>
          let l = skip l;
              ((result, scanned_comment), l) =
                cfscript_scan_whitespace_and_comments True (False, scanned_comment) l in
          if result = REJECT then ((False, scanned_comment), l)
          else let (b, l) = cfscript_next_line l in ((b, scanned_comment), l))"

definition cfml_scan_ternary_qmark :: "cfml_token lexer \<Rightarrow> bool \<times> cfml_token lexer" where
  "cfml_scan_ternary_qmark l =
     (let l = advance_while iswspace True l in
      if lookahead l = c_quest then
        let l = advance l in
        if lookahead l = c_colon then (True, set_result ELVIS_OPERATOR (mark_end (advance l)))
        else if lookahead l = c_quest then (False, l)
        else
          let l = set_result TERNARY_QMARK (mark_end l) in
          if lookahead l = c_dot then
            let l = advance l in (iswdigit (lookahead l), l)
          else (True, l)
      else (False, l))"

section \<open>The readers only move forward\<close>

lemma fwd_conditional_comment [runs_rules]: "runs l0 l \<Longrightarrow> fwd l0 (conditional_comment d l)"
proof (induction d l rule: conditional_comment.induct)
  case (1 d l)
  then show ?case by (subst conditional_comment.simps) (auto simp: fwd_simps intro!: runs_rules)
qed

lemma fwd_nested_comment [runs_rules]: "runs l0 l \<Longrightarrow> fwd l0 (nested_comment d dir n l)"
proof (induction d dir n l rule: nested_comment.induct)
  case (1 d dir n l)
  then show ?case by (subst nested_comment.simps) (auto simp: Let_def fwd_simps)
qed

lemma fwd_cfml_scan_comment [runs_rules]: "runs l0 l \<Longrightarrow> fwd l0 (cfml_scan_comment l)"
  unfolding cfml_scan_comment_def by (intro runs_rules)

lemma fwd_scan_script_comment [runs_rules]: "runs l0 l \<Longrightarrow> fwd l0 (scan_script_comment l)"
proof (induction l rule: scan_script_comment.induct)
  case (1 l)
  then show ?case
    by (subst scan_script_comment.simps) (auto simp: fwd_simps runs_cfscript_block_comment)
qed

lemma fwd_script_text [runs_rules]: "runs l0 l \<Longrightarrow> fwd l0 (script_text b l)"
proof (induction b l rule: script_text.induct)
  case (1 b l)
  obtain t m where t: "tag_boundary (advance l) = (t, m)" by (cases "tag_boundary (advance l)")
  then have "runs l0 m" using fwdD [of l0 t m] fwd_tag_boundary [of l0 "advance l"] 1(4) by simp
  with 1 t show ?case by (subst script_text.simps) (auto simp: fwd_simps split: tag_boundary.split)
qed

lemma fwd_html_ampersand [runs_rules]: "runs l0 l \<Longrightarrow> fwd l0 (html_ampersand l)"
  unfolding html_ampersand_def by (intro runs_rules)

lemma fwd_html_loop [runs_rules]: "runs l0 l \<Longrightarrow> fwd l0 (html_loop st l)"
proof (induction st l rule: html_loop.induct)
  case (1 st l)
  obtain go taken m where t: "html_ampersand l = ((go, taken), m)"
    by (cases "html_ampersand l") auto
  then have "runs l0 m" using fwd_html_ampersand [OF 1(3)] by (simp add: fwd_simps)
  with 1 t show ?case by (subst html_loop.simps) (auto simp: Let_def fwd_simps split: prod.split)
qed

lemma fwd_scan_html_text [runs_rules]: "runs l0 l \<Longrightarrow> fwd l0 (scan_html_text s l)"
  unfolding scan_html_text_def by (intro runs_rules) (auto simp: fwd_def intro!: runs_rules)

lemma runs_content_loop [runs_rules]: "runs l0 l \<Longrightarrow> runs l0 (content_loop d i l)"
proof (induction d i l rule: content_loop.induct)
  case (1 d i l)
  then show ?case by (subst content_loop.simps) auto
qed

lemma fwd_scan_cf_content [runs_rules]: "runs l0 l \<Longrightarrow> fwd l0 (scan_cf_content k c s l)"
  unfolding scan_cf_content_def Let_def by (intro runs_rules)

lemma fwd_contents [runs_rules]:
  "runs l0 l \<Longrightarrow> fwd l0 (scan_cfquery_content s l)" "runs l0 l \<Longrightarrow> fwd l0 (scan_cfxml_content s l)"
  "runs l0 l \<Longrightarrow> fwd l0 (scan_cfscript_content s l)"
  by (simp_all add: scan_cfquery_content_def scan_cfxml_content_def scan_cfscript_content_def
      fwd_scan_cf_content)

lemma fwd_content_directive [runs_rules]: "runs l0 l \<Longrightarrow> fwd l0 (content_directive l)"
  unfolding content_directive_def by (intro runs_rules)

lemma fwd_scan_cfsavecontent_body_type [runs_rules]:
  "runs l0 l \<Longrightarrow> fwd l0 (scan_cfsavecontent_body_type s l vs)"
  unfolding scan_cfsavecontent_body_type_def by (intro runs_rules)

lemma fwd_savecontent_loop [runs_rules]: "runs l0 l \<Longrightarrow> fwd l0 (savecontent_loop d h l)"
proof (induction d h l rule: savecontent_loop.induct)
  case (1 d h l)
  let ?r = "match_rest (drop 2 d) (advance (advance (mark_end l)))"
  obtain b m where t: "?r = (b, m)" by (cases ?r)
  then have "runs l0 m"
    using fwd_match_rest [of l0 "advance (advance (mark_end l))" "drop 2 d"] 1(4) by (simp add: fwd_simps)
  with 1 t show ?case by (subst savecontent_loop.simps) (auto simp: Let_def fwd_simps)
qed

lemma fwd_scan_cfsavecontent_content [runs_rules]: "runs l0 l \<Longrightarrow> fwd l0 (scan_cfsavecontent_content s l)"
  unfolding scan_cfsavecontent_content_def Let_def [of "last _"] by (intro runs_rules)

lemma fwd_raw_text_loop [runs_rules]: "runs l0 l \<Longrightarrow> fwd l0 (raw_text_loop st hs d h i l)"
proof (induction st hs d h i l rule: raw_text_loop.induct)
  case (1 st hs d h i l)
  obtain t m where t: "tag_boundary (advance l) = (t, m)" by (cases "tag_boundary (advance l)")
  then have "runs l0 m" using fwdD [of l0 t m] fwd_tag_boundary [of l0 "advance l"] 1(6) by simp
  with 1 t show ?case by (subst raw_text_loop.simps) (auto simp: fwd_simps split: tag_boundary.split)
qed

lemma fwd_scan_raw_text [runs_rules]: "runs l0 l \<Longrightarrow> fwd l0 (scan_raw_text s l q)"
  unfolding scan_raw_text_def Let_def [of "tag_kind _"] Let_def [of "List.map _ _"] by (intro runs_rules)

lemma fwd_component_blanks [runs_rules]: "runs l0 l \<Longrightarrow> fwd l0 (component_blanks l)"
proof (induction l rule: component_blanks.induct)
  case (1 l)
  then show ?case by (subst component_blanks.simps) (auto simp: Let_def fwd_simps intro!: runs_rules)
qed

lemma fwd_component_keyword [runs_rules]: "runs l0 l \<Longrightarrow> fwd l0 (component_keyword l)"
  unfolding component_keyword_def by (intro runs_rules)

lemma fwd_scan_cf_component_content [runs_rules]: "runs l0 l \<Longrightarrow> fwd l0 (scan_cf_component_content l)"
  unfolding scan_cf_component_content_def by (intro runs_rules)

lemma fwd_cfml_line_end [runs_rules]: "runs l0 l \<Longrightarrow> fwd l0 (cfml_line_end cc sc l)"
proof (induction cc sc l rule: cfml_line_end.induct)
  case (1 cc sc l)
  obtain r sc' m where t: "cfml_semicolon_comment cc sc l = ((r, sc'), m)"
    by (metis surj_pair)
  then have "runs l0 m" using fwd_cfml_semicolon_comment [OF 1(2)] by (metis fwdD)
  with 1 t show ?case by (subst cfml_line_end.simps) (auto simp: fwd_simps split: option.splits)
qed

lemma fwd_cfml_scan_automatic_semicolon [runs_rules]:
  "runs l0 l \<Longrightarrow> fwd l0 (cfml_scan_automatic_semicolon l cc)"
proof -
  assume l: "runs l0 l"
  obtain r sc m where m: "cfml_line_end cc False (mark_end (set_result AUTOMATIC_SEMICOLON l)) = ((r, sc), m)"
    by (metis surj_pair)
  then have l1: "runs l0 m"
    using fwd_cfml_line_end [of l0 "mark_end (set_result AUTOMATIC_SEMICOLON l)" cc False] l by (simp add: fwd_simps)
  obtain w sc' m2 where
    w: "cfscript_scan_whitespace_and_comments True (False, sc) (skip m) = ((w, sc'), m2)" by (metis surj_pair)
  then have l2: "runs l0 m2"
    using fwd_cfscript_scan_whitespace_and_comments [of l0 "skip m" True "(False, sc)"] l1 by (simp add: fwd_simps)
  then have "fwd l0 (cfscript_next_line m2)" by (rule fwd_cfscript_next_line)
  with l1 l2 w show ?thesis
    unfolding cfml_scan_automatic_semicolon_def Let_def [of "mark_end _"] m
    by (cases r) (auto simp: Let_def fwd_def split: prod.split)
qed

lemma fwd_cfml_scan_ternary_qmark [runs_rules]: "runs l0 l \<Longrightarrow> fwd l0 (cfml_scan_ternary_qmark l)"
  unfolding cfml_scan_ternary_qmark_def by (intro runs_rules)

end
