(* ===== verification/Cfml.thy ===== *)
theory Cfml
  imports Cfml_Text
begin

text \<open>
  The scan of \<^verbatim>\<open>codegraph-kernel/grammars/cfml-common/scanner.h\<close> with its two stacks of open tags, those of
  HTML and those of ColdFusion, and the functions of \<^verbatim>\<open>cfml/scanner.c\<close> and \<^verbatim>\<open>cfquery/scanner.c\<close> that call
  it. The parameter \<open>vs\<close> is \<open>VS(valid_symbols, \<cdot>, count)\<close>.
\<close>

type_synonym cfml_result = "bool \<times> cfml_scanner \<times> cfml_token lexer"

section \<open>Which tokens are valid\<close>

definition valid_cf_start_tag_name :: "(cfml_token \<Rightarrow> bool) \<Rightarrow> bool" where
  "valid_cf_start_tag_name vs \<longleftrightarrow>
     list_ex vs [CF_START_TAG_NAME, CF_SET_START_TAG_NAME, CF_VOID_START_TAG_NAME, CF_RETURN_START_TAG_NAME,
       CF_XML_START_TAG_NAME, CF_QUERY_START_TAG_NAME, CF_SCRIPT_START_TAG_NAME,
       CF_SAVECONTENT_START_TAG_NAME, CF_OUTPUT_START_TAG_NAME, CF_FUNCTION_START_TAG_NAME,
       CF_COMPONENT_START_TAG_NAME, CF_IF_START_TAG_NAME, CF_ELSEIF_TAG_NAME, CF_ELSE_TAG_NAME]"

definition valid_start_tag_name :: "(cfml_token \<Rightarrow> bool) \<Rightarrow> bool" where
  "valid_start_tag_name vs \<longleftrightarrow>
     vs START_TAG_NAME \<or> vs SCRIPT_START_TAG_NAME \<or>
     list_ex vs [CF_START_TAG_NAME, CF_SET_START_TAG_NAME, CF_VOID_START_TAG_NAME, CF_RETURN_START_TAG_NAME,
       CF_XML_START_TAG_NAME, CF_QUERY_START_TAG_NAME, CF_SCRIPT_START_TAG_NAME,
       CF_SAVECONTENT_START_TAG_NAME, CF_OUTPUT_START_TAG_NAME, CF_FUNCTION_START_TAG_NAME,
       CF_COMPONENT_START_TAG_NAME, CF_IF_START_TAG_NAME, CF_ELSEIF_TAG_NAME, CF_ELSE_TAG_NAME]"

definition valid_cf_end_tag_name :: "(cfml_token \<Rightarrow> bool) \<Rightarrow> bool" where
  "valid_cf_end_tag_name vs \<longleftrightarrow>
     list_ex vs [CF_END_TAG_NAME, CF_XML_END_TAG_NAME, CF_QUERY_END_TAG_NAME, CF_SCRIPT_END_TAG_NAME,
       CF_SAVECONTENT_END_TAG_NAME, CF_FUNCTION_END_TAG_NAME, CF_IF_END_TAG_NAME]"

definition valid_end_tag_name :: "(cfml_token \<Rightarrow> bool) \<Rightarrow> bool" where
  "valid_end_tag_name vs \<longleftrightarrow>
     list_ex vs [END_TAG_NAME, CF_END_TAG_NAME, CF_XML_END_TAG_NAME, CF_QUERY_END_TAG_NAME,
       CF_SCRIPT_END_TAG_NAME, CF_SAVECONTENT_END_TAG_NAME, CF_FUNCTION_END_TAG_NAME, CF_IF_END_TAG_NAME]"

definition no_content_symbols :: "(cfml_token \<Rightarrow> bool) \<Rightarrow> bool" where
  "no_content_symbols vs \<longleftrightarrow> \<not> list_ex vs [RAW_TEXT, CF_XML_CONTENT, CF_QUERY_CONTENT, CF_SCRIPT_CONTENT]"

definition implicit_cf_end_tag_valid :: "(cfml_token \<Rightarrow> bool) \<Rightarrow> bool" where
  "implicit_cf_end_tag_valid vs \<longleftrightarrow>
     vs IMPLICIT_CF_END_TAG \<and>
     \<not> list_ex vs [CF_XML_END_TAG_NAME, CF_QUERY_END_TAG_NAME, CF_SCRIPT_END_TAG_NAME,
       CF_SAVECONTENT_END_TAG_NAME, CF_FUNCTION_END_TAG_NAME, CF_IF_END_TAG_NAME, CF_ELSEIF_TAG_NAME,
       CF_ELSE_TAG_NAME]"

section \<open>Implicit end tags\<close>

definition open_tags :: "bool \<Rightarrow> cfml_scanner \<Rightarrow> tag list" where
  "open_tags is_cf_context s = (if is_cf_context then cf_tags s else tags s)"

definition pop_tag :: "bool \<Rightarrow> cfml_scanner \<Rightarrow> cfml_scanner" where
  "pop_tag is_cf_context s =
     (if is_cf_context then s\<lparr>cf_tags := butlast (cf_tags s)\<rparr> else s\<lparr>tags := butlast (tags s)\<rparr>)"

definition implicit_end :: "bool \<Rightarrow> cfml_scanner \<Rightarrow> cfml_token lexer \<Rightarrow> cfml_result" where
  "implicit_end is_cf_context s l =
     (True, pop_tag is_cf_context s,
      set_result (if is_cf_context then IMPLICIT_CF_END_TAG else IMPLICIT_END_TAG) l)"

definition name_tag :: "bool \<Rightarrow> byte list \<Rightarrow> tag" where
  "name_tag is_cf_context name = (if is_cf_context then cf_tag_for_name name else tag_for_name name)"

definition conditional_kind :: "tag \<Rightarrow> bool" where
  "conditional_kind t \<longleftrightarrow> tag_kind t \<in> {CF_IF, CF_ELSEIF, CF_ELSE}"

text \<open>In front of \<open><cfelse>\<close> or \<open><cfelseif>\<close>.\<close>

definition implicit_before_else :: "bool \<Rightarrow> cfml_scanner \<Rightarrow> cfml_token lexer \<Rightarrow> cfml_result" where
  "implicit_before_else is_cf_context s l =
     (if is_cf_context \<and> cf_tags s \<noteq> [] \<and> \<not> conditional_kind (last (cf_tags s)) then implicit_end True s l
      else if \<not> is_cf_context \<and> tags s \<noteq> [] then
        case List.find conditional_kind (rev (cf_tags s)) of
          Some ct \<Rightarrow> if length (tags s) > unat (html_depth ct) then implicit_end False s l else (False, s, l)
        | None \<Rightarrow> (False, s, l)
      else (False, s, l))"

text \<open>In front of the end tag of a ColdFusion tag, in HTML.\<close>

definition implicit_before_cf_end :: "tag \<Rightarrow> cfml_scanner \<Rightarrow> cfml_token lexer \<Rightarrow> cfml_result" where
  "implicit_before_cf_end cf_next s l =
     (case List.find (\<lambda>t. tag_eq t cf_next) (rev (cf_tags s)) of
        Some t \<Rightarrow> if length (tags s) > unat (html_depth t) then implicit_end False s l else (False, s, l)
      | None \<Rightarrow> (False, s, l))"

definition implicit_at_end_tag :: "bool \<Rightarrow> tag \<Rightarrow> cfml_scanner \<Rightarrow> cfml_token lexer \<Rightarrow> cfml_result" where
  "implicit_at_end_tag is_cf_context next_tag s l =
     (let opened = open_tags is_cf_context s in
      if opened \<noteq> [] \<and> tag_eq (last opened) next_tag then
        if is_cf_context \<and> length (tags s) > unat (html_depth (last opened))
        then implicit_end False s l
        else (False, s, l)
      else if list_ex (\<lambda>t. tag_eq t next_tag) opened then implicit_end is_cf_context s l
      else (False, s, l))"

definition implicit_at_start_tag ::
  "bool \<Rightarrow> bool \<Rightarrow> bool \<Rightarrow> tag \<Rightarrow> cfml_scanner \<Rightarrow> cfml_token lexer \<Rightarrow> cfml_result" where
  "implicit_at_start_tag is_cf_context from_tag_open is_cf_tag next_tag s l =
     (let opened = open_tags is_cf_context s in
      if from_tag_open \<and> is_cf_context \<and> \<not> is_cf_tag \<and> opened \<noteq> [] \<and> tag_eq (last opened) next_tag
      then implicit_end True s l
      else if \<not> is_cf_context \<and> opened \<noteq> [] \<and> tag_eq (last opened) next_tag \<and>
        tag_implicitly_closes_self (last opened)
      then implicit_end False s l
      else if opened \<noteq> [] \<and> eof l then implicit_end is_cf_context s l
      else (False, s, l))"

definition scan_implicit_end_tag ::
  "cfml_scanner \<Rightarrow> cfml_token lexer \<Rightarrow> bool \<Rightarrow> bool \<Rightarrow> cfml_result" where
  "scan_implicit_end_tag s l is_cf_context from_tag_open =
     (let opened = open_tags is_cf_context s;
          is_closing_tag = (lookahead l = c_slash) in
      if \<not> is_closing_tag \<and> opened \<noteq> [] \<and>
        (if is_cf_context then cf_tag_is_void (last opened) else tag_is_void (last opened))
      then implicit_end is_cf_context s l
      else
        let ((name, is_cf_tag), l) = scan_tag_name (if is_closing_tag then advance l else l) in
        if name = [] \<and> \<not> eof l then (False, s, l)
        else if is_cf_tag \<and> \<not> is_closing_tag \<and> (name_is name ''ELSE'' \<or> name_is name ''ELSEIF'')
        then implicit_before_else is_cf_context s l
        else if is_cf_tag \<and> \<not> is_cf_context then
          if is_closing_tag then implicit_before_cf_end (cf_tag_for_name name) s l else (False, s, l)
        else if is_closing_tag then implicit_at_end_tag is_cf_context (name_tag is_cf_context name) s l
        else implicit_at_start_tag is_cf_context from_tag_open is_cf_tag (name_tag is_cf_context name) s l)"
section \<open>Start tags\<close>

definition start_symbol :: "bool \<Rightarrow> tag_type \<Rightarrow> cfml_token" where
  "start_symbol is_cf_context kind =
     (if kind = ELEMENT ''SCRIPT'' then SCRIPT_START_TAG_NAME
      else if kind = ELEMENT ''STYLE'' then STYLE_START_TAG_NAME
      else case kind of
        CF_IF \<Rightarrow> CF_IF_START_TAG_NAME
      | CF_XML \<Rightarrow> CF_XML_START_TAG_NAME
      | CF_QUERY \<Rightarrow> CF_QUERY_START_TAG_NAME
      | CF_SCRIPT \<Rightarrow> CF_SCRIPT_START_TAG_NAME
      | CF_SAVECONTENT \<Rightarrow> CF_SAVECONTENT_START_TAG_NAME
      | CF_OUTPUT \<Rightarrow> CF_OUTPUT_START_TAG_NAME
      | CF_FUNCTION \<Rightarrow> CF_FUNCTION_START_TAG_NAME
      | _ \<Rightarrow> if is_cf_context then CF_START_TAG_NAME else START_TAG_NAME)"

text \<open>The depths count the tags that make hashes expressions.\<close>

definition enter_tag :: "bool \<Rightarrow> tag_type \<Rightarrow> cfml_scanner \<Rightarrow> cfml_scanner" where
  "enter_tag is_cf_context kind s =
     (if is_cf_context \<and> kind = CF_OUTPUT then s\<lparr>cfoutput_depth := cfoutput_depth s + 1\<rparr>
      else if is_cf_context \<and> kind = CF_FUNCTION then s\<lparr>cffunction_depth := cffunction_depth s + 1\<rparr>
      else s)"

definition push_tag :: "bool \<Rightarrow> tag \<Rightarrow> cfml_scanner \<Rightarrow> cfml_scanner" where
  "push_tag is_cf_context t s =
     (if is_cf_context then s\<lparr>cf_tags := cf_tags s @ [t\<lparr>html_depth := of_nat (length (tags s))\<rparr>]\<rparr>
      else s\<lparr>tags := tags s @ [t]\<rparr>)"

definition start_tag :: "bool \<Rightarrow> tag \<Rightarrow> cfml_scanner \<Rightarrow> cfml_token lexer \<Rightarrow> cfml_result" where
  "start_tag is_cf_context t s l =
     (case tag_kind t of
        CF_VOID \<Rightarrow>
          if is_cf_context \<and> name_is (tag_name t) ''COMPONENT''
          then (True, s\<lparr>cfcomponent_depth := cfcomponent_depth s + 1\<rparr>, set_result CF_COMPONENT_START_TAG_NAME l)
          else (True, s, set_result CF_VOID_START_TAG_NAME l)
      | CF_SET \<Rightarrow> (True, s, set_result CF_SET_START_TAG_NAME l)
      | CF_RETURN \<Rightarrow> (True, s, set_result CF_RETURN_START_TAG_NAME l)
      | CF_ELSEIF \<Rightarrow> (True, s, set_result CF_ELSEIF_TAG_NAME l)
      | CF_ELSE \<Rightarrow> (True, s, set_result CF_ELSE_TAG_NAME l)
      | kind \<Rightarrow> (True, push_tag is_cf_context t (enter_tag is_cf_context kind s),
                 set_result (start_symbol is_cf_context kind) l))"

definition scan_start_tag_name :: "cfml_scanner \<Rightarrow> cfml_token lexer \<Rightarrow> bool \<Rightarrow> cfml_result" where
  "scan_start_tag_name s l is_cf_context =
     (if lookahead l = c_hash then
        (True, s\<lparr>tags := tags s @ [tag_new\<lparr>tag_kind := DYNAMIC\<rparr>]\<rparr>, set_result START_TAG_NAME l)
      else
        let ((name, is_cf_tag), l) = scan_tag_name l in
        if name = [] then (False, s, l)
        else if is_cf_tag \<and> \<not> is_cf_context then (False, s, l)
        else start_tag is_cf_context (name_tag is_cf_context name) s l)"

section \<open>End tags\<close>

definition end_symbol :: "bool \<Rightarrow> tag_type \<Rightarrow> cfml_token" where
  "end_symbol is_cf_context kind =
     (if is_cf_context then
        case kind of
          CF_FUNCTION \<Rightarrow> CF_FUNCTION_END_TAG_NAME
        | CF_XML \<Rightarrow> CF_XML_END_TAG_NAME
        | CF_QUERY \<Rightarrow> CF_QUERY_END_TAG_NAME
        | CF_SCRIPT \<Rightarrow> CF_SCRIPT_END_TAG_NAME
        | CF_SAVECONTENT \<Rightarrow> CF_SAVECONTENT_END_TAG_NAME
        | CF_IF \<Rightarrow> CF_IF_END_TAG_NAME
        | _ \<Rightarrow> CF_END_TAG_NAME
      else END_TAG_NAME)"

definition leave_tag :: "bool \<Rightarrow> tag_type \<Rightarrow> cfml_scanner \<Rightarrow> cfml_scanner" where
  "leave_tag is_cf_context kind s =
     (if is_cf_context \<and> kind = CF_OUTPUT \<and> cfoutput_depth s > 0
      then s\<lparr>cfoutput_depth := cfoutput_depth s - 1\<rparr>
      else if is_cf_context \<and> kind = CF_FUNCTION \<and> cffunction_depth s > 0
      then s\<lparr>cffunction_depth := cffunction_depth s - 1\<rparr>
      else s)"

definition set_end_tag_symbol ::
  "bool \<Rightarrow> tag \<Rightarrow> cfml_scanner \<Rightarrow> cfml_token lexer \<Rightarrow> cfml_scanner \<times> cfml_token lexer" where
  "set_end_tag_symbol is_cf_context t s l =
     (leave_tag is_cf_context (tag_kind t) s, set_result (end_symbol is_cf_context (tag_kind t)) l)"

text \<open>How far down the stack of HTML tags an end tag may reach: not below the innermost ColdFusion tag.\<close>

definition html_floor :: "bool \<Rightarrow> cfml_scanner \<Rightarrow> nat" where
  "html_floor is_cf_context s =
     (if \<not> is_cf_context \<and> cf_tags s \<noteq> [] then unat (html_depth (last (cf_tags s))) else 0)"

text \<open>The tags an end tag may close; the innermost of them is tried first, then the others.\<close>

definition reachable_tags :: "bool \<Rightarrow> cfml_scanner \<Rightarrow> tag list" where
  "reachable_tags is_cf_context s = drop (html_floor is_cf_context s) (open_tags is_cf_context s)"

definition end_tag :: "bool \<Rightarrow> tag \<Rightarrow> cfml_scanner \<Rightarrow> cfml_token lexer \<Rightarrow> cfml_result" where
  "end_tag is_cf_context t s l =
     (if is_cf_context \<and> tag_kind t = CF_VOID \<and> name_is (tag_name t) ''COMPONENT'' then
        (True,
         if cfcomponent_depth s > 0 then s\<lparr>cfcomponent_depth := cfcomponent_depth s - 1\<rparr> else s,
         set_result CF_COMPONENT_END_TAG_NAME l)
      else
        let within = reachable_tags is_cf_context s in
        if within \<noteq> [] \<and> tag_eq (last within) t \<or> list_ex (\<lambda>u. tag_eq u t) within then
          let (s, l) = set_end_tag_symbol is_cf_context t (pop_tag is_cf_context s) l in (True, s, l)
        else
          (True, s, set_result (if is_cf_context then ERRONEOUS_CF_END_TAG_NAME else ERRONEOUS_END_TAG_NAME) l))"

definition scan_end_tag_name :: "cfml_scanner \<Rightarrow> cfml_token lexer \<Rightarrow> bool \<Rightarrow> cfml_result" where
  "scan_end_tag_name s l is_cf_context =
     (if lookahead l = c_hash then
        (True,
         if tags s \<noteq> [] \<and> tag_kind (last (tags s)) = DYNAMIC then pop_tag False s else s,
         set_result END_TAG_NAME l)
      else
        let ((name, is_cf_tag), l) = scan_tag_name l in
        if name = [] then (False, s, l)
        else if is_cf_tag \<and> \<not> is_cf_context then (False, s, l)
        else end_tag is_cf_context (name_tag is_cf_context name) s l)"

section \<open>Delimiters\<close>

definition scan_cf_self_closing_tag_delimiter ::
  "cfml_scanner \<Rightarrow> cfml_token lexer \<Rightarrow> bool \<Rightarrow> cfml_result" where
  "scan_cf_self_closing_tag_delimiter s l is_void =
     (if lookahead l = c_gt then
        let l = advance l in
        if is_void then (True, s, set_result CF_SELF_CLOSING_VOID_TAG_DELIMITER l)
        else (True, if cf_tags s \<noteq> [] then pop_tag True s else s, set_result CF_SELF_CLOSING_TAG_DELIMITER l)
      else (False, s, l))"

definition scan_self_closing_tag_delimiter :: "cfml_scanner \<Rightarrow> cfml_token lexer \<Rightarrow> cfml_result" where
  "scan_self_closing_tag_delimiter s l =
     (if lookahead l = c_gt then
        (True, if tags s \<noteq> [] then pop_tag False s else s, set_result SELF_CLOSING_TAG_DELIMITER (advance l))
      else (False, s, l))"

definition scan_closetag_delim :: "cfml_token lexer \<Rightarrow> bool \<Rightarrow> bool \<times> cfml_token lexer" where
  "scan_closetag_delim l is_cf_context =
     (if lookahead l = c_gt then
        (True, set_result (if is_cf_context then CLOSE_CF_TAG_DELIM else CLOSE_TAG_DELIM) (mark_end (advance l)))
      else (False, l))"

definition scanner_in_hash_eval_context :: "cfml_scanner \<Rightarrow> bool" where
  "scanner_in_hash_eval_context s \<longleftrightarrow> cfoutput_depth s > 0 \<or> cfcomponent_depth s > 0 \<or> cffunction_depth s > 0"

section \<open>The scan\<close>

text \<open>A hash where expressions in hashes may stand.\<close>

definition scan_hash :: "cfml_scanner \<Rightarrow> cfml_token lexer \<Rightarrow> cfml_token lexer" where
  "scan_hash s l =
     (let l = advance l in
      if lookahead l = c_hash then set_result HASH_EMPTY (mark_end (advance l))
      else if scanner_in_hash_eval_context s then set_result START_HASH_EXPRESSION l
      else set_result SINGLE_HASH (mark_end l))"

definition hash_valid :: "(cfml_token \<Rightarrow> bool) \<Rightarrow> bool" where
  "hash_valid vs \<longleftrightarrow> (vs START_HASH_EXPRESSION \<or> vs SINGLE_HASH \<or> vs HASH_EMPTY) \<and> \<not> vs AUTOMATIC_SEMICOLON"

definition savecontent_body_valid :: "(cfml_token \<Rightarrow> bool) \<Rightarrow> bool" where
  "savecontent_body_valid vs \<longleftrightarrow>
     list_ex vs [CF_SAVECONTENT_BODY_CFML, CF_SAVECONTENT_BODY_HTML, CF_SAVECONTENT_BODY_SCRIPT,
       CF_SAVECONTENT_BODY_CSS, CF_SAVECONTENT_BODY_XML, CF_SAVECONTENT_BODY_SQL, CF_SAVECONTENT_BODY_RAW]"

text \<open>The end of the scan: semicolons and the question mark.\<close>

definition scan_operators ::
  "cfml_scanner \<Rightarrow> cfml_token lexer \<Rightarrow> (cfml_token \<Rightarrow> bool) \<Rightarrow> cfml_result" where
  "scan_operators s l vs =
     (if vs AUTOMATIC_SEMICOLON then
        let ((ret, scanned_comment), l) = cfml_scan_automatic_semicolon l (\<not> vs LOGICAL_OR) in
        if \<not> ret \<and> \<not> scanned_comment \<and> vs TERNARY_QMARK \<and> lookahead l = c_quest then
          let (b, l) = cfml_scan_ternary_qmark l in (b, s, l)
        else (ret, s, l)
      else if vs TERNARY_QMARK \<or> vs ELVIS_OPERATOR then
        let (b, l) = cfml_scan_ternary_qmark l in (b, s, l)
      else (False, s, l))"

text \<open>At \<open><\<close>, or at the end of the input: comments and implicit end tags.\<close>

definition scan_implicit_end ::
  "cfml_scanner \<Rightarrow> cfml_token lexer \<Rightarrow> (cfml_token \<Rightarrow> bool) \<Rightarrow> cfml_result" where
  "scan_implicit_end s l vs =
     (if implicit_cf_end_tag_valid vs then scan_implicit_end_tag s l True True
      else if vs IMPLICIT_END_TAG then scan_implicit_end_tag s l False True
      else scan_operators s l vs)"

definition scan_less ::
  "cfml_scanner \<Rightarrow> cfml_token lexer \<Rightarrow> (cfml_token \<Rightarrow> bool) \<Rightarrow> cfml_result" where
  "scan_less s l vs =
     (let l = advance (mark_end l) in
      if vs CFML_COMMENT \<and> lookahead l = c_bang then
        let (b, l) = cfml_scan_comment (advance l) in (b, s, l)
      else scan_implicit_end s l vs)"

definition scan_slash ::
  "cfml_scanner \<Rightarrow> cfml_token lexer \<Rightarrow> (cfml_token \<Rightarrow> bool) \<Rightarrow> cfml_result" where
  "scan_slash s l vs =
     (let l = advance l in
      if lookahead l = c_gt \<and> vs CF_SELF_CLOSING_TAG_DELIMITER then scan_cf_self_closing_tag_delimiter s l False
      else if lookahead l = c_gt \<and> vs CF_SELF_CLOSING_VOID_TAG_DELIMITER then
        scan_cf_self_closing_tag_delimiter s l True
      else if lookahead l = c_gt \<and> vs SELF_CLOSING_TAG_DELIMITER then scan_self_closing_tag_delimiter s l
      else if lookahead l = c_gt \<and> vs CLOSE_CF_TAG_DELIM then
        let (b, l) = scan_closetag_delim l True in (b, s, l)
      else if lookahead l = c_gt \<and> vs CLOSE_TAG_DELIM then
        let (b, l) = scan_closetag_delim l False in (b, s, l)
      else if lookahead l = c_slash \<or> lookahead l = c_star then
        let (b, l) = scan_script_comment l in if \<not> b then (False, s, l) else scan_operators s l vs
      else scan_operators s l vs)"

text \<open>At any other character: names of tags, and the end of a tag.\<close>

definition scan_name ::
  "cfml_scanner \<Rightarrow> cfml_token lexer \<Rightarrow> (cfml_token \<Rightarrow> bool) \<Rightarrow> cfml_result" where
  "scan_name s l vs =
     (if valid_start_tag_name vs \<and> no_content_symbols vs then
        scan_start_tag_name s l (valid_cf_start_tag_name vs)
      else if valid_end_tag_name vs \<and> no_content_symbols vs then
        scan_end_tag_name s l (valid_cf_end_tag_name vs)
      else if vs IMPLICIT_END_TAG then scan_implicit_end_tag s l False False
      else if vs IMPLICIT_CF_END_TAG then scan_implicit_end_tag s l True False
      else if vs ERRONEOUS_END_TAG_NAME then scan_end_tag_name s l False
      else if vs ERRONEOUS_CF_END_TAG_NAME then scan_end_tag_name s l True
      else if vs CF_COMPONENT_END_TAG_NAME then scan_end_tag_name s l True
      else
        let (b, l) = (if vs CLOSE_CF_TAG_DELIM then scan_closetag_delim l True else (False, l)) in
        if b then (True, s, l)
        else
          let (b, l) = (if vs CLOSE_TAG_DELIM then scan_closetag_delim l False else (False, l)) in
          if b then (True, s, l) else scan_operators s l vs)"

definition scan_markup ::
  "cfml_scanner \<Rightarrow> cfml_token lexer \<Rightarrow> (cfml_token \<Rightarrow> bool) \<Rightarrow> cfml_result" where
  "scan_markup s l vs =
     (if lookahead l = c_semi then (False, s, l)
      else if lookahead l = c_lt then scan_less s l vs
      else if lookahead l = 0 then scan_implicit_end s l vs
      else if lookahead l = c_slash then scan_slash s l vs
      else scan_name s l vs)"

text \<open>The content of tags that are not parsed. The result is \<open>None\<close> where the scan goes on, with the cursor
where the attempts left it.\<close>

definition scan_content ::
  "cfml_scanner \<Rightarrow> cfml_token lexer \<Rightarrow> (cfml_token \<Rightarrow> bool) \<Rightarrow> bool \<Rightarrow> bool option \<times> cfml_token lexer" where
  "scan_content s l vs is_cfquery_context =
     (let (b, l) = (if vs CF_COMPONENT_CONTENT \<and> tags s = [] \<and> cf_tags s = []
                    then scan_cf_component_content l else (False, l)) in
      if b then (Some True, l)
      else
        let (b, l) = (if vs RAW_TEXT \<and> \<not> vs START_TAG_NAME \<and> \<not> vs END_TAG_NAME
                      then scan_raw_text s l is_cfquery_context else (False, l)) in
        if b then (Some True, l)
        else if vs CF_XML_CONTENT then let (b, l) = scan_cfxml_content s l in (Some b, l)
        else if vs CF_QUERY_CONTENT then let (b, l) = scan_cfquery_content s l in (Some b, l)
        else if vs CF_SCRIPT_CONTENT then let (b, l) = scan_cfscript_content s l in (Some b, l)
        else
          let (b, l) = (if savecontent_body_valid vs then scan_cfsavecontent_body_type s l vs else (False, l)) in
          if b then (Some True, l)
          else if vs CF_SAVECONTENT_CONTENT then let (b, l) = scan_cfsavecontent_content s l in (Some b, l)
          else
            let (b, l) = (if vs HTML_TEXT then scan_html_text s l else (False, l)) in
            (if b then Some True else None, l))"

definition external_scanner_scan ::
  "cfml_scanner \<Rightarrow> cfml_token lexer \<Rightarrow> (cfml_token \<Rightarrow> bool) \<Rightarrow> nat \<Rightarrow> bool \<Rightarrow> cfml_result" where
  "external_scanner_scan s l valid_symbols count is_cfquery_context =
     (let vs = VS valid_symbols count;
          l = (if \<not> vs HTML_TEXT \<and> \<not> vs RAW_TEXT then advance_while iswspace True l else l) in
      if hash_valid vs \<and> lookahead l = c_hash then (True, s, scan_hash s l)
      else
        let (r, l) = scan_content s l vs is_cfquery_context in
        case r of Some b \<Rightarrow> (b, s, l) | None \<Rightarrow> scan_markup s l vs)"

definition cfml_scan ::
  "cfml_scanner \<Rightarrow> cfml_token lexer \<Rightarrow> (cfml_token \<Rightarrow> bool) \<Rightarrow> cfml_result" where
  "cfml_scan s l valid_symbols = external_scanner_scan s l valid_symbols scanner_symbol_count False"

text \<open>The scanner of CFQuery looks for the tokens up to \<open>CF_ELSE_TAG_NAME\<close>; its parser has two more.\<close>

definition cfquery_count :: nat where
  "cfquery_count = 21"

definition cfquery_scan ::
  "cfml_scanner \<Rightarrow> cfml_token lexer \<Rightarrow> (cfml_token \<Rightarrow> bool) \<Rightarrow> cfml_result" where
  "cfquery_scan s l valid_symbols = external_scanner_scan s l valid_symbols cfquery_count True"

section \<open>The scans only move forward\<close>

lemma fwd3_implicit_end [runs_rules]: "runs l0 l \<Longrightarrow> fwd3 l0 (implicit_end c s l)"
  unfolding implicit_end_def by (intro runs_rules)

lemma fwd3_implicit_rules [runs_rules]:
  "runs l0 l \<Longrightarrow> fwd3 l0 (implicit_before_else c s l)"
  "runs l0 l \<Longrightarrow> fwd3 l0 (implicit_before_cf_end t s l)"
  "runs l0 l \<Longrightarrow> fwd3 l0 (implicit_at_end_tag c t s l)"
  "runs l0 l \<Longrightarrow> fwd3 l0 (implicit_at_start_tag c fo cf t s l)"
  by (auto simp: implicit_before_else_def implicit_before_cf_end_def implicit_at_end_tag_def
      implicit_at_start_tag_def Let_def fwd_simps split: option.split intro!: fwd3_implicit_end)

lemma fwd_scan_tag_name [runs_rules]: "runs l0 l \<Longrightarrow> fwd l0 (scan_tag_name l)"
proof -
  assume "runs l0 l"
  then have "fwd l0 (cf_prefix l)" unfolding cf_prefix_def Let_def by (auto simp: fwd_simps)
  then show ?thesis unfolding scan_tag_name_def by (auto simp: Let_def fwd_def split: prod.split)
qed

lemma fwd3_name_case [runs_rules]:
  "fwd l0 p \<Longrightarrow> (\<And>n c l. runs l0 l \<Longrightarrow> fwd3 l0 (f n c l)) \<Longrightarrow> fwd3 l0 (let ((n, c), l) = p in f n c l)"
  by (auto simp: fwd_def split: prod.split)

lemma fwd3_scan_implicit_end_tag [runs_rules]:
  "runs l0 l \<Longrightarrow> fwd3 l0 (scan_implicit_end_tag s l c fo)"
  unfolding scan_implicit_end_tag_def Let_def [of "open_tags _ _"] Let_def [of "_ = _"]
  by (intro runs_rules)

lemma fwd3_start_tag [runs_rules]: "runs l0 l \<Longrightarrow> fwd3 l0 (start_tag c t s l)"
  unfolding start_tag_def by (auto simp: fwd_simps split: tag_type.split)

lemma fwd3_end_tag [runs_rules]: "runs l0 l \<Longrightarrow> fwd3 l0 (end_tag c t s l)"
  unfolding end_tag_def set_end_tag_symbol_def Let_def by (auto simp: fwd_simps)

lemma fwd3_tag_names [runs_rules]:
  "runs l0 l \<Longrightarrow> fwd3 l0 (scan_start_tag_name s l c)" "runs l0 l \<Longrightarrow> fwd3 l0 (scan_end_tag_name s l c)"
  unfolding scan_start_tag_name_def scan_end_tag_name_def by (intro runs_rules; assumption?)+

lemma fwd3_delimiters [runs_rules]:
  "runs l0 l \<Longrightarrow> fwd3 l0 (scan_cf_self_closing_tag_delimiter s l v)"
  "runs l0 l \<Longrightarrow> fwd3 l0 (scan_self_closing_tag_delimiter s l)"
  "runs l0 l \<Longrightarrow> fwd l0 (scan_closetag_delim l c)"
  unfolding scan_cf_self_closing_tag_delimiter_def scan_self_closing_tag_delimiter_def
    scan_closetag_delim_def
  by (intro runs_rules; assumption)+

lemma runs_scan_hash [runs_rules]: "runs l0 l \<Longrightarrow> runs l0 (scan_hash s l)"
  unfolding scan_hash_def by (intro runs_rules)

lemma fwd3_scan_operators [runs_rules]: "runs l0 l \<Longrightarrow> fwd3 l0 (scan_operators s l vs)"
  unfolding scan_operators_def by (intro runs_rules)

lemma fwd3_scan_implicit_end [runs_rules]: "runs l0 l \<Longrightarrow> fwd3 l0 (scan_implicit_end s l vs)"
  unfolding scan_implicit_end_def by (intro runs_rules)

lemma fwd3_scan_markup [runs_rules]: "runs l0 l \<Longrightarrow> fwd3 l0 (scan_markup s l vs)"
  unfolding scan_markup_def scan_less_def scan_slash_def scan_name_def by (intro runs_rules)

lemma fwd_scan_content [runs_rules]: "runs l0 l \<Longrightarrow> fwd l0 (scan_content s l vs q)"
  unfolding scan_content_def by (intro runs_rules)

lemma fwd3_external_scanner_scan: "fwd3 l (external_scanner_scan s l v n q)"
proof -
  define vs where "vs = VS v n"
  obtain m where m: "m = (if \<not> vs HTML_TEXT \<and> \<not> vs RAW_TEXT then advance_while iswspace True l else l)"
    by simp
  then have "runs l m" by simp
  moreover from this have "fwd l (scan_content s m vs q)" by (rule fwd_scan_content)
  ultimately show ?thesis
    unfolding external_scanner_scan_def Let_def vs_def [symmetric] m [symmetric]
    by (auto simp: fwd_simps fwd_def split: prod.split option.split intro!: runs_rules)
qed

end
