(* ===== verification/Cfml_State.thy ===== *)
theory Cfml_State
  imports Cfml
begin

text \<open>
  The state of the CFML scanner between two scans: the macros \<open>SERIALIZE_TAGS\<close> and \<open>DESERIALIZE_TAGS\<close> of
  \<^verbatim>\<open>cfml-common/scanner.h\<close> with the functions around them, the states that a buffer can hold, and the
  interpretation of the scanner interface.
\<close>

section \<open>Writing\<close>

definition bytes_of_u16 :: "16 word \<Rightarrow> byte list" where
  "bytes_of_u16 w = [ucast w, ucast (drop_bit 8 w)]"

definition u16_of_bytes :: "byte \<Rightarrow> byte \<Rightarrow> 16 word" where
  "u16_of_bytes a b = ucast a OR push_bit 8 (ucast b)"

lemma u16_of_bytes_of_u16: "u16_of_bytes (ucast w) (ucast (drop_bit 8 w)) = w"
  by (rule bit_word_eqI)
    (auto simp: u16_of_bytes_def bit_or_iff bit_push_bit_iff bit_ucast_iff bit_drop_bit_eq)

text \<open>\<open>strncpy\<close> copies up to a NUL and fills with NULs.\<close>

definition strncpy :: "byte list \<Rightarrow> nat \<Rightarrow> byte list" where
  "strncpy src n = (let p = takeWhile (\<lambda>b. b \<noteq> 0) (take n src) in p @ replicate (n - length p) 0)"

text \<open>One round of the loop; \<open>None\<close> when it breaks off.\<close>

definition serialize_tag :: "nat \<Rightarrow> tag \<Rightarrow> byte list option" where
  "serialize_tag used t =
     (if tag_has_name (tag_kind t) then
        let len = min 255 (length (tag_name t)) in
        if used + 2 + len + 4 \<ge> serialization_buffer_size then None
        else Some ([of_nat (type_number (tag_kind t)), of_nat len] @ strncpy (tag_name t) len @
                   bytes_of_u32 (html_depth t))
      else if used + 1 \<ge> serialization_buffer_size then None
      else Some [of_nat (type_number (tag_kind t))])"

fun serialize_loop :: "nat \<Rightarrow> tag list \<Rightarrow> nat \<times> byte list" where
  "serialize_loop used [] = (0, [])"
| "serialize_loop used (t # ts) =
     (case serialize_tag used t of
        None \<Rightarrow> (0, [])
      | Some b \<Rightarrow> let (n, bs) = serialize_loop (used + length b) ts in (Suc n, b @ bs))"

definition serialize_tags :: "nat \<Rightarrow> tag list \<Rightarrow> byte list" where
  "serialize_tags used ts =
     (if used + 4 > serialization_buffer_size then []
      else
        let count = min 65535 (length ts);
            (n, bs) = serialize_loop (used + 4) (take count ts) in
        bytes_of_u16 (of_nat n) @ bytes_of_u16 (of_nat count) @ bs)"

definition cfml_serialize :: "cfml_scanner \<Rightarrow> byte list" where
  "cfml_serialize s =
     (let html = serialize_tags 0 (tags s);
          both = html @ serialize_tags (length html) (cf_tags s) in
      if length both + 6 < serialization_buffer_size then
        both @ bytes_of_u16 (cfoutput_depth s) @ bytes_of_u16 (cfcomponent_depth s) @
        bytes_of_u16 (cffunction_depth s)
      else both)"

section \<open>Reading\<close>

text \<open>What is left of the buffer is passed on; a read behind its end is \<open>None\<close>.\<close>

fun read_u16 :: "byte list \<Rightarrow> (16 word \<times> byte list) option" where
  "read_u16 (a # b # bs) = Some (u16_of_bytes a b, bs)"
| "read_u16 _ = None"

text \<open>Bytes that are no type of the enumeration are never written; they are \<open>None\<close>, too.\<close>

fun read_tag :: "byte list \<Rightarrow> (tag \<times> byte list) option" where
  "read_tag [] = None"
| "read_tag (b # bs) =
     (if unat b \<ge> length tag_types then None
      else if tag_has_name (tag_types ! unat b) then
        case bs of
          [] \<Rightarrow> None
        | n # bs \<Rightarrow>
            if length bs < unat n + 4 then None
            else Some (\<lparr>tag_kind = tag_types ! unat b, tag_name = take (unat n) bs,
                        html_depth = u32_of_bytes (drop (unat n) bs)\<rparr>, drop (unat n + 4) bs)
      else Some (tag_new\<lparr>tag_kind := tag_types ! unat b\<rparr>, bs))"

fun read_tags :: "nat \<Rightarrow> byte list \<Rightarrow> (tag list \<times> byte list) option" where
  "read_tags 0 bs = Some ([], bs)"
| "read_tags (Suc n) bs =
     (case read_tag bs of
        None \<Rightarrow> None
      | Some (t, bs) \<Rightarrow> map_option (\<lambda>(ts, bs). (t # ts, bs)) (read_tags n bs))"

text \<open>Tags that were not written come back as new ones.\<close>

definition deserialize_tags :: "byte list \<Rightarrow> (tag list \<times> byte list) option" where
  "deserialize_tags bs =
     (case read_u16 bs of
        None \<Rightarrow> None
      | Some (serialized, bs) \<Rightarrow>
          case read_u16 bs of
            None \<Rightarrow> None
          | Some (count, bs) \<Rightarrow>
              map_option (\<lambda>(ts, bs). (ts @ replicate (unat count - unat serialized) tag_new, bs))
                (read_tags (unat serialized) bs))"

definition read_depth :: "byte list \<Rightarrow> 16 word \<times> byte list" where
  "read_depth bs = (case read_u16 bs of Some (d, bs) \<Rightarrow> (d, bs) | None \<Rightarrow> (0, bs))"

definition cfml_deserialize :: "cfml_scanner \<Rightarrow> byte list \<Rightarrow> cfml_scanner option" where
  "cfml_deserialize s buffer =
     (if buffer = [] then Some cfml_create
      else
        case deserialize_tags buffer of
          None \<Rightarrow> None
        | Some (html, bs) \<Rightarrow>
            case deserialize_tags bs of
              None \<Rightarrow> None
            | Some (cf, bs) \<Rightarrow>
                let (output, bs) = read_depth bs;
                    (component, bs) = read_depth bs;
                    (func, bs) = read_depth bs in
                Some \<lparr>tags = html, cf_tags = cf, cfoutput_depth = output, cfcomponent_depth = component,
                      cffunction_depth = func\<rparr>)"

section \<open>Well formed states\<close>

text \<open>
  A tag has a name exactly when its type has one, and the name is a C string without NUL; the depth is
  that of a named tag.
\<close>

definition tag_ok :: "tag \<Rightarrow> bool" where
  "tag_ok t \<longleftrightarrow>
     known_type (tag_kind t) \<and>
     (if tag_has_name (tag_kind t) then 0 \<notin> set (tag_name t) else tag_name t = [] \<and> html_depth t = 0)"

text \<open>
  The two stacks hold tags of different types: one that is an element, of another name or without a name
  that could be read, and one whose type is that of its name and which needs an end tag.
\<close>

definition html_tag_ok :: "tag \<Rightarrow> bool" where
  "html_tag_ok t \<longleftrightarrow>
     html_depth t = 0 \<and>
     (case tag_kind t of
        ELEMENT n \<Rightarrow> n \<in> set (void_elements @ other_elements) \<and> tag_name t = []
      | CUSTOM \<Rightarrow> tag_name t \<noteq> [] \<and> 0 \<notin> set (tag_name t) \<and> tag_type_for_name (tag_name t) = CUSTOM
      | DYNAMIC \<Rightarrow> tag_name t = []
      | _ \<Rightarrow> False)"

definition cf_tag_ok :: "tag \<Rightarrow> bool" where
  "cf_tag_ok t \<longleftrightarrow>
     tag_name t \<noteq> [] \<and> 0 \<notin> set (tag_name t) \<and> tag_kind t = cf_type_for_name (tag_name t) \<and>
     tag_kind t \<notin> {CF_VOID, CF_SET, CF_RETURN, CF_ELSEIF, CF_ELSE}"

text \<open>The bytes that the tags of a state take, and the states that take no more than there is room for.\<close>

definition tag_size :: "tag \<Rightarrow> nat" where
  "tag_size t = (if tag_has_name (tag_kind t) then length (tag_name t) + 6 else 1)"

definition tags_size :: "tag list \<Rightarrow> nat" where
  "tags_size ts = sum_list (List.map tag_size ts)"

definition cfml_storable :: "cfml_scanner \<Rightarrow> bool" where
  "cfml_storable s \<longleftrightarrow>
     list_all tag_ok (tags s @ cf_tags s) \<and>
     list_all (\<lambda>t. length (tag_name t) \<le> 255) (tags s @ cf_tags s) \<and>
     tags_size (tags s) + tags_size (cf_tags s) + 14 < serialization_buffer_size"

definition cfml_restore :: "cfml_scanner \<Rightarrow> byte list \<Rightarrow> cfml_scanner" where
  "cfml_restore s bytes = (case cfml_deserialize s bytes of Some t \<Rightarrow> t | None \<Rightarrow> s)"

definition cfml_scan_fun :: "(cfml_scanner, cfml_token) scan_fun" where
  "cfml_scan_fun s l valid = Some (cfml_scan s l valid)"

definition cfquery_scan_fun :: "(cfml_scanner, cfml_token) scan_fun" where
  "cfquery_scan_fun s l valid = Some (cfquery_scan s l valid)"

section \<open>The interface\<close>

lemma runs_cfml_scan:
  "cfml_scan_fun s l v = Some (ok, s', l') \<Longrightarrow> runs l l'"
  "cfquery_scan_fun s l v = Some (ok, s', l') \<Longrightarrow> runs l l'"
  using fwd3_external_scanner_scan [of l s v scanner_symbol_count False]
    fwd3_external_scanner_scan [of l s v cfquery_count True]
  by (auto simp: cfml_scan_fun_def cfquery_scan_fun_def cfml_scan_def cfquery_scan_def fwd_simps)

section \<open>A state that fits is restored\<close>

lemma distinct_tag_types: "distinct tag_types"
  by code_simp

lemma length_tag_types: "length tag_types < 256"
  by code_simp

lemma type_number_nth: "known_type t \<Longrightarrow> type_number t < length tag_types \<and> tag_types ! type_number t = t"
proof -
  assume "known_type t"
  then obtain xs ys where t: "tag_types = xs @ t # ys" "t \<notin> set xs"
    by (metis known_type_def split_list_first)
  then have "takeWhile (\<lambda>u. u \<noteq> t) (xs @ t # ys) = xs" by (subst takeWhile_append2) auto
  with t(1) have "takeWhile (\<lambda>u. u \<noteq> t) tag_types = xs" by (simp only:)
  then have "type_number t = length xs" by (simp add: type_number_def)
  then show ?thesis by (simp only: t(1) nth_append_length) simp
qed

lemma strncpy_all: "0 \<notin> set bs \<Longrightarrow> length bs = n \<Longrightarrow> strncpy bs n = bs"
proof -
  assume a: "0 \<notin> set bs" "length bs = n"
  then have p: "takeWhile (\<lambda>b. b \<noteq> 0) (take n bs) = bs" by (subst takeWhile_eq_all_conv [THEN iffD2]) auto
  show ?thesis unfolding strncpy_def p using a by simp
qed

text \<open>One tag that there is room for.\<close>

lemma serialize_tag_fits:
  assumes "tag_ok t" and "length (tag_name t) \<le> 255" and "used + tag_size t < serialization_buffer_size"
  shows "\<exists>b. serialize_tag used t = Some b \<and> length b = tag_size t \<and> read_tag (b @ bs) = Some (t, bs)"
proof -
  have n: "type_number (tag_kind t) < length tag_types" "tag_types ! type_number (tag_kind t) = tag_kind t"
    using type_number_nth assms(1) by (auto simp: tag_ok_def)
  then have u: "unat (of_nat (type_number (tag_kind t)) :: byte) = type_number (tag_kind t)"
    using length_tag_types by (simp add: unat_of_nat)
  have v: "unat (of_nat (length (tag_name t)) :: byte) = length (tag_name t)"
    using assms(2) by (simp add: unat_of_nat)
  show ?thesis
  proof (cases "tag_has_name (tag_kind t)")
    case True
    then have "0 \<notin> set (tag_name t)" using assms(1) by (simp add: tag_ok_def)
    then have "strncpy (tag_name t) (length (tag_name t)) = tag_name t" by (rule strncpy_all) simp
    then show ?thesis
      using True assms n u v by (cases t) (simp add: serialize_tag_def tag_size_def min_absorb2)
  next
    case False
    then show ?thesis
      using assms n u by (cases t) (simp add: serialize_tag_def tag_size_def tag_ok_def tag_new_def)
  qed
qed

lemma serialize_loop_fits:
  assumes "list_all tag_ok ts" and "list_all (\<lambda>t. length (tag_name t) \<le> 255) ts"
    and "used + tags_size ts < serialization_buffer_size"
  shows "\<exists>b. serialize_loop used ts = (length ts, b) \<and> length b = tags_size ts \<and>
    (\<forall>bs. read_tags (length ts) (b @ bs) = Some (ts, bs))"
  using assms
proof (induction ts arbitrary: used)
  case Nil
  then show ?case by (simp add: tags_size_def)
next
  case (Cons t ts)
  from Cons.prems obtain b where b: "serialize_tag used t = Some b" "length b = tag_size t"
    using serialize_tag_fits [of t used "[]"] by (auto simp: tags_size_def)
  moreover from this Cons.prems have "read_tag (b @ bs) = Some (t, bs)" for bs
    using serialize_tag_fits [of t used bs] by (auto simp: tags_size_def)
  moreover obtain b' where "serialize_loop (used + length b) ts = (length ts, b')" "length b' = tags_size ts"
    "\<And>bs. read_tags (length ts) (b' @ bs) = Some (ts, bs)"
    using Cons.IH [of "used + length b"] Cons.prems b by (auto simp: tags_size_def add.assoc)
  ultimately show ?case by (auto simp: tags_size_def)
qed

text \<open>A stack that there is room for, of no more tags than the header can count.\<close>

lemma read_u16_of_bytes [simp]: "read_u16 (bytes_of_u16 w @ bs) = Some (w, bs)"
  by (simp add: bytes_of_u16_def u16_of_bytes_of_u16)

lemma length_bytes_of_u16 [simp]: "length (bytes_of_u16 w) = 2"
  by (simp add: bytes_of_u16_def)

lemma length_le_tags_size: "length ts \<le> tags_size ts"
  by (induction ts) (auto simp: tags_size_def tag_size_def)

lemma serialize_tags_fits:
  assumes "list_all tag_ok ts" and "list_all (\<lambda>t. length (tag_name t) \<le> 255) ts"
    and "used + 4 + tags_size ts < serialization_buffer_size"
  shows "\<exists>b. serialize_tags used ts = b \<and> length b = 4 + tags_size ts \<and>
    (\<forall>bs. deserialize_tags (b @ bs) = Some (ts, bs))"
proof -
  have n: "length ts < 2 ^ 16"
    using length_le_tags_size [of ts] assms(3) by (simp add: serialization_buffer_size_def)
  then have u: "unat (of_nat (length ts) :: 16 word) = length ts" by (simp add: unat_of_nat)
  obtain b where "serialize_loop (used + 4) ts = (length ts, b)" "length b = tags_size ts"
    "\<And>bs. read_tags (length ts) (b @ bs) = Some (ts, bs)"
    using serialize_loop_fits [OF assms(1,2), of "used + 4"] assms(3) by auto
  moreover from n have "min 65535 (length ts) = length ts" by simp
  ultimately show ?thesis
    using assms(3) u by (simp add: serialize_tags_def deserialize_tags_def Let_def)
qed

lemma length_strncpy [simp]: "length (strncpy src n) = n"
proof -
  have "length (takeWhile (\<lambda>b. b \<noteq> 0) (take n src)) \<le> n"
    using length_takeWhile_le [of "\<lambda>b. b \<noteq> 0" "take n src"] by simp
  then show ?thesis by (simp add: strncpy_def Let_def)
qed

lemma length_serialize_tag: "serialize_tag used t = Some b \<Longrightarrow> used + length b < serialization_buffer_size"
  by (auto simp: serialize_tag_def Let_def split: if_splits)


lemma length_serialize_loop:
  "used \<le> serialization_buffer_size \<Longrightarrow>
    used + length (snd (serialize_loop used ts)) \<le> serialization_buffer_size"
proof (induction ts arbitrary: used)
  case (Cons t ts)
  show ?case
  proof (cases "serialize_tag used t")
    case None
    then show ?thesis using Cons.prems by simp
  next
    case (Some b)
    then have "used + length b + length (snd (serialize_loop (used + length b) ts)) \<le> serialization_buffer_size"
      using Cons.IH length_serialize_tag by (simp add: less_imp_le)
    then show ?thesis using Some by (simp add: split_beta Let_def)
  qed
qed simp

lemma length_serialize_tags:
  "used \<le> serialization_buffer_size \<Longrightarrow>
    used + length (serialize_tags used ts) \<le> serialization_buffer_size"
  using length_serialize_loop [of "used + 4" "take (min 65535 (length ts)) ts"]
  by (auto simp: serialize_tags_def Let_def split_beta)

lemma length_cfml_serialize: "length (cfml_serialize s) \<le> serialization_buffer_size"
proof -
  let ?h = "serialize_tags 0 (tags s)"
  have "length ?h \<le> serialization_buffer_size" using length_serialize_tags [of 0] by simp
  then have "length (?h @ serialize_tags (length ?h) (cf_tags s)) \<le> serialization_buffer_size"
    using length_serialize_tags [of "length ?h"] by simp
  then show ?thesis by (simp add: cfml_serialize_def Let_def)
qed

lemma read_depth_of_bytes [simp]: "read_depth (bytes_of_u16 w @ bs) = (w, bs)"
  by (simp add: read_depth_def)

lemma cfml_codec:
  assumes "cfml_storable s"
  shows "cfml_deserialize t (cfml_serialize s) = Some s"
proof -
  let ?o = "bytes_of_u16 (cfoutput_depth s) @ bytes_of_u16 (cfcomponent_depth s) @ bytes_of_u16 (cffunction_depth s)"
  define h where "h = serialize_tags 0 (tags s)"
  define c where "c = serialize_tags (length h) (cf_tags s)"
  have h: "length h = 4 + tags_size (tags s)" "\<And>bs. deserialize_tags (h @ bs) = Some (tags s, bs)"
    using serialize_tags_fits [of "tags s" 0] assms by (auto simp: cfml_storable_def h_def)
  moreover have c: "length c = 4 + tags_size (cf_tags s)" "\<And>bs. deserialize_tags (c @ bs) = Some (cf_tags s, bs)"
    using serialize_tags_fits [of "cf_tags s" "length h"] assms h(1) by (auto simp: cfml_storable_def c_def)
  ultimately have s: "cfml_serialize s = h @ c @ ?o"
    using assms unfolding cfml_serialize_def Let_def h_def [symmetric] c_def [symmetric]
    by (simp add: cfml_storable_def)
  have "read_depth (bytes_of_u16 w) = (w, [])" for w using read_depth_of_bytes [of w "[]"] by simp
  moreover have "h \<noteq> []" using h(1) by auto
  ultimately show ?thesis by (simp add: cfml_deserialize_def s h(2) c(2))
qed

lemma cfml_storable_create: "cfml_storable cfml_create"
  by (simp add: cfml_storable_def cfml_create_def tags_size_def serialization_buffer_size_def)

interpretation cfml: storing_scanner cfml_create cfml_storable cfml_serialize cfml_restore cfml_scan_fun
  by unfold_locales
    (auto simp: cfml_storable_create length_cfml_serialize cfml_restore_def cfml_codec dest: runs_cfml_scan)

interpretation cfquery: storing_scanner cfml_create cfml_storable cfml_serialize cfml_restore cfquery_scan_fun
  by unfold_locales (auto dest: runs_cfml_scan)

section \<open>What is kept on the stacks\<close>

lemma find_mem: "List.find P ps = Some p \<Longrightarrow> p \<in> set ps"
  unfolding find_Some_iff by (metis nth_mem)

lemma tag_type_for_name_cases:
  "tag_type_for_name name = CUSTOM \<or>
   (\<exists>n \<in> set (void_elements @ other_elements). tag_type_for_name name = ELEMENT n)"
proof (cases "List.find (\<lambda>(n, _). name_is name n) tag_types_by_tag_name")
  case None
  then show ?thesis by (simp add: tag_type_for_name_def)
next
  case (Some p)
  then have "p \<in> set tag_types_by_tag_name" by (rule find_mem)
  then have "snd p = CUSTOM \<or> snd p \<in> ELEMENT ` set (void_elements @ other_elements)"
    unfolding tag_types_by_tag_name_def by (simp only: set_append set_map) auto
  then show ?thesis using Some by (auto simp: tag_type_for_name_def split: prod.split)
qed

lemma cf_type_for_name_cases:
  "cf_type_for_name name \<in> {CFML, CF_VOID} \<union> snd ` set cf_types"
proof (cases "List.find (\<lambda>(n, _). name_is name n) cf_types")
  case None
  then show ?thesis by (simp add: cf_type_for_name_def)
next
  case (Some p)
  then have "p \<in> set cf_types" by (rule find_mem)
  then show ?thesis using Some by (force simp: cf_type_for_name_def split: prod.split)
qed

lemma cf_type_for_name_known: "known_type (cf_type_for_name name) \<and> tag_has_name (cf_type_for_name name)"
  using cf_type_for_name_cases [of name]
  by (auto simp: cf_types_def known_type_def tag_types_def tag_has_name_def named_types_def)

lemma html_tag_ok_tag_ok: "html_tag_ok t \<Longrightarrow> tag_ok t"
  by (auto simp: html_tag_ok_def tag_ok_def known_type_def tag_types_def tag_has_name_def named_types_def
      split: tag_type.splits)

lemma cf_tag_ok_tag_ok: "cf_tag_ok t \<Longrightarrow> tag_ok t"
  using cf_type_for_name_known by (auto simp: cf_tag_ok_def tag_ok_def)

lemma html_tag_ok_for_name: "name \<noteq> [] \<Longrightarrow> 0 \<notin> set name \<Longrightarrow> html_tag_ok (tag_for_name name)"
  using tag_type_for_name_cases [of name]
  by (auto simp: html_tag_ok_def tag_for_name_def tag_new_def)

lemma html_tag_ok_dynamic: "html_tag_ok (tag_new\<lparr>tag_kind := DYNAMIC\<rparr>)"
  by (simp add: html_tag_ok_def tag_new_def)

lemma cf_tag_ok_for_name:
  "name \<noteq> [] \<Longrightarrow> 0 \<notin> set name \<Longrightarrow>
    cf_type_for_name name \<notin> {CF_VOID, CF_SET, CF_RETURN, CF_ELSEIF, CF_ELSE} \<Longrightarrow>
    cf_tag_ok ((cf_tag_for_name name)\<lparr>html_depth := d\<rparr>)"
  by (simp add: cf_tag_ok_def cf_tag_for_name_def tag_new_def)

text \<open>Names are made of letters, digits and three other characters.\<close>

lemma tag_name_char_not_nul: "tag_name_char c \<Longrightarrow> to_char (towupper c) \<noteq> 0"
proof -
  assume "tag_name_char c"
  then have c: "0 < towupper c" "towupper c < 128"
    by (auto simp: tag_name_char_def towupper_def iswalnum_def iswalpha_def iswdigit_def)
  then have "char_val (to_char (towupper c)) = towupper c" by (intro char_val_to_char) auto
  moreover have "char_val 0 = 0" by (simp add: char_val_def)
  ultimately show ?thesis using c by force
qed

lemma scan_tag_name_not_nul: "scan_tag_name l = ((name, c), l') \<Longrightarrow> 0 \<notin> set name"
proof -
  assume n: "scan_tag_name l = ((name, c), l')"
  obtain pre b m where p: "cf_prefix l = ((pre, b), m)" by (metis surj_pair)
  then have "0 \<notin> set pre"
    using tag_name_char_not_nul [of "lookahead l"]
    by (auto simp: cf_prefix_def Let_def tag_name_char_def towlower_def iswalnum_def iswalpha_def split: if_splits)
  moreover have "0 \<notin> set (List.map (to_char \<circ> towupper) (takeWhile tag_name_char (text_ahead m)))"
    using tag_name_char_not_nul by (force dest: set_takeWhileD)
  moreover have "name = pre @ List.map (to_char \<circ> towupper) (takeWhile tag_name_char (text_ahead m))"
    using n p by (simp add: scan_tag_name_def)
  ultimately show ?thesis by simp
qed

section \<open>More elements than the buffer holds\<close>

lemma serialize_loop_unnamed:
  "list_all (\<lambda>t. \<not> tag_has_name (tag_kind t)) ts \<Longrightarrow> used < serialization_buffer_size \<Longrightarrow>
    length (snd (serialize_loop used ts)) = min (length ts) (serialization_buffer_size - 1 - used)"
proof (induction ts arbitrary: used)
  case (Cons t ts)
  then show ?case by (auto simp: serialize_tag_def split_beta Let_def)
qed simp

lemma serialize_tags_unnamed:
  assumes "list_all (\<lambda>t. \<not> tag_has_name (tag_kind t)) ts" and "1017 \<le> length ts"
  shows "1021 \<le> length (serialize_tags 0 ts)" "length (serialize_tags 0 ts) \<le> 1023"
proof -
  let ?ts = "take (min 65535 (length ts)) ts"
  have "list_all (\<lambda>t. \<not> tag_has_name (tag_kind t)) ?ts"
    using assms(1) by (auto simp: list_all_iff dest: in_set_takeD)
  then have "length (snd (serialize_loop 4 ?ts)) = min (length ?ts) 1019"
    using serialize_loop_unnamed [of ?ts 4] by (simp add: serialization_buffer_size_def)
  moreover have "1017 \<le> length ?ts" using assms(2) by simp
  ultimately show "1021 \<le> length (serialize_tags 0 ts)" "length (serialize_tags 0 ts) \<le> 1023"
    by (simp_all add: serialize_tags_def Let_def split_beta serialization_buffer_size_def)
qed


lemma serialize_tag_read:
  assumes "serialize_tag used t = Some b" and "tag_ok t" and "length (tag_name t) \<le> 255"
  shows "read_tag (b @ bs) = Some (t, bs)"
proof -
  have "used + tag_size t < serialization_buffer_size"
    using assms(1,3) by (auto simp: serialize_tag_def tag_size_def Let_def split: if_splits)
  then show ?thesis using serialize_tag_fits [OF assms(2,3), of used bs] assms(1) by auto
qed

lemma serialize_loop_read:
  "list_all tag_ok ts \<Longrightarrow> list_all (\<lambda>t. length (tag_name t) \<le> 255) ts \<Longrightarrow>
    fst (serialize_loop used ts) \<le> length ts \<and>
    read_tags (fst (serialize_loop used ts)) (snd (serialize_loop used ts) @ bs) =
      Some (take (fst (serialize_loop used ts)) ts, bs)"
proof (induction ts arbitrary: used)
  case (Cons t ts)
  show ?case
  proof (cases "serialize_tag used t")
    case (Some b)
    then have "read_tag (b @ bs) = Some (t, bs)" for bs using Cons.prems by (intro serialize_tag_read) auto
    then show ?thesis using Cons Some by (simp add: split_beta Let_def)
  qed simp
qed simp

text \<open>From 1017 open elements on, there is no room for the header of the second stack.\<close>

lemma deserialize_unnamed:
  assumes "list_all tag_ok ts" and "list_all (\<lambda>t. \<not> tag_has_name (tag_kind t)) ts"
  shows "\<exists>us. deserialize_tags (serialize_tags 0 ts) = Some (us, [])"
proof -
  let ?ts = "take (min 65535 (length ts)) ts"
  have "list_all tag_ok ?ts" using assms(1) by (auto simp: list_all_iff dest: in_set_takeD)
  moreover have "list_all (\<lambda>t. length (tag_name t) \<le> 255) ?ts"
    using assms by (auto simp: list_all_iff tag_ok_def dest!: in_set_takeD)
  ultimately have r: "fst (serialize_loop 4 ?ts) \<le> length ?ts"
    "read_tags (fst (serialize_loop 4 ?ts)) (snd (serialize_loop 4 ?ts)) =
      Some (take (fst (serialize_loop 4 ?ts)) ?ts, [])"
    using serialize_loop_read [of ?ts 4 "[]"] by auto
  then have "unat (of_nat (fst (serialize_loop 4 ?ts)) :: 16 word) = fst (serialize_loop 4 ?ts)"
    by (simp add: unat_of_nat)
  then show ?thesis
    using r(2) by (simp add: serialize_tags_def Let_def split_beta serialization_buffer_size_def deserialize_tags_def)
qed

lemma no_second_header:
  assumes "list_all tag_ok (tags s)" and "list_all (\<lambda>t. \<not> tag_has_name (tag_kind t)) (tags s)"
    and "1017 \<le> length (tags s)"
  shows "cfml_serialize s = serialize_tags 0 (tags s) \<and> cfml_deserialize t (cfml_serialize s) = None"
proof -
  let ?h = "serialize_tags 0 (tags s)"
  have h: "1021 \<le> length ?h" using serialize_tags_unnamed assms by blast
  then have "cfml_serialize s = ?h"
    by (simp add: cfml_serialize_def Let_def serialize_tags_def [of "length ?h"] serialization_buffer_size_def)
  moreover obtain us where "deserialize_tags ?h = Some (us, [])" using deserialize_unnamed assms by blast
  moreover have "?h \<noteq> []" using h by auto
  moreover have "deserialize_tags [] = None" by (simp add: deserialize_tags_def)
  ultimately show ?thesis by (simp add: cfml_deserialize_def)
qed

end
