(* ===== verification/Cfml_Protocol.thy ===== *)
theory Cfml_Protocol
  imports Cfml_State
begin

text \<open>
  The protocol of the CFML scanner: what each token does to the stacks of open tags and to the depths, as a
  step relation that the scans refine.
\<close>

section \<open>The protocol\<close>

definition neutral_tokens :: "cfml_token list" where
  "neutral_tokens =
     [AUTOMATIC_SEMICOLON, TERNARY_QMARK, ELVIS_OPERATOR, ERRONEOUS_CF_END_TAG_NAME,
      CF_SELF_CLOSING_VOID_TAG_DELIMITER, RAW_TEXT, CFML_COMMENT, CLOSE_TAG_DELIM, CLOSE_CF_TAG_DELIM,
      HTML_TEXT, CF_VOID_START_TAG_NAME, CF_SET_START_TAG_NAME, CF_ELSEIF_TAG_NAME, CF_ELSE_TAG_NAME,
      CF_RETURN_START_TAG_NAME, ERRONEOUS_END_TAG_NAME, START_HASH_EXPRESSION, SINGLE_HASH, HASH_EMPTY,
      CF_XML_CONTENT, CF_QUERY_CONTENT, CF_SCRIPT_CONTENT, CF_SAVECONTENT_BODY_CFML,
      CF_SAVECONTENT_BODY_HTML, CF_SAVECONTENT_BODY_SCRIPT, CF_SAVECONTENT_BODY_CSS,
      CF_SAVECONTENT_BODY_XML, CF_SAVECONTENT_BODY_SQL, CF_SAVECONTENT_BODY_RAW, CF_SAVECONTENT_CONTENT,
      CF_COMPONENT_CONTENT]"

text \<open>
  A start tag pushes a tag of its own stack, and one of ColdFusion records how many tags of HTML are open.
  An implicit end tag pops a tag there is. An end tag of ColdFusion pops one; an end tag of HTML pops one
  that was opened inside of the innermost tag of ColdFusion, and an end tag with a hash for its name pops
  a tag with a hash or nothing. A self-closing tag pops a tag if there is one.
\<close>

inductive tag_step :: "cfml_scanner \<Rightarrow> cfml_token \<Rightarrow> cfml_scanner \<Rightarrow> bool" where
  html_start: "html_tag_ok t \<Longrightarrow> tag_step s (start_symbol False (tag_kind t)) (s\<lparr>tags := tags s @ [t]\<rparr>)"
| cf_start: "cf_tag_ok t \<Longrightarrow> html_depth t = of_nat (length (tags s)) \<Longrightarrow>
    s' = enter_tag True (tag_kind t) s \<Longrightarrow>
    tag_step s (start_symbol True (tag_kind t)) (s'\<lparr>cf_tags := cf_tags s @ [t]\<rparr>)"
| component_start: "tag_step s CF_COMPONENT_START_TAG_NAME (s\<lparr>cfcomponent_depth := cfcomponent_depth s + 1\<rparr>)"
| implicit_html: "tags s \<noteq> [] \<Longrightarrow> tag_step s IMPLICIT_END_TAG (pop_tag False s)"
| implicit_cf: "cf_tags s \<noteq> [] \<Longrightarrow> tag_step s IMPLICIT_CF_END_TAG (pop_tag True s)"
| html_end: "html_floor False s < length (tags s) \<Longrightarrow> tag_step s END_TAG_NAME (pop_tag False s)"
| hash_end: "tag_step s END_TAG_NAME
    (if tags s \<noteq> [] \<and> tag_kind (last (tags s)) = DYNAMIC then pop_tag False s else s)"
| cf_end: "cf_tags s \<noteq> [] \<Longrightarrow> tag_step s (end_symbol True kind) (leave_tag True kind (pop_tag True s))"
| component_end: "tag_step s CF_COMPONENT_END_TAG_NAME
    (if cfcomponent_depth s > 0 then s\<lparr>cfcomponent_depth := cfcomponent_depth s - 1\<rparr> else s)"
| html_self_closing: "tag_step s SELF_CLOSING_TAG_DELIMITER (if tags s \<noteq> [] then pop_tag False s else s)"
| cf_self_closing: "tag_step s CF_SELF_CLOSING_TAG_DELIMITER (if cf_tags s \<noteq> [] then pop_tag True s else s)"
| neutral: "k \<in> set neutral_tokens \<Longrightarrow> tag_step s k s"

text \<open>The answer of a scan: a failure keeps the state, a success is a step.\<close>

definition steps :: "cfml_scanner \<Rightarrow> cfml_result \<Rightarrow> bool" where
  "steps s r \<longleftrightarrow>
     (case r of (ok, s', l) \<Rightarrow>
        if ok then \<exists>k. result_symbol l = Some k \<and> tag_step s k s' else s' = s)"

definition neutral_answer :: "bool \<times> cfml_token lexer \<Rightarrow> bool" where
  "neutral_answer = reports (\<lambda>k. k \<in> set neutral_tokens)"

named_theorems step_rules \<open>structural rules for steps and neutral answers\<close>

lemma steps_leaf [step_rules]:
  "steps s (False, s, l)"
  "tag_step s k s' \<Longrightarrow> steps s (True, s', set_result k l)"
  "neutral_answer (b, l) \<Longrightarrow> steps s (b, s, l)"
  by (auto simp: steps_def neutral_answer_def reports_def intro: tag_step.neutral)

lemma neutral_leaf [step_rules]:
  "neutral_answer (False, l)"
  "k \<in> set neutral_tokens \<Longrightarrow> neutral_answer (b, set_result k l)"
  by (auto simp: neutral_answer_def reports_def)

lemma steps_if [step_rules]:
  "(c \<Longrightarrow> steps s x) \<Longrightarrow> (\<not> c \<Longrightarrow> steps s y) \<Longrightarrow> steps s (if c then x else y)"
  "(c \<Longrightarrow> neutral_answer u) \<Longrightarrow> (\<not> c \<Longrightarrow> neutral_answer v) \<Longrightarrow> neutral_answer (if c then u else v)"
  by simp_all

lemma steps_let [step_rules]:
  "(\<And>l. steps s (g l)) \<Longrightarrow> steps s (let l = (e :: cfml_token lexer) in g l)"
  "(\<And>l. neutral_answer (f l)) \<Longrightarrow> neutral_answer (let l = (e :: cfml_token lexer) in f l)"
  by simp_all

lemma steps_let_prod [step_rules]:
  "neutral_answer p \<Longrightarrow> (\<And>b l. neutral_answer (b, l) \<Longrightarrow> steps s (f b l)) \<Longrightarrow> steps s (let (b, l) = p in f b l)"
  "(\<And>n c l. scan_tag_name m = ((n, c), l) \<Longrightarrow> steps s (g n c l)) \<Longrightarrow>
    steps s (let ((n, c), l) = scan_tag_name m in g n c l)"
  "neutral_answer p \<Longrightarrow> steps s (case p of (b, l) \<Rightarrow> (b, s, l))"
  by (auto simp: split_beta intro: step_rules)

lemma neutral_let_prod [step_rules]:
  "(\<And>x l. neutral_answer (h x l)) \<Longrightarrow> neutral_answer (let (x, l) = r in h x l)"
  by (simp add: split_beta)

section \<open>Answers that leave the state alone\<close>

lemma neutral_conditional_comment [step_rules]: "neutral_answer (conditional_comment d l)"
proof (induction d l rule: conditional_comment.induct)
  case (1 d l)
  then show ?case
    by (subst conditional_comment.simps) (auto simp: neutral_answer_def reports_def neutral_tokens_def)
qed

lemma neutral_nested_comment [step_rules]: "neutral_answer (nested_comment d dir n l)"
proof (induction d dir n l rule: nested_comment.induct)
  case (1 d dir n l)
  then show ?case
    by (subst nested_comment.simps) (auto simp: neutral_answer_def reports_def neutral_tokens_def Let_def)
qed

lemma neutral_cfml_scan_comment [step_rules]: "neutral_answer (cfml_scan_comment l)"
  unfolding cfml_scan_comment_def by (intro step_rules)

lemma neutral_scan_script_comment [step_rules]: "neutral_answer (scan_script_comment l)"
proof (induction l rule: scan_script_comment.induct)
  case (1 l)
  then show ?case by (subst scan_script_comment.simps) (auto intro: step_rules)
qed

lemma neutral_tokens_simps [simp]:
  "RAW_TEXT \<in> set neutral_tokens" "HTML_TEXT \<in> set neutral_tokens" "CF_XML_CONTENT \<in> set neutral_tokens"
  "CF_QUERY_CONTENT \<in> set neutral_tokens" "CF_SCRIPT_CONTENT \<in> set neutral_tokens"
  "CF_SAVECONTENT_CONTENT \<in> set neutral_tokens" "CF_COMPONENT_CONTENT \<in> set neutral_tokens"
  "CLOSE_TAG_DELIM \<in> set neutral_tokens" "CLOSE_CF_TAG_DELIM \<in> set neutral_tokens"
  "AUTOMATIC_SEMICOLON \<in> set neutral_tokens" "TERNARY_QMARK \<in> set neutral_tokens"
  "ELVIS_OPERATOR \<in> set neutral_tokens" "CF_SELF_CLOSING_VOID_TAG_DELIMITER \<in> set neutral_tokens"
  "ERRONEOUS_END_TAG_NAME \<in> set neutral_tokens" "ERRONEOUS_CF_END_TAG_NAME \<in> set neutral_tokens"
  "CF_SAVECONTENT_BODY_CFML \<in> set neutral_tokens" "snd ` set body_types \<subseteq> set neutral_tokens"
  by (simp_all add: neutral_tokens_def body_types_def)

lemma neutral_scan_html_text [step_rules]: "neutral_answer (scan_html_text s l)"
  by (simp add: scan_html_text_def split_beta neutral_answer_def reports_def)

lemma neutral_scan_cf_content [step_rules]:
  "neutral_answer (scan_cfxml_content s l)" "neutral_answer (scan_cfquery_content s l)"
  "neutral_answer (scan_cfscript_content s l)"
  by (simp_all add: scan_cfxml_content_def scan_cfquery_content_def scan_cfscript_content_def
      scan_cf_content_def Let_def neutral_answer_def reports_def)

lemma neutral_scan_cfsavecontent_content [step_rules]: "neutral_answer (scan_cfsavecontent_content s l)"
  by (simp add: scan_cfsavecontent_content_def Let_def split_beta neutral_answer_def reports_def)

lemma neutral_scan_raw_text [step_rules]: "neutral_answer (scan_raw_text s l q)"
  unfolding scan_raw_text_def Let_def by (simp add: split_beta neutral_answer_def reports_def)

lemma neutral_scan_cf_component_content [step_rules]: "neutral_answer (scan_cf_component_content l)"
  by (simp add: scan_cf_component_content_def Let_def split_beta neutral_answer_def reports_def)

lemma neutral_scan_closetag_delim [step_rules]: "neutral_answer (scan_closetag_delim l c)"
  by (simp add: scan_closetag_delim_def Let_def neutral_answer_def reports_def)

lemma find_type_neutral:
  "(case List.find P body_types of Some (_, t) \<Rightarrow> t | None \<Rightarrow> CF_SAVECONTENT_BODY_CFML)
    \<in> set neutral_tokens"
proof (cases "List.find P body_types")
  case (Some p)
  then have "snd p \<in> set neutral_tokens"
    using neutral_tokens_simps(17) find_mem by (metis image_eqI subsetD)
  then show ?thesis using Some by (cases p) simp
qed simp

lemma content_directive_type: "fst (content_directive l) \<in> set neutral_tokens"
  by (auto simp: content_directive_def Let_def find_type_neutral
      simp del: match_codes.simps read_letters.simps codes_Cons split: prod.split)

lemma neutral_scan_cfsavecontent_body_type [step_rules]:
  "neutral_answer (scan_cfsavecontent_body_type s l vs)"
proof -
  have "fst (content_directive (mark_end l)) \<in> set neutral_tokens"
    by (rule content_directive_type)
  then show ?thesis
    by (simp add: scan_cfsavecontent_body_type_def Let_def split_beta neutral_answer_def reports_def)
qed

lemma neutral_cfml_scan_ternary_qmark [step_rules]: "neutral_answer (cfml_scan_ternary_qmark l)"
  by (simp add: cfml_scan_ternary_qmark_def neutral_answer_def reports_def Let_def)


text \<open>The semicolon sets its token first; the loops behind it leave it alone.\<close>

lemma result_block_comment: "result_symbol (snd (snd (cfscript_block_comment b l))) = result_symbol l"
proof (induction b l rule: cfscript_block_comment.induct)
  case (1 b l)
  then show ?case by (subst cfscript_block_comment.simps) (simp add: Let_def)
qed

lemma result_whitespace:
  "result_symbol (snd (cfscript_scan_whitespace_and_comments c st l)) = result_symbol l"
proof (induction c st l rule: cfscript_scan_whitespace_and_comments.induct)
  case (1 c st l)
  obtain saw sc where st: "st = (saw, sc)" by (cases st)
  let ?m = "skip (advance_while iswspace True l)"
  obtain saw' b m2 where m2: "cfscript_block_comment saw (skip ?m) = (saw', b, m2)" by (metis surj_pair)
  then have "result_symbol m2 = result_symbol l" using result_block_comment [of saw "skip ?m"] by simp
  with 1 m2 st show ?case by (subst cfscript_scan_whitespace_and_comments.simps) (simp add: Let_def)
qed

lemma result_semicolon_comment: "result_symbol (snd (cfml_semicolon_comment cc sc l)) = result_symbol l"
  using result_whitespace [of False "(False, sc)" l]
  by (auto simp: cfml_semicolon_comment_def split: prod.split)

lemma result_line_end: "result_symbol (snd (cfml_line_end cc sc l)) = result_symbol l"
proof (induction cc sc l rule: cfml_line_end.induct)
  case (1 cc sc l)
  obtain r sc' m where m: "cfml_semicolon_comment cc sc l = ((r, sc'), m)" by (metis surj_pair)
  then have "result_symbol m = result_symbol l" using result_semicolon_comment [of cc sc l] by simp
  with 1 m show ?case by (subst cfml_line_end.simps) (simp split: option.split)
qed

lemma result_collect_letters: "result_symbol (snd (collect_letters n l)) = result_symbol l"
  by (induction n arbitrary: l) (simp_all add: split_beta)

lemma result_next_line: "result_symbol (snd (cfscript_next_line l)) = result_symbol l"
  using result_collect_letters [of 10 l]
  by (simp add: cfscript_next_line_def scan_cfml_word_operator_def Let_def split_beta)

lemma result_automatic_semicolon:
  "result_symbol (snd (cfml_scan_automatic_semicolon l cc)) = Some AUTOMATIC_SEMICOLON"
proof -
  obtain r sc m where m: "cfml_line_end cc False (mark_end (set_result AUTOMATIC_SEMICOLON l)) = ((r, sc), m)"
    by (metis surj_pair)
  then have "result_symbol m = Some AUTOMATIC_SEMICOLON"
    using result_line_end [of cc False "mark_end (set_result AUTOMATIC_SEMICOLON l)"] by simp
  with m show ?thesis
    using result_whitespace [of True "(False, sc)" "skip m"]
    by (cases r) (simp_all add: cfml_scan_automatic_semicolon_def Let_def result_next_line split_beta)
qed

lemma steps_scan_operators [step_rules]: "steps s (scan_operators s l vs)"
proof -
  obtain ret sc m where m: "cfml_scan_automatic_semicolon l (\<not> vs LOGICAL_OR) = ((ret, sc), m)"
    by (metis surj_pair)
  then have "neutral_answer (ret, m)"
    using result_automatic_semicolon [of l "\<not> vs LOGICAL_OR"] by (simp add: neutral_answer_def reports_def)
  with m show ?thesis
    unfolding scan_operators_def m Let_def prod.case by (intro step_rules)
qed


section \<open>Steps on the stacks\<close>

lemma steps_implicit_end [step_rules]: "open_tags c s \<noteq> [] \<Longrightarrow> steps s (implicit_end c s l)"
  by (auto simp: implicit_end_def open_tags_def intro!: step_rules tag_step.intros split: if_splits)

lemma steps_implicit_rules [step_rules]:
  "steps s (implicit_before_else c s l)"
  "steps s (implicit_before_cf_end t s l)"
  "steps s (implicit_at_end_tag c t s l)"
  "steps s (implicit_at_start_tag c fo cf t s l)"
  unfolding implicit_before_else_def implicit_before_cf_end_def implicit_at_end_tag_def
    implicit_at_start_tag_def Let_def
  by (auto simp: open_tags_def split: option.split intro!: step_rules)

lemma steps_scan_implicit_end_tag [step_rules]: "steps s (scan_implicit_end_tag s l c fo)"
  unfolding scan_implicit_end_tag_def Let_def [of "open_tags _ _"] Let_def [of "_ = _"]
  by (intro step_rules) auto

lemma enter_tag_frame [simp]: "tags (enter_tag c k s) = tags s" "cf_tags (enter_tag c k s) = cf_tags s"
  by (simp_all add: enter_tag_def)

lemma start_tag_html:
  "html_tag_ok t \<Longrightarrow> start_tag False t s l =
    (True, s\<lparr>tags := tags s @ [t]\<rparr>, set_result (start_symbol False (tag_kind t)) l)"
  by (auto simp: html_tag_ok_def start_tag_def push_tag_def enter_tag_def split: tag_type.splits)

lemma start_tag_cf:
  "tag_kind t \<notin> {CF_VOID, CF_SET, CF_RETURN, CF_ELSEIF, CF_ELSE} \<Longrightarrow> start_tag True t s l =
    (True, (enter_tag True (tag_kind t) s)\<lparr>cf_tags := cf_tags s @ [t\<lparr>html_depth := of_nat (length (tags s))\<rparr>]\<rparr>,
     set_result (start_symbol True (tag_kind t)) l)"
  by (auto simp: start_tag_def push_tag_def split: tag_type.splits)

lemma steps_start_tag:
  assumes "name \<noteq> []" and "0 \<notin> set name"
  shows "steps s (start_tag c (name_tag c name) s l)"
proof (cases c)
  case False
  have "html_tag_ok (tag_for_name name)" using assms by (rule html_tag_ok_for_name)
  then show ?thesis using False by (auto simp: name_tag_def start_tag_html intro!: step_rules html_start)
next
  case True
  let ?t = "cf_tag_for_name name"
  have kind: "tag_kind ?t = cf_type_for_name name" by (simp add: cf_tag_for_name_def tag_new_def)
  show ?thesis
  proof (cases "cf_type_for_name name \<in> {CF_VOID, CF_SET, CF_RETURN, CF_ELSEIF, CF_ELSE}")
    case special: True
    then show ?thesis
      using True kind
      by (auto simp: name_tag_def start_tag_def intro!: step_rules tag_step.neutral component_start)
        (simp_all add: neutral_tokens_def)
  next
    case False
    then have "cf_tag_ok (?t\<lparr>html_depth := of_nat (length (tags s))\<rparr>)" using assms by (intro cf_tag_ok_for_name)
    moreover have "start_tag True ?t s l =
      (True, (enter_tag True (tag_kind ?t) s)\<lparr>cf_tags := cf_tags s @ [?t\<lparr>html_depth := of_nat (length (tags s))\<rparr>]\<rparr>,
       set_result (start_symbol True (tag_kind ?t)) l)"
      using False kind by (intro start_tag_cf) simp
    ultimately show ?thesis
      using True cf_start [of "?t\<lparr>html_depth := of_nat (length (tags s))\<rparr>" s "enter_tag True (tag_kind ?t) s"]
      by (simp add: name_tag_def steps_leaf)
  qed
qed

lemma steps_scan_start_tag_name [step_rules]: "steps s (scan_start_tag_name s l c)"
proof -
  have "tag_step s START_TAG_NAME (s\<lparr>tags := tags s @ [tag_new\<lparr>tag_kind := DYNAMIC\<rparr>]\<rparr>)"
    using html_start [OF html_tag_ok_dynamic, of s] by (simp add: start_symbol_def tag_new_def)
  then show ?thesis
    unfolding scan_start_tag_name_def
    by (intro step_rules) (auto intro: steps_start_tag step_rules dest: scan_tag_name_not_nul)
qed

lemma in_drop_less: "u \<in> set (drop n xs) \<Longrightarrow> n < length xs"
  by (cases "n < length xs") simp_all

lemma steps_end_tag [step_rules]: "steps s (end_tag c t s l)"
proof (cases c)
  case False
  then show ?thesis
    by (auto simp: end_tag_def Let_def reachable_tags_def open_tags_def set_end_tag_symbol_def
        end_symbol_def leave_tag_def list_ex_iff intro!: step_rules html_end tag_step.neutral
        dest: in_drop_less split: if_splits)
next
  case True
  show ?thesis
  proof (cases "tag_kind t = CF_VOID \<and> name_is (tag_name t) ''COMPONENT''")
    case component: True
    then show ?thesis using True steps_leaf(2) [OF component_end [of s]] by (simp add: end_tag_def)
  next
    case False
    then show ?thesis
      using True
      by (auto simp: end_tag_def Let_def reachable_tags_def open_tags_def set_end_tag_symbol_def html_floor_def
          intro!: step_rules cf_end tag_step.neutral)
  qed
qed

lemma steps_scan_end_tag_name [step_rules]: "steps s (scan_end_tag_name s l c)"
  unfolding scan_end_tag_name_def
  by (intro step_rules) (rule hash_end)

lemma steps_delimiters [step_rules]:
  "steps s (scan_cf_self_closing_tag_delimiter s l v)" "steps s (scan_self_closing_tag_delimiter s l)"
  using steps_leaf(2) [OF cf_self_closing [of s]] steps_leaf(2) [OF html_self_closing [of s]]
  unfolding scan_cf_self_closing_tag_delimiter_def scan_self_closing_tag_delimiter_def Let_def
  by (simp_all add: steps_leaf tag_step.neutral)

section \<open>Every scan is a step\<close>

lemma steps_scan_implicit_end [step_rules]: "steps s (scan_implicit_end s l vs)"
  unfolding scan_implicit_end_def by (intro step_rules)

lemma steps_scan_less [step_rules]: "steps s (scan_less s l vs)"
  unfolding scan_less_def by (intro step_rules)

lemma steps_scan_slash [step_rules]: "steps s (scan_slash s l vs)"
  unfolding scan_slash_def by (intro step_rules)

lemma steps_scan_name [step_rules]: "steps s (scan_name s l vs)"
  unfolding scan_name_def by (intro step_rules) (auto simp: neutral_answer_def)

lemma steps_scan_markup [step_rules]: "steps s (scan_markup s l vs)"
  unfolding scan_markup_def by (intro step_rules)

definition neutral_option :: "bool option \<times> cfml_token lexer \<Rightarrow> bool" where
  "neutral_option r \<longleftrightarrow> (\<forall>b. fst r = Some b \<longrightarrow> neutral_answer (b, snd r))"

lemma neutral_option_rules:
  "neutral_answer p \<Longrightarrow> neutral_option (let (b, l) = p in (Some b, l))"
  "neutral_answer p \<Longrightarrow> neutral_option (let (b, l) = p in (if b then Some True else None, l))"
  "neutral_answer p \<Longrightarrow> (\<And>l. neutral_option (g l)) \<Longrightarrow>
    neutral_option (let (b, l) = p in if b then (Some True, l) else g l)"
  "(c \<Longrightarrow> neutral_option x) \<Longrightarrow> (\<not> c \<Longrightarrow> neutral_option y) \<Longrightarrow> neutral_option (if c then x else y)"
  by (auto simp: neutral_option_def neutral_answer_def reports_def split_beta)

lemma neutral_scan_content: "neutral_option (scan_content s l vs q)"
  unfolding scan_content_def by (intro neutral_option_rules step_rules)

lemma scan_hash_token: "\<exists>k \<in> set neutral_tokens. result_symbol (scan_hash s l) = Some k"
  by (auto simp: scan_hash_def Let_def neutral_tokens_def)

lemma steps_external_scanner_scan: "steps s (external_scanner_scan s l v n q)"
proof -
  define vs where "vs = VS v n"
  obtain m where m: "m = (if \<not> vs HTML_TEXT \<and> \<not> vs RAW_TEXT then advance_while iswspace True l else l)"
    by simp
  obtain r l' where r: "scan_content s m vs q = (r, l')" by (metis surj_pair)
  have "steps s (True, s, scan_hash s m)"
    using scan_hash_token [of s m] by (auto simp: steps_def intro: tag_step.neutral)
  then show ?thesis
    using neutral_scan_content [of s m vs q] r
    unfolding external_scanner_scan_def Let_def vs_def [symmetric] m [symmetric]
    by (auto simp: neutral_option_def intro: step_rules split: option.split)
qed

section \<open>The names of tags of ColdFusion\<close>

text \<open>The tags with content that is not parsed have the name of their end delimiter.\<close>

lemma find_holds: "List.find P ps = Some p \<Longrightarrow> P p"
  by (auto simp: find_Some_iff)

lemma cf_type_name:
  assumes "cf_type_for_name name = k" and "(n, k) \<in> set cf_types"
  shows "name_is name n"
proof -
  have "k \<noteq> CF_VOID \<and> k \<noteq> CFML" using assms(2) by (auto simp: cf_types_def)
  then obtain p where p: "List.find (\<lambda>(n, _). name_is name n) cf_types = Some p"
    using assms(1) by (auto simp: cf_type_for_name_def split: option.splits if_splits)
  obtain n' k' where p': "p = (n', k')" by (cases p)
  have "(n', k') \<in> set cf_types" using find_mem [OF p] p' by simp
  moreover have "name_is name n'" using find_holds [OF p] p' by simp
  moreover have "k' = k" using assms(1) p p' by (simp add: cf_type_for_name_def)
  moreover have "inj_on snd (set cf_types)" by (simp add: cf_types_def)
  ultimately show ?thesis using assms(2) inj_onD [of snd "set cf_types" "(n', k')" "(n, k)"] by simp
qed

section \<open>At the end of the input\<close>

lemma all_tokens: "k \<in> set cfml_tokens"
  by (cases k) (simp_all add: cfml_tokens_def)

lemma VS_all: "VS v scanner_symbol_count = v"
  by (auto simp: VS_def scanner_symbol_count_def all_tokens)

lemma eof_runs: "runs l l' \<Longrightarrow> eof l \<Longrightarrow> eof l'"
  by (simp add: runs_def eof_def)

definition content_tokens :: "cfml_token list" where
  "content_tokens =
     [CF_XML_CONTENT, CF_QUERY_CONTENT, CF_SCRIPT_CONTENT, CF_SAVECONTENT_CONTENT, CF_SAVECONTENT_BODY_CFML,
      CF_SAVECONTENT_BODY_HTML, CF_SAVECONTENT_BODY_SCRIPT, CF_SAVECONTENT_BODY_CSS, CF_SAVECONTENT_BODY_XML,
      CF_SAVECONTENT_BODY_SQL, CF_SAVECONTENT_BODY_RAW]"

lemma scan_html_text_eof: "eof l \<Longrightarrow> \<not> fst (scan_html_text s l)"
  by (simp add: scan_html_text_def lookahead_eof script_text.simps [of _ "mark_end l"] html_loop.simps [of _ l]
      html_stop_def)

lemma scan_raw_text_eof: "eof l \<Longrightarrow> \<not> fst (scan_raw_text s l q)"
  by (simp add: scan_raw_text_def Let_def lookahead_eof raw_text_loop.simps [of _ _ _ _ _ "mark_end l"])

lemma scan_cf_component_content_eof: "eof l \<Longrightarrow> \<not> fst (scan_cf_component_content l)"
  by (simp add: scan_cf_component_content_def Let_def lookahead_eof component_blanks.simps [of l]
      advance_while_stop component_keyword_def read_letters.simps component_words_def component_modifiers_def
      identifier_part_def numeral_eq_Suc)

lemma attempt_eof:
  "eof l \<Longrightarrow> fwd l p \<Longrightarrow> \<not> fst p \<Longrightarrow> \<exists>m. (if c then p else (False, l)) = (False, m) \<and> eof m"
  by (cases p) (auto dest: eof_runs fwdD)

lemma scan_content_eof:
  assumes "eof l" and "\<forall>k \<in> set content_tokens. \<not> vs k"
  shows "\<exists>m. scan_content s l vs q = (None, m) \<and> eof m"
proof -
  have no: "\<not> vs CF_XML_CONTENT" "\<not> vs CF_QUERY_CONTENT" "\<not> vs CF_SCRIPT_CONTENT" "\<not> vs CF_SAVECONTENT_CONTENT"
    "\<not> savecontent_body_valid vs"
    using assms(2) by (simp_all add: content_tokens_def savecontent_body_valid_def)
  obtain m1 where m1: "(if vs CF_COMPONENT_CONTENT \<and> tags s = [] \<and> cf_tags s = []
      then scan_cf_component_content l else (False, l)) = (False, m1)" "eof m1"
    using attempt_eof [OF assms(1) fwd_scan_cf_component_content [OF runs_refl]
        scan_cf_component_content_eof [OF assms(1)]] by blast
  obtain m2 where m2: "(if vs RAW_TEXT \<and> \<not> vs START_TAG_NAME \<and> \<not> vs END_TAG_NAME
      then scan_raw_text s m1 q else (False, m1)) = (False, m2)" "eof m2"
    using attempt_eof [OF m1(2) fwd_scan_raw_text [OF runs_refl] scan_raw_text_eof [OF m1(2)]] by blast
  obtain m3 where m3: "(if vs HTML_TEXT then scan_html_text s m2 else (False, m2)) = (False, m3)" "eof m3"
    using attempt_eof [OF m2(2) fwd_scan_html_text [OF runs_refl] scan_html_text_eof [OF m2(2)]] by blast
  show ?thesis
    unfolding scan_content_def m1(1) Let_def prod.case if_False m2(1) using no m3 by simp
qed


lemma scan_tag_name_eof: "eof l \<Longrightarrow> \<exists>m. scan_tag_name l = (([], False), m) \<and> eof m"
proof -
  assume e: "eof l"
  have "cf_prefix l = (([], False), l)" by (simp add: cf_prefix_def lookahead_eof [OF e] towlower_def)
  then have n: "scan_tag_name l = (([], False), advance_while tag_name_char False l)"
    using e by (simp add: scan_tag_name_def eof_def)
  then show ?thesis using eof_runs [OF runs_advance_while [OF runs_refl] e] by blast
qed

text \<open>A scan for an implicit end tag at the end of the input.\<close>

lemma scan_implicit_end_tag_eof:
  assumes "eof l"
  shows "\<exists>m. scan_implicit_end_tag s l c True =
    (if open_tags c s = [] then (False, s, m) else implicit_end c s m)"
proof -
  obtain m where m: "scan_tag_name l = (([], False), m)" "eof m" using scan_tag_name_eof [OF assms] by blast
  have la: "lookahead l = 0" using lookahead_eof [OF assms] .
  show ?thesis
    by (cases c) (auto simp: scan_implicit_end_tag_def la m implicit_at_start_tag_def Let_def)
qed

definition end_requested :: "bool \<Rightarrow> (cfml_token \<Rightarrow> bool) \<Rightarrow> bool" where
  "end_requested c v \<longleftrightarrow>
     (\<forall>k \<in> set content_tokens. \<not> v k) \<and>
     (if c then implicit_cf_end_tag_valid v else v IMPLICIT_END_TAG \<and> \<not> implicit_cf_end_tag_valid v)"

lemma cfml_scan_eof:
  assumes "eof l" and "end_requested c v"
  shows "\<exists>m. cfml_scan s l v = (if open_tags c s = [] then (False, s, m) else implicit_end c s m)"
proof -
  obtain l1 where l1: "(if \<not> v HTML_TEXT \<and> \<not> v RAW_TEXT then advance_while iswspace True l else l) = l1" "eof l1"
    using eof_runs [OF runs_advance_while [OF runs_refl] assms(1)] assms(1) by auto
  obtain m where m: "scan_content s l1 v False = (None, m)" "eof m"
    using scan_content_eof [OF l1(2), of v s False] assms(2) unfolding end_requested_def by blast
  have "cfml_scan s l v = scan_markup s m v"
    unfolding cfml_scan_def external_scanner_scan_def VS_all Let_def [of v] l1(1)
    by (simp add: lookahead_eof [OF l1(2)] m(1))
  also have "\<dots> = scan_implicit_end s m v" by (simp add: scan_markup_def lookahead_eof [OF m(2)])
  also have "\<dots> = scan_implicit_end_tag s m c True"
    using assms(2) by (cases c) (simp_all add: scan_implicit_end_def end_requested_def)
  finally show ?thesis using scan_implicit_end_tag_eof [OF m(2), of s c] by simp
qed

text \<open>The scans of one place of the input, as often as the parser asks: the tokens, and the state behind them.\<close>

fun scan_again ::
  "nat \<Rightarrow> cfml_scanner \<Rightarrow> cfml_token lexer \<Rightarrow> (cfml_token \<Rightarrow> bool) \<Rightarrow> cfml_token option list \<times> cfml_scanner"
where
  "scan_again 0 s l v = ([], s)"
| "scan_again (Suc n) s l v =
     (let (ok, s, m) = cfml_scan s l v; (ks, s) = scan_again n s l v in
      ((if ok then result_symbol m else None) # ks, s))"

lemma scan_again_eof:
  assumes "eof l" and "end_requested c v"
  shows "length (open_tags c s) = n \<Longrightarrow>
    scan_again (Suc n) s l v =
      (replicate n (Some (if c then IMPLICIT_CF_END_TAG else IMPLICIT_END_TAG)) @ [None],
       if c then s\<lparr>cf_tags := []\<rparr> else s\<lparr>tags := []\<rparr>)"
proof (induction n arbitrary: s)
  case 0
  then show ?case using cfml_scan_eof [OF assms, of s] by (auto simp: open_tags_def)
next
  case (Suc n)
  then have "open_tags c s \<noteq> []" by auto
  then obtain m where m: "cfml_scan s l v = implicit_end c s m" using cfml_scan_eof [OF assms, of s] by auto
  have "length (open_tags c (pop_tag c s)) = n" using Suc.prems by (simp add: open_tags_def pop_tag_def split: if_splits)
  then have "scan_again (Suc n) (pop_tag c s) l v =
      (replicate n (Some (if c then IMPLICIT_CF_END_TAG else IMPLICIT_END_TAG)) @ [None],
       if c then (pop_tag c s)\<lparr>cf_tags := []\<rparr> else (pop_tag c s)\<lparr>tags := []\<rparr>)"
    by (rule Suc.IH)
  then show ?case
    by (subst scan_again.simps(2)) (auto simp: m implicit_end_def pop_tag_def simp del: scan_again.simps)
qed

section \<open>Properties\<close>

text \<open>A state that a scan leaves: behind the name of the start tag of a query.\<close>

definition query_state :: cfml_scanner where
  "query_state =
     fst (snd (cfml_scan cfml_create (lexer_on (codes ''Query'')) (\<lambda>k. k = CF_QUERY_START_TAG_NAME)))"

lemma query_state_tag:
  "\<exists>t. cf_tags query_state = [t] \<and> tag_kind t = CF_QUERY \<and> tag_size t = 11 \<and> length (tag_name t) = 5"
proof -
  have "length (cf_tags query_state) = 1 \<and> tag_kind (hd (cf_tags query_state)) = CF_QUERY \<and>
    tag_size (hd (cf_tags query_state)) = 11 \<and> length (tag_name (hd (cf_tags query_state))) = 5"
    by code_simp
  then show ?thesis by (cases "cf_tags query_state") auto
qed

lemma query_state_html: "tags query_state = []"
  by code_simp

text \<open>C2. The scans of both dialects implement the protocol of the tags, from any state, at any place of the
input and whatever tokens are asked for: a failed scan leaves the state as it was, and a successful one
reports a token that explains what it did to the two stacks and the three depths. In particular an end tag
of HTML with a name never closes a tag that was opened outside of the innermost open tag of ColdFusion; one
with a hash in place of the name pops a tag with a hash wherever that was opened.\<close>

theorem cfml_scan_refines: "steps s (cfml_scan s l v) \<and> steps s (cfquery_scan s l v)"
  by (simp add: cfml_scan_def cfquery_scan_def steps_external_scanner_scan)

text \<open>C9. At the end of the input every open tag gets its end. As long as the parser asks for implicit end
tags, of ColdFusion or of HTML, and not for the content of a tag, each scan there closes one tag; after as
many scans as tags were open the stack is empty, the other stack and the depths are as before, and the next
scan fails.\<close>

theorem cfml_closes_at_end:
  "eof l \<Longrightarrow> end_requested c v \<Longrightarrow>
    scan_again (Suc (length (open_tags c s))) s l v =
      (replicate (length (open_tags c s)) (Some (if c then IMPLICIT_CF_END_TAG else IMPLICIT_END_TAG)) @ [None],
       if c then s\<lparr>cf_tags := []\<rparr> else s\<lparr>tags := []\<rparr>)"
  by (rule scan_again_eof) simp_all

theorem cfml_closes_at_end_witness:
  "\<exists>s. fst (scan_again 3 (s :: cfml_scanner) (lexer_on []) (\<lambda>k. k = IMPLICIT_END_TAG \<or> k = HTML_TEXT)) =
     [Some IMPLICIT_END_TAG, Some IMPLICIT_END_TAG, None]"
proof -
  let ?t = "tag_new\<lparr>tag_kind := ELEMENT ''DIV''\<rparr>"
  let ?s = "cfml_create\<lparr>tags := [?t, ?t]\<rparr>"
  let ?v = "\<lambda>k. k = IMPLICIT_END_TAG \<or> k = HTML_TEXT"
  have "end_requested False ?v"
    by (simp add: end_requested_def content_tokens_def implicit_cf_end_tag_valid_def)
  moreover have "eof (lexer_on [] :: cfml_token lexer)" by (simp add: eof_text)
  ultimately have "scan_again (Suc (length (open_tags False ?s))) ?s (lexer_on []) ?v =
      (replicate (length (open_tags False ?s)) (Some (if False then IMPLICIT_CF_END_TAG else IMPLICIT_END_TAG)) @ [None],
       if False then ?s\<lparr>cf_tags := []\<rparr> else ?s\<lparr>tags := []\<rparr>)"
    by (rule cfml_closes_at_end [rotated])
  then have "fst (scan_again 3 ?s (lexer_on []) ?v) = [Some IMPLICIT_END_TAG, Some IMPLICIT_END_TAG, None]"
    by (simp add: open_tags_def numeral_eq_Suc del: scan_again.simps)
  then show ?thesis by blast
qed

text \<open>C37. From 1017 open elements on, the buffer has no room for the header of the second stack: it is left
out, but read all the same, from behind the last byte that was written.\<close>

theorem cfml_deep_nesting_overrun:
  assumes "list_all html_tag_ok (tags s)" and "list_all (\<lambda>t. \<not> tag_has_name (tag_kind t)) (tags s)"
    and "1017 \<le> length (tags s)"
  shows "length (cfml_serialize s) \<le> 1023 \<and> cfml_deserialize t (cfml_serialize s) = None"
proof -
  have "list_all tag_ok (tags s)" using assms(1) by (auto simp: list_all_iff html_tag_ok_tag_ok)
  then show ?thesis using no_second_header [of s t] serialize_tags_unnamed [of "tags s"] assms by metis
qed

theorem cfml_deep_nesting_overrun_witness:
  "cfml_deserialize cfml_create
     (cfml_serialize (cfml_create\<lparr>tags := replicate 1017 (tag_new\<lparr>tag_kind := ELEMENT ''DIV''\<rparr>)\<rparr>)) = None"
  by (rule cfml_deep_nesting_overrun [THEN conjunct2])
    (simp_all add: list_all_iff html_tag_ok_def tag_new_def other_elements_def tag_has_name_def named_types_def)

end
