(* ===== verification/Cfml_Restore.thy ===== *)
theory Cfml_Restore
  imports Cfml_Protocol
begin

text \<open>
  States of the CFML scanner that did not fit into the buffer: what \<open>deserialize\<close> brings back of them, and
  the type of the states of a parse with such restores.
\<close>

section \<open>What was written is read\<close>

text \<open>A name is written up to 255 bytes.\<close>

definition stored :: "tag \<Rightarrow> tag" where
  "stored t = t\<lparr>tag_name := take 255 (tag_name t)\<rparr>"

lemma strncpy_take: "0 \<notin> set bs \<Longrightarrow> strncpy bs (min 255 (length bs)) = take 255 bs"
proof -
  assume "0 \<notin> set bs"
  then have "0 \<notin> set (take 255 bs)" by (auto dest: in_set_takeD)
  then have "strncpy (take 255 bs) (length (take 255 bs)) = take 255 bs" by (rule strncpy_all) simp
  moreover have "strncpy (take 255 bs) (length (take 255 bs)) = strncpy bs (length (take 255 bs))"
    by (simp add: strncpy_def)
  ultimately show ?thesis by (simp add: min.commute)
qed

text \<open>
  The reference: from the bottom of a stack, the tags that find room one after the other, with one byte to
  spare; the stack that is restored, of the same height, with new tags in place of those that did not; and the
  bytes it takes in the buffer.
\<close>

fun fitting :: "nat \<Rightarrow> tag list \<Rightarrow> tag list" where
  "fitting room [] = []"
| "fitting room (t # ts) =
     (if tag_size (stored t) < room then stored t # fitting (room - tag_size (stored t)) ts else [])"

definition restored_stack :: "nat \<Rightarrow> tag list \<Rightarrow> tag list" where
  "restored_stack room ts =
     (let ts = take 65535 ts; us = fitting (room - 4) ts in us @ replicate (length ts - length us) tag_new)"

definition stack_bytes :: "nat \<Rightarrow> tag list \<Rightarrow> nat" where
  "stack_bytes room ts = 4 + tags_size (fitting (room - 4) (take 65535 ts))"

lemma length_fitting: "length (fitting room ts) \<le> length ts"
  by (induction room ts rule: fitting.induct) simp_all

lemma serialize_tag_stored:
  assumes "tag_ok t"
  shows "if tag_size (stored t) < serialization_buffer_size - used
    then \<exists>b. serialize_tag used t = Some b \<and> length b = tag_size (stored t) \<and>
      (\<forall>bs. read_tag (b @ bs) = Some (stored t, bs))
    else serialize_tag used t = None"
proof -
  have n: "type_number (tag_kind t) < length tag_types" "tag_types ! type_number (tag_kind t) = tag_kind t"
    using type_number_nth assms(1) by (auto simp: tag_ok_def)
  then have u: "unat (of_nat (type_number (tag_kind t)) :: byte) = type_number (tag_kind t)"
    using length_tag_types by (simp add: unat_of_nat)
  have len: "take (min (length xs) 255) xs = take 255 xs" for xs :: "byte list" by (simp add: min_def)
  have v: "unat (of_nat (min 255 (length (tag_name t))) :: byte) = min 255 (length (tag_name t))"
    by (simp add: unat_of_nat)
  show ?thesis
  proof (cases "tag_has_name (tag_kind t)")
    case True
    then have "strncpy (tag_name t) (min 255 (length (tag_name t))) = take 255 (tag_name t)"
      using assms(1) by (intro strncpy_take) (simp add: tag_ok_def)
    then show ?thesis
      using True n u v
      by (cases t) (auto simp: serialize_tag_def stored_def tag_size_def Let_def min.commute len)
  next
    case False
    then show ?thesis
      using assms n u by (cases t) (auto simp: serialize_tag_def tag_ok_def tag_new_def stored_def tag_size_def)
  qed
qed

lemma serialize_loop_stored:
  "list_all tag_ok ts \<Longrightarrow> us = fitting (serialization_buffer_size - used) ts \<Longrightarrow>
    \<exists>b. serialize_loop used ts = (length us, b) \<and> length b = tags_size us \<and>
      (\<forall>bs. read_tags (length us) (b @ bs) = Some (us, bs))"
proof (induction ts arbitrary: used us)
  case Nil
  then show ?case by (simp add: tags_size_def)
next
  case (Cons t ts)
  have t: "tag_ok t" "list_all tag_ok ts" using Cons.prems(1) by simp_all
  show ?case
  proof (cases "tag_size (stored t) < serialization_buffer_size - used")
    case False
    then show ?thesis using serialize_tag_stored [OF t(1), of used] Cons.prems(2) by (simp add: tags_size_def)
  next
    case True
    then obtain b where b: "serialize_tag used t = Some b" "length b = tag_size (stored t)"
      "\<And>bs. read_tag (b @ bs) = Some (stored t, bs)"
      using serialize_tag_stored [OF t(1), of used] by auto
    define vs where "vs = fitting (serialization_buffer_size - used - tag_size (stored t)) ts"
    then obtain c where "serialize_loop (used + length b) ts = (length vs, c)" "length c = tags_size vs"
      "\<And>bs. read_tags (length vs) (c @ bs) = Some (vs, bs)"
      using Cons.IH [OF t(2), of vs "used + length b"] b(2) by auto
    then show ?thesis using True b Cons.prems(2) vs_def by (simp add: tags_size_def)
  qed
qed

lemma serialize_tags_stored:
  assumes "list_all tag_ok ts" and "used + 4 \<le> serialization_buffer_size"
    and "room = serialization_buffer_size - used"
  shows "length (serialize_tags used ts) = stack_bytes room ts"
    "deserialize_tags (serialize_tags used ts @ bs) = Some (restored_stack room ts, bs)"
proof -
  define us where "us = fitting (room - 4) (take 65535 ts)"
  have "list_all tag_ok (take 65535 ts)" using assms(1) by (auto simp: list_all_iff dest: in_set_takeD)
  moreover have "us = fitting (serialization_buffer_size - (used + 4)) (take 65535 ts)"
    by (simp add: us_def assms(3))
  ultimately obtain b where b: "serialize_loop (used + 4) (take 65535 ts) = (length us, b)"
    "length b = tags_size us" "\<And>bs. read_tags (length us) (b @ bs) = Some (us, bs)"
    using serialize_loop_stored by blast
  have n: "length us \<le> 65535" "length us \<le> length ts" using length_fitting [of "room - 4" "take 65535 ts"] by (simp_all add: us_def)
  have u: "unat (of_nat (length us) :: 16 word) = length us"
    "unat (of_nat (min 65535 (length ts)) :: 16 word) = min 65535 (length ts)"
    using n by (simp_all add: unat_of_nat)
  have "take (min 65535 (length ts)) ts = take 65535 ts" by (simp add: min_def)
  then have s: "serialize_tags used ts =
      bytes_of_u16 (of_nat (length us)) @ bytes_of_u16 (of_nat (min 65535 (length ts))) @ b"
    using assms(2) b(1) by (simp add: serialize_tags_def Let_def)
  show "length (serialize_tags used ts) = stack_bytes room ts"
    by (simp add: s b(2) stack_bytes_def us_def)
  show "deserialize_tags (serialize_tags used ts @ bs) = Some (restored_stack room ts, bs)"
    using b(3) u by (simp add: s deserialize_tags_def restored_stack_def Let_def min.commute flip: us_def del: of_nat_min)
qed

lemma read_depth_Nil [simp]: "read_depth [] = (0, [])" "read_depth (bytes_of_u16 w) = (w, [])"
  using read_depth_of_bytes [of w "[]"] by (simp_all add: read_depth_def)

text \<open>The depths come behind the stacks, all three of them or none.\<close>

definition restored :: "cfml_scanner \<Rightarrow> cfml_scanner option" where
  "restored s =
     (let room = serialization_buffer_size;
          html = stack_bytes room (tags s);
          fits = html + stack_bytes (room - html) (cf_tags s) + 6 < room in
      if html + 4 \<le> room
      then Some \<lparr>tags = restored_stack room (tags s), cf_tags = restored_stack (room - html) (cf_tags s),
                 cfoutput_depth = if fits then cfoutput_depth s else 0,
                 cfcomponent_depth = if fits then cfcomponent_depth s else 0,
                 cffunction_depth = if fits then cffunction_depth s else 0\<rparr>
      else None)"

lemma deserialize_serialize:
  assumes "list_all tag_ok (tags s)" "list_all tag_ok (cf_tags s)"
  shows "cfml_deserialize t (cfml_serialize s) = restored s"
proof -
  define h where "h = serialize_tags 0 (tags s)"
  define c where "c = serialize_tags (length h) (cf_tags s)"
  define ds where "ds = (if length h + length c + 6 < serialization_buffer_size
    then bytes_of_u16 (cfoutput_depth s) @ bytes_of_u16 (cfcomponent_depth s) @ bytes_of_u16 (cffunction_depth s)
    else [])"
  have s: "cfml_serialize s = h @ c @ ds"
    unfolding cfml_serialize_def Let_def h_def [symmetric] c_def [symmetric] ds_def by simp
  have h: "length h = stack_bytes serialization_buffer_size (tags s)"
    "deserialize_tags (h @ bs) = Some (restored_stack serialization_buffer_size (tags s), bs)" for bs
    unfolding h_def by (rule serialize_tags_stored [OF assms(1)]; simp add: serialization_buffer_size_def)+
  have "h \<noteq> []" using h(1) by (auto simp: stack_bytes_def)
  show ?thesis
  proof (cases "length h + 4 \<le> serialization_buffer_size")
    case False
    then have "c = []" "ds = []" by (simp_all add: c_def ds_def serialize_tags_def)
    with False \<open>h \<noteq> []\<close> h(2) [of "[]"] show ?thesis
      by (simp add: s cfml_deserialize_def deserialize_tags_def [of "[]"] restored_def Let_def flip: h(1))
  next
    case True
    have c: "length c = stack_bytes (serialization_buffer_size - length h) (cf_tags s)"
      "deserialize_tags (c @ bs) = Some (restored_stack (serialization_buffer_size - length h) (cf_tags s), bs)" for bs
      unfolding c_def by (rule serialize_tags_stored [OF assms(2) True]; simp)+
    show ?thesis
      using True \<open>h \<noteq> []\<close>
      by (auto simp: s cfml_deserialize_def h(2) c(2) ds_def restored_def Let_def simp flip: h(1) c(1))
  qed
qed

section \<open>The types of restored tags\<close>

text \<open>A name of the tables has less than 255 letters, so a longer name is in none, before or after the cut.\<close>

lemma long_names:
  assumes "255 \<le> length name"
  shows "tag_type_for_name name = CUSTOM" "cf_type_for_name name = CFML"
proof -
  have short: "\<not> name_is name n" if "length n < 255" for n
    using that assms by (auto simp: name_is_def codes_def)
  have "list_all (\<lambda>(n, _). length n < 255) tag_types_by_tag_name" "list_all (\<lambda>(n, _). length n < 255) cf_types"
    "list_all (\<lambda>n. length n < 255) cf_void_tags"
    by code_simp+
  then have "List.find (\<lambda>(n, _). name_is name n) tag_types_by_tag_name = None"
    "List.find (\<lambda>(n, _). name_is name n) cf_types = None" "\<not> cf_tag_name_in name cf_void_tags"
    using short by (fastforce simp: find_None_iff list_all_iff cf_tag_name_in_def list_ex_iff)+
  then show "tag_type_for_name name = CUSTOM" "cf_type_for_name name = CFML"
    by (simp_all add: tag_type_for_name_def cf_type_for_name_def)
qed

lemma stored_short: "length (tag_name t) \<le> 255 \<Longrightarrow> stored t = t"
  by (simp add: stored_def)

lemma stored_ok: "html_tag_ok t \<Longrightarrow> html_tag_ok (stored t)" "cf_tag_ok t \<Longrightarrow> cf_tag_ok (stored t)"
proof -
  assume h: "html_tag_ok t"
  show "html_tag_ok (stored t)"
  proof (cases "length (tag_name t) \<le> 255")
    case False
    then show ?thesis
      using h long_names(1) [of "take 255 (tag_name t)"]
      by (auto simp: html_tag_ok_def stored_def dest: in_set_takeD split: tag_type.splits)
  qed (simp add: stored_short h)
next
  assume h: "cf_tag_ok t"
  show "cf_tag_ok (stored t)"
  proof (cases "length (tag_name t) \<le> 255")
    case False
    then show ?thesis
      using h long_names(2) [of "tag_name t"] long_names(2) [of "take 255 (tag_name t)"]
      by (auto simp: cf_tag_ok_def stored_def dest: in_set_takeD)
  qed (simp add: stored_short h)
qed

lemma tag_new_ok: "tag_ok tag_new" "stored tag_new = tag_new"
  by (simp_all add: tag_ok_def tag_new_def known_type_def tag_types_def tag_has_name_def named_types_def stored_def)

text \<open>Every stack that was restored holds tags of its type and new ones.\<close>

definition typed_or_new :: "cfml_scanner \<Rightarrow> bool" where
  "typed_or_new s \<longleftrightarrow>
     list_all (\<lambda>t. html_tag_ok t \<or> t = tag_new) (tags s) \<and> list_all (\<lambda>t. cf_tag_ok t \<or> t = tag_new) (cf_tags s)"

lemma restored_stack_typed:
  assumes "list_all (\<lambda>t. P t \<or> t = tag_new) ts" and "\<And>t. P t \<Longrightarrow> P (stored t)"
  shows "list_all (\<lambda>t. P t \<or> t = tag_new) (restored_stack room ts)"
proof -
  have "list_all (\<lambda>t. P t \<or> t = tag_new) (fitting r us)" if "list_all (\<lambda>t. P t \<or> t = tag_new) us" for r us
    using that assms(2) tag_new_ok(2) by (induction r us rule: fitting.induct) auto
  moreover have "list_all (\<lambda>t. P t \<or> t = tag_new) (take 65535 ts)"
    using assms(1) by (auto simp: list_all_iff dest: in_set_takeD)
  ultimately show ?thesis by (auto simp: restored_stack_def Let_def list_all_iff)
qed

lemma typed_or_new_tag_ok: "typed_or_new s \<Longrightarrow> list_all tag_ok (tags s) \<and> list_all tag_ok (cf_tags s)"
  by (auto simp: typed_or_new_def list_all_iff html_tag_ok_tag_ok cf_tag_ok_tag_ok tag_new_ok)

lemma typed_or_new_restored:
  assumes "typed_or_new s" and "cfml_deserialize t (cfml_serialize s) = Some s'"
  shows "typed_or_new s'"
proof -
  have "restored s = Some s'" using assms deserialize_serialize typed_or_new_tag_ok by metis
  then show ?thesis
    using assms(1) restored_stack_typed stored_ok
    by (auto simp: restored_def typed_or_new_def Let_def split: if_splits)
qed

lemma list_all_butlast: "list_all P xs \<Longrightarrow> list_all P (butlast xs)"
  by (auto simp: list_all_iff dest: in_set_butlastD)

lemma typed_or_new_step: "tag_step s k s' \<Longrightarrow> typed_or_new s \<Longrightarrow> typed_or_new s'"
proof (induction rule: tag_step.induct)
  case (html_start t s)
  then show ?case by (simp add: typed_or_new_def)
next
  case (cf_start t s s')
  then show ?case by (simp add: typed_or_new_def enter_tag_def)
qed (auto simp: typed_or_new_def pop_tag_def leave_tag_def list_all_butlast)

text \<open>The states of a parse: those of scans, and those restored from the buffer, whatever found room in it.\<close>

inductive cfml_parse :: "cfml_scanner \<Rightarrow> bool" where
  create: "cfml_parse cfml_create"
| scan: "cfml_parse s \<Longrightarrow> external_scanner_scan s l v n q = (ok, s', l') \<Longrightarrow> cfml_parse s'"
| restore: "cfml_parse s \<Longrightarrow> cfml_deserialize t (cfml_serialize s) = Some s' \<Longrightarrow> cfml_parse s'"

lemma cfml_parse_typed_or_new: "cfml_parse s \<Longrightarrow> typed_or_new s"
proof (induction rule: cfml_parse.induct)
  case create
  then show ?case by (simp add: typed_or_new_def cfml_create_def)
next
  case (scan s l v n q ok s' l')
  then show ?case
    using steps_external_scanner_scan [of s l v n q] typed_or_new_step by (auto simp: steps_def split: if_splits)
next
  case (restore s t s')
  then show ?case by (simp add: typed_or_new_restored)
qed

text \<open>A tag of ColdFusion whose type has a name of its own.\<close>

lemma cfml_parse_cf_tag:
  assumes "cfml_parse s" and "t \<in> set (cf_tags s)" and "(n, tag_kind t) \<in> set cf_types"
  shows "name_is (tag_name t) n"
proof -
  have "t \<noteq> tag_new" using assms(3) by (auto simp: tag_new_def cf_types_def)
  then have "cf_type_for_name (tag_name t) = tag_kind t"
    using cfml_parse_typed_or_new [OF assms(1)] assms(2) by (auto simp: typed_or_new_def list_all_iff cf_tag_ok_def)
  then show ?thesis using cf_type_name assms(3) by blast
qed

lemma query_state_parse: "cfml_parse query_state"
  unfolding query_state_def using cfml_parse.scan [OF cfml_parse.create]
  by (metis cfml_scan_def prod.collapse)

section \<open>Properties\<close>

text \<open>C20. Every state a parse passes through is well typed, also when some state on the way did not fit into
the buffer: apart from the new tags that stand for those that were not stored, the stack of HTML holds
elements and other tags of HTML, that of ColdFusion tags that need an end tag, with names that are C strings,
and a tag of ColdFusion has the type of its name, so that the content of a query, of XML or of a script is
read up to the end tag of that name.\<close>

theorem cfml_parse_typed:
  assumes "cfml_parse s"
  shows "(\<forall>t \<in> set (tags s). html_tag_ok t \<or> t = tag_new) \<and> (\<forall>t \<in> set (cf_tags s). cf_tag_ok t \<or> t = tag_new) \<and>
    (\<forall>t \<in> set (cf_tags s). \<forall>(n, k) \<in> set cf_types. tag_kind t = k \<longrightarrow> name_is (tag_name t) n)"
  using cfml_parse_typed_or_new [OF assms] cfml_parse_cf_tag [OF assms] by (auto simp: typed_or_new_def list_all_iff)

theorem cfml_parse_typed_witness:
  "\<exists>s. cfml_parse s \<and> cf_tags s \<noteq> [] \<and> list_all (\<lambda>t. name_is (tag_name t) ''QUERY'') (cf_tags s)"
proof -
  obtain t where t: "cf_tags query_state = [t]" "tag_kind t = CF_QUERY" using query_state_tag by blast
  have "\<forall>t \<in> set (cf_tags query_state). \<forall>(n, k) \<in> set cf_types. tag_kind t = k \<longrightarrow> name_is (tag_name t) n"
    using cfml_parse_typed [OF query_state_parse] by blast
  then have "name_is (tag_name t) ''QUERY''" using t by (auto simp: cf_types_def)
  then show ?thesis using query_state_parse t(1) by (intro exI [of _ query_state]) simp
qed

text \<open>What the buffer brings back of any state of a parse, whether it fits or not: of either stack the tags
from the bottom that find room, with names cut behind 255 bytes, and a new tag in place of each of the others,
so that the stack keeps its height, up to 65535; the depths if they find room, 0 if not. When there is no room
for the header of the second stack, \<open>deserialize\<close> reads behind the last byte that was written.\<close>

theorem cfml_restored:
  assumes "typed_or_new s"
  shows "cfml_deserialize t (cfml_serialize s) = restored s"
  using typed_or_new_tag_ok [OF assms] deserialize_serialize by blast

lemma fitting_unnamed:
  "\<not> tag_has_name (tag_kind t) \<Longrightarrow> tag_name t = [] \<Longrightarrow> fitting room (replicate n t) = replicate (min n (room - 1)) t"
proof (induction n arbitrary: room)
  case (Suc n)
  have "stored t = t" using Suc.prems(2) by (simp add: stored_def)
  then show ?case using Suc by (cases room; cases "room - 1") (auto simp: tag_size_def)
qed simp

text \<open>Behind 1016 elements a query comes back as a tag without a name, which no end tag closes.\<close>

theorem cfml_restored_witness:
  "\<exists>s s' t. cf_tags s = [t] \<and> tag_kind t = CF_QUERY \<and> length (tags s) = 1016 \<and>
    cfml_deserialize cfml_create (cfml_serialize s) = Some s' \<and> tags s' = tags s \<and> cf_tags s' = [tag_new]"
proof -
  let ?d = "tag_new\<lparr>tag_kind := ELEMENT ''DIV''\<rparr>"
  obtain t where t: "cf_tags query_state = [t]" "tag_kind t = CF_QUERY" "tag_size t = 11" "length (tag_name t) = 5"
    using query_state_tag by blast
  let ?s = "query_state\<lparr>tags := replicate 1016 ?d\<rparr>"
  have "html_tag_ok ?d" by (simp add: html_tag_ok_def tag_new_def other_elements_def)
  moreover have "cf_tag_ok t \<or> t = tag_new"
    using cfml_parse_typed_or_new [OF query_state_parse] t(1) by (simp add: typed_or_new_def)
  ultimately have "cfml_deserialize cfml_create (cfml_serialize ?s) = restored ?s"
    using t(1) by (intro cfml_restored) (simp add: typed_or_new_def list_all_iff)
  moreover have "fitting 1020 (replicate 1016 ?d) = replicate 1016 ?d"
    using fitting_unnamed [of ?d 1020 1016] by (simp add: tag_new_def tag_has_name_def named_types_def)
  moreover have "tag_size ?d = 1" by (simp add: tag_size_def tag_has_name_def named_types_def)
  moreover have "fitting 0 [t] = []" by simp
  ultimately show ?thesis
    using t
    by (intro exI [of _ ?s] exI [of _ t] exI [of _ "\<lparr>tags = replicate 1016 ?d, cf_tags = [tag_new],
        cfoutput_depth = 0, cfcomponent_depth = 0, cffunction_depth = 0\<rparr>"])
      (simp add: restored_def restored_stack_def stack_bytes_def serialization_buffer_size_def Let_def tags_size_def sum_list_replicate)
qed

text \<open>C36. Every state of a parse with names of at most 255 bytes whose tags take less than 1010 bytes is
restored from the buffer exactly as it was.\<close>

theorem cfml_roundtrip:
  assumes "cfml_parse s" and "list_all (\<lambda>t. length (tag_name t) \<le> 255) (tags s @ cf_tags s)"
    and "tags_size (tags s) + tags_size (cf_tags s) + 14 < serialization_buffer_size"
  shows "cfml_deserialize t (cfml_serialize s) = Some s"
  using assms typed_or_new_tag_ok [OF cfml_parse_typed_or_new [OF assms(1)]]
  by (intro cfml_codec) (simp add: cfml_storable_def)

theorem cfml_roundtrip_witness:
  "cfml_deserialize cfml_create (cfml_serialize query_state) = Some query_state"
  using query_state_tag query_state_html
  by (intro cfml_roundtrip query_state_parse)
    (auto simp: tags_size_def serialization_buffer_size_def)

end
