(* ===== verification/Cfml_Content.thy ===== *)
theory Cfml_Content
  imports Cfml_Restore
begin

text \<open>
  What the CFML scanner takes for the content of a tag that is not parsed, against the first end tag in the
  text; comments, against a reference that matches their brackets; and the two dialects, CFML and CFQuery, which share the scanner but not the tokens.
\<close>

section \<open>Where the content of a tag ends\<close>

text \<open>The reference: the first place where the end delimiter stands, in any case.\<close>

definition delim_at :: "byte list \<Rightarrow> code_point list \<Rightarrow> bool" where
  "delim_at d cs \<longleftrightarrow> length d \<le> length cs \<and> list_all2 upper_is (take (length d) cs) d"

fun content_end :: "byte list \<Rightarrow> code_point list \<Rightarrow> nat" where
  "content_end d [] = 0"
| "content_end d (c # cs) = (if delim_at d (c # cs) then 0 else Suc (content_end d cs))"

text \<open>A proper part of the delimiter that the first character of the delimiter breaks off.\<close>

fun false_start :: "byte list \<Rightarrow> code_point list \<Rightarrow> bool" where
  "false_start d [] = False"
| "false_start d (c # cs) =
     (list_ex (\<lambda>k. delim_at (take k d) (c # cs) \<and> k < length (c # cs) \<and> upper_is ((c # cs) ! k) (hd d)) [1..<length d] \<or>
      false_start d cs)"

lemma content_end_append:
  "(\<And>j. j \<le> length p \<Longrightarrow> \<not> delim_at d (drop j (p @ c # cs))) \<Longrightarrow>
    content_end d (p @ c # cs) = length p + 1 + content_end d cs"
proof (induction p)
  case Nil
  then show ?case using Nil [of 0] by simp
next
  case (Cons a p)
  have "content_end d (p @ c # cs) = length p + 1 + content_end d cs"
    using Cons.prems [of "Suc j" for j] by (intro Cons.IH) auto
  then show ?case using Cons.prems [of 0] by simp
qed

lemma false_start_append: "\<not> false_start d (p @ cs) \<Longrightarrow> \<not> false_start d cs"
  by (induction p) auto

lemma char_val_range: "-128 \<le> char_val a \<and> char_val a < 128"
  using sint_ge [of a] sint_lt [of a] by (simp add: char_val_def)

lemma upper_is_inj: "upper_is c a \<Longrightarrow> upper_is c b \<Longrightarrow> a = b"
proof -
  assume "upper_is c a" "upper_is c b"
  then have "char_val a mod 2 ^ 32 = char_val b mod 2 ^ 32" by (simp add: upper_is_def)
  then have "(char_val a + 128) mod 2 ^ 32 = (char_val b + 128) mod 2 ^ 32" by (rule mod_add_cong) simp
  then have "char_val a + 128 = char_val b + 128"
    using char_val_range [of a] char_val_range [of b] by (simp add: mod_pos_pos_trivial)
  then show ?thesis by (simp add: char_val_def signed_word_eqI)
qed

lemma delim_at_nth: "delim_at d x \<Longrightarrow> k < length d \<Longrightarrow> upper_is (x ! k) (d ! k)"
  using list_all2_nthD2 [of upper_is "take (length d) x" d k] by (simp add: delim_at_def)

text \<open>At a mismatch no delimiter begins in what was read.\<close>

lemma mismatch_no_delim:
  assumes "i < length d" and "list_all2 upper_is p (take i d)" and "length p = i"
    and "hd d \<notin> set (tl d)" and "\<not> upper_is c (d ! i)" and "\<not> false_start d (p @ c # cs)" and "j \<le> i"
  shows "\<not> delim_at d (drop j (p @ c # cs))"
proof
  assume m: "delim_at d (drop j (p @ c # cs))"
  have "upper_is (drop j (p @ c # cs) ! k) (d ! k)" if "k < length d" for k
    using m that by (rule delim_at_nth)
  then have m: "upper_is ((p @ c # cs) ! (j + k)) (d ! k)" if "k < length d" for k
    using that assms(3,7) by (metis nth_drop length_append le_add1 order_trans)
  have d0: "hd d = d ! 0" using assms(1) by (cases d) simp_all
  consider "j = 0" | "0 < j" "j < i" | "0 < j" "j = i" using assms(7) by linarith
  then show False
  proof cases
    case 1
    then show ?thesis using m [of i] assms(1,3,5) by (simp add: nth_append)
  next
    case 2
    then have "upper_is (p ! j) (d ! j)" using assms(1-3) by (auto simp: list_all2_conv_all_nth)
    moreover have "0 < length d" using assms(1) by (rule le_less_trans [OF le0])
    then have "upper_is (p ! j) (d ! 0)" using m [of 0] 2 assms(3) by (simp add: nth_append)
    ultimately have "d ! j = hd d" using d0 upper_is_inj by metis
    moreover have "tl d ! (j - 1) = d ! j" "j - 1 < length (tl d)" using 2 assms(1) by (auto simp: nth_tl)
    then have "d ! j \<in> set (tl d)" by (metis nth_mem)
    ultimately show ?thesis using assms(4) by simp
  next
    case 3
    then have "upper_is c (hd d)" using m [OF le_less_trans [OF le0 assms(1)]] d0 assms(3) by (simp add: nth_append)
    moreover have "delim_at (take i d) (p @ c # cs)" using assms(1-3) by (simp add: delim_at_def)
    ultimately have "false_start d (p @ c # cs)"
      using 3 assms(1,3) by (cases p) (auto simp: list_ex_iff intro!: bexI [of _ i])
    then show ?thesis using assms(6) by simp
  qed
qed

lemma content_loop_end:
  fixes l :: "'k lexer"
  assumes "i < length d" and "list_all2 upper_is p (take i d)" and "length p = i"
    and "hd d \<notin> set (tl d)" and "0 \<notin> set (text_ahead l)"
    and "tok_end l = Some (pos l - i)" and "i \<le> pos l"
    and "\<not> false_start d (p @ text_ahead l)" and "content_end d (p @ text_ahead l) < length (p @ text_ahead l)"
  shows "tok_end (content_loop d i l) = Some (pos l - i + content_end d (p @ text_ahead l))"
  using assms
proof (induction d i l arbitrary: p rule: content_loop.induct)
  case (1 d i l)
  show ?case
  proof (cases "text_ahead l")
    case Nil
    have "content_end d q = length q" if "length q < length d" for q
      using that by (induction q) (auto simp: delim_at_def)
    then have "content_end d p = length p" using 1 by simp
    then show ?thesis using 1 Nil by simp
  next
    case (Cons c cs)
    then have la: "lookahead l = c" "c \<noteq> 0" "\<not> eof l" and t: "text_ahead (advance l) = cs"
      using 1 by (auto simp: lookahead_Cons eof_text map_tl)
    then have pos: "pos (advance l) = Suc (pos l)" by (simp add: pos_advance)
    show ?thesis
    proof (cases "upper_is c (d ! i)")
      case hit: True
      then have p': "list_all2 upper_is (p @ [c]) (take (i + 1) d)"
        using 1 by (simp add: take_Suc_conv_app_nth list_all2_appendI)
      show ?thesis
      proof (cases "i + 1 = length d")
        case True
        then have "length d - i = 1" by simp
        then have "delim_at d (p @ c # cs)" using True p' 1 by (simp add: delim_at_def)
        then have "content_end d (p @ text_ahead l) = 0" using Cons by (cases p) auto
        then show ?thesis using 1 la hit True by (simp add: content_loop.simps)
      next
        case False
        have "tok_end (content_loop d (i + 1) (advance l)) =
            Some (pos (advance l) - (i + 1) + content_end d ((p @ [c]) @ text_ahead (advance l)))"
          using 1(3-) la hit False p' t Cons pos by (intro 1(1)) auto
        moreover have "content_loop d i l = content_loop d (i + 1) (advance l)"
          using la hit False by (subst content_loop.simps) simp
        ultimately show ?thesis using t Cons pos by simp
      qed
    next
      case False
      have "\<not> delim_at d (drop j (p @ c # cs))" if "j \<le> length p" for j
        using mismatch_no_delim [of i d p c cs j] 1(3-) False Cons that by simp
      then have e: "content_end d (p @ text_ahead l) = i + 1 + content_end d cs"
        using content_end_append [of p d c cs] 1(5) Cons by simp
      have fs: "\<not> false_start d cs" using false_start_append [of d "p @ [c]" cs] 1(10) Cons by simp
      have lt: "content_end d cs < length cs" using e 1(5,11) Cons by simp
      have nul: "0 \<notin> set cs" using 1(7) Cons by simp
      have l': "lookahead l \<noteq> 0" "\<not> upper_is (lookahead l) (d ! i)" "0 < length d"
        using la False 1(3) by auto
      let ?m = "mark_end (advance l)"
      have "text_ahead ?m = cs" using t by simp
      then have "tok_end (content_loop d 0 ?m) = Some (pos ?m - 0 + content_end d ([] @ text_ahead ?m))"
        using fs lt nul l' 1(6) by (intro 1(2)) simp_all
      moreover have "content_loop d i l = content_loop d 0 (mark_end (advance l))"
        using la False by (subst content_loop.simps) simp
      ultimately show ?thesis using t pos e 1(9) by (simp only: look_frame lexer_frame) simp
    qed
  qed
qed


section \<open>Content of the tags\<close>

definition content_tags :: "(string \<times> tag_type \<times> cfml_token) list" where
  "content_tags =
     [(''QUERY'', CF_QUERY, CF_QUERY_CONTENT), (''XML'', CF_XML, CF_XML_CONTENT),
      (''SCRIPT'', CF_SCRIPT, CF_SCRIPT_CONTENT)]"

definition scan_tag_content :: "tag_type \<Rightarrow> cfml_scanner \<Rightarrow> cfml_token lexer \<Rightarrow> bool \<times> cfml_token lexer" where
  "scan_tag_content k =
     (if k = CF_QUERY then scan_cfquery_content else if k = CF_XML then scan_cfxml_content
      else scan_cfscript_content)"

definition end_tag_text :: "string \<Rightarrow> byte list" where
  "end_tag_text n = List.map to_char (codes (''</CF'' @ n))"

lemma content_tags_facts:
  "list_all (\<lambda>(n, k, c). (n, k) \<in> set cf_types \<and> hd (end_tag_text n) = to_char c_lt \<and>
     end_tag_text n ! 1 = to_char c_slash \<and>
     hd (end_tag_text n) \<notin> set (tl (end_tag_text n)) \<and> length n \<le> 6 \<and> 2 \<le> length (end_tag_text n)) content_tags"
  by code_simp

lemma scan_tag_content:
  assumes "cfml_parse s" and "cf_tags s \<noteq> []" and "tag_kind (last (cf_tags s)) = k" and "(n, k, c) \<in> set content_tags"
  shows "scan_tag_content k s l = (True, set_result c (content_loop (end_tag_text n) 0 (mark_end l)))"
proof -
  let ?t = "last (cf_tags s)"
  note facts = content_tags_facts [unfolded list_all_iff, rule_format, OF assms(4), unfolded prod.case]
  have "name_is (tag_name ?t) n" using assms(1-3) facts by (intro cfml_parse_cf_tag) auto
  then have "end_delimiter (tag_name ?t) = end_tag_text n" "length (tag_name ?t) = length n"
    by (simp_all add: end_delimiter_def end_tag_text_def name_is_def codes_def)
  moreover have "scan_tag_content k = scan_cf_content k c"
    using assms(4)
    by (auto simp: content_tags_def scan_tag_content_def scan_cfquery_content_def scan_cfxml_content_def
        scan_cfscript_content_def)
  ultimately show ?thesis
    using assms(2,3) facts by (simp add: scan_cf_content_def Let_def max_cf_end_delimiter_size_def)
qed

text \<open>C19. In every state of a parse, the content of a query, of XML or of a script ends in front of its first
end tag, in any case, provided that there is one and that no part of an end tag is broken off by another
angle bracket.\<close>

theorem cfml_content_ends:
  assumes "cfml_parse s" and "cf_tags s \<noteq> []" and "tag_kind (last (cf_tags s)) = k"
    and "(n, k, c) \<in> set content_tags" and "0 \<notin> set (text_ahead l)"
    and "content_end (end_tag_text n) (text_ahead l) < length (text_ahead l)"
    and "\<not> false_start (end_tag_text n) (text_ahead l)"
  shows "\<exists>l'. scan_tag_content k s l = (True, l') \<and> result_symbol l' = Some c \<and>
    token_end l' = pos l + content_end (end_tag_text n) (text_ahead l)"
proof -
  note facts = content_tags_facts [unfolded list_all_iff, rule_format, OF assms(4), unfolded prod.case]
  have "tok_end (content_loop (end_tag_text n) 0 (mark_end l)) =
      Some (pos (mark_end l) - 0 + content_end (end_tag_text n) ([] @ text_ahead (mark_end l)))"
    using facts assms(5-7) by (intro content_loop_end) auto
  then show ?thesis
    using scan_tag_content [OF assms(1-4), of l] by (simp add: token_end_def)
qed

section \<open>An end tag behind an angle bracket\<close>

lemma content_loop_skip:
  "list_all (\<lambda>c. c \<noteq> 0 \<and> \<not> upper_is c (d ! 0)) u \<Longrightarrow> text_ahead l = u @ rest \<Longrightarrow>
    content_loop d 0 (mark_end l) = content_loop d 0 (mark_end (advance_n False (length u) l))"
proof (induction u arbitrary: l)
  case (Cons c u)
  then have "lookahead l = c" "text_ahead (advance l) = u @ rest" by (auto simp: lookahead_Cons map_tl)
  then have "content_loop d 0 (mark_end l) = content_loop d 0 (mark_end (advance l))"
    using Cons.prems(1) by (subst content_loop.simps) (use mark_end_advance_n [of False 1 l] in auto)
  then show ?case using Cons by (simp add: advance_n_Suc map_tl)
qed simp


lemma content_end_missed:
  assumes "list_all (\<lambda>c. \<not> upper_is c (d ! 0)) body" and "upper_is c (d ! 0)" and "\<not> upper_is c (d ! 1)"
    and "2 \<le> length d" and "delim_at d (c # u)"
  shows "content_end d (body @ c # c # u) = Suc (length body)"
proof -
  have "\<not> delim_at d (drop j (body @ c # c # u))" if "j \<le> length body" for j
  proof
    let ?x = "drop j (body @ c # c # u)"
    assume "delim_at d ?x"
    then have m: "upper_is (?x ! k) (d ! k)" if "k < length d" for k using that by (rule delim_at_nth)
    show False
    proof (cases "j = length body")
      case True
      then show ?thesis using m [of 1] assms(3,4) by simp
    next
      case False
      then have "j < length body" using that by simp
      moreover from this have "?x ! 0 = body ! j" by (simp add: nth_append)
      ultimately show ?thesis using m [of 0] assms(1,4) by (cases d) (auto simp: list_all_length)
    qed
  qed
  then show ?thesis using content_end_append [of body d c "c # u"] assms(5) by simp
qed

text \<open>C40. An angle bracket in front of the end tag hides it: the bracket of the end tag is compared with the
slash behind the first one and lost, and when no other angle bracket follows, everything up to the end of the
input is taken for content.\<close>

theorem cfml_content_missed:
  assumes "cfml_parse s" and "cf_tags s \<noteq> []" and "tag_kind (last (cf_tags s)) = k"
    and "(n, k, c) \<in> set content_tags"
    and "text_ahead l = body @ c_lt # c_lt # u" and "delim_at (end_tag_text n) (c_lt # u)"
    and "list_all (\<lambda>c. c \<noteq> 0 \<and> \<not> upper_is c (to_char c_lt)) (body @ u)"
  shows "content_end (end_tag_text n) (text_ahead l) = Suc (length body) \<and>
    (\<exists>l'. scan_tag_content k s l = (True, l') \<and> token_end l' = pos l + length (text_ahead l))"
proof -
  let ?d = "end_tag_text n"
  note facts = content_tags_facts [unfolded list_all_iff, rule_format, OF assms(4), unfolded prod.case]
  have d: "?d ! 0 = to_char c_lt" "?d ! 1 = to_char c_slash" "2 \<le> length ?d"
    using facts by (cases ?d; auto)+
  have lt: "upper_is c_lt (to_char c_lt)" "\<not> upper_is c_lt (to_char c_slash)"
    by (simp_all add: upper_is_def towupper_def char_val_to_char)
  have plain: "list_all (\<lambda>c. c \<noteq> 0 \<and> \<not> upper_is c (?d ! 0)) body"
    "list_all (\<lambda>c. c \<noteq> 0 \<and> \<not> upper_is c (?d ! 0)) u" using assms(7) d by simp_all
  let ?l1 = "advance_n False (length body) l"
  let ?l2 = "advance (advance (mark_end ?l1))"
  have t1: "text_ahead ?l1 = c_lt # c_lt # u" using assms(5) by (simp add: drop_map [symmetric])
  have r1: "remaining ?l1 = Suc (Suc (length u))" using arg_cong [OF t1, of length] by simp
  have "content_loop ?d 0 (mark_end l) = content_loop ?d 0 (mark_end ?l1)"
    using plain(1) assms(5) by (rule content_loop_skip)
  also have "\<dots> = content_loop ?d 1 (advance (mark_end ?l1))"
    using t1 d lt by (subst content_loop.simps) (simp add: lookahead_Cons)
  also have "\<dots> = content_loop ?d 0 (mark_end ?l2)"
    using t1 d lt by (subst content_loop.simps) (simp add: lookahead_text map_tl)
  also have "\<dots> = content_loop ?d 0 (mark_end (advance_n False (length u) ?l2))"
    using plain(2) t1 by (intro content_loop_skip [where rest = "[]"]) (simp_all add: map_tl)
  also have "\<dots> = mark_end (advance_n False (length u) ?l2)"
    using r1 by (subst content_loop.simps) (simp add: lookahead_eof eof_def)
  finally have "token_end (content_loop ?d 0 (mark_end l)) = pos (advance_n False (length u) ?l2)" by simp
  moreover have "runs l (advance_n False (length u) ?l2)" by (simp add: runs_advance_n)
  then have "pos (advance_n False (length u) ?l2) = pos l + remaining l" using runs_conserves r1 by fastforce
  ultimately have "token_end (content_loop ?d 0 (mark_end l)) = pos l + length (text_ahead l)" by simp
  moreover have "list_all (\<lambda>c. \<not> upper_is c (?d ! 0)) body" using plain(1) by (simp add: list_all_iff)
  then have "content_end ?d (text_ahead l) = Suc (length body)"
    using assms(5,6) content_end_missed d lt by metis
  ultimately show ?thesis
    using scan_tag_content [OF assms(1-4), of l] by simp
qed

theorem cfml_content_ends_witness:
  "\<exists>l'. scan_tag_content CF_QUERY query_state (lexer_on (codes ''a<b</CfQuery>'')) = (True, l') \<and>
    result_symbol l' = Some CF_QUERY_CONTENT \<and> token_end l' = 3"
proof -
  let ?l = "lexer_on (codes ''a<b</CfQuery>'') :: cfml_token lexer"
  have e: "content_end (end_tag_text ''QUERY'') (codes ''a<b</CfQuery>'') = 3" by code_simp
  have "\<not> false_start (end_tag_text ''QUERY'') (codes ''a<b</CfQuery>'')" by code_simp
  then have "\<exists>l'. scan_tag_content CF_QUERY query_state ?l = (True, l') \<and> result_symbol l' = Some CF_QUERY_CONTENT \<and>
    token_end l' = pos ?l + content_end (end_tag_text ''QUERY'') (text_ahead ?l)"
    using query_state_tag e
    by (intro cfml_content_ends query_state_parse) (auto simp: content_tags_def)
  then show ?thesis using e by simp
qed

theorem cfml_content_missed_witness:
  "\<exists>l'. scan_tag_content CF_QUERY query_state (lexer_on (codes ''a<</cfquery>b'')) = (True, l') \<and>
    token_end l' = 13"
proof -
  let ?l = "lexer_on (codes ''a<</cfquery>b'') :: cfml_token lexer"
  have "delim_at (end_tag_text ''QUERY'') (codes ''</cfquery>b'')" by code_simp
  moreover have "list_all (\<lambda>c. c \<noteq> 0 \<and> \<not> upper_is c (to_char c_lt)) (codes ''a'' @ codes ''/cfquery>b'')"
    by code_simp
  ultimately have "\<exists>l'. scan_tag_content CF_QUERY query_state ?l = (True, l') \<and>
      token_end l' = pos ?l + length (text_ahead ?l)"
    using query_state_tag
    by (intro cfml_content_missed [where n = "''QUERY''" and c = CF_QUERY_CONTENT and body = "codes ''a''" and
          u = "codes ''/cfquery>b''", THEN conjunct2] query_state_parse)
      (auto simp: content_tags_def)
  then show ?thesis by (simp add: numeral_eq_Suc)
qed

section \<open>Comments that nest\<close>

text \<open>The reference: what is left of the text behind the end of a comment, of which \<open>n\<close> are open. A comment
is opened by \<open><!--\<close> and closed by \<open>-->\<close>.\<close>

function comment_rest :: "nat \<Rightarrow> code_point list \<Rightarrow> code_point list option" where
  "comment_rest n cs =
     (if cs = [] then None
      else if take 4 cs = codes ''<!--'' then comment_rest (n + 1) (drop 4 cs)
      else if take 3 cs = codes ''-->'' then if n = 1 then Some (drop 3 cs) else comment_rest (n - 1) (drop 3 cs)
      else comment_rest n (tl cs))"
  by pat_completeness auto
termination by (relation "measure (\<lambda>(_, cs). length cs)") auto

declare comment_rest.simps [simp del]

lemma comment_rest_Nil [simp]: "comment_rest n [] = None"
  by (simp add: comment_rest.simps)

text \<open>No angle bracket is followed by a dash.\<close>

fun no_lt_dash :: "code_point list \<Rightarrow> bool" where
  "no_lt_dash (a # b # cs) \<longleftrightarrow> \<not> (a = c_lt \<and> b = c_minus) \<and> no_lt_dash (b # cs)"
| "no_lt_dash cs \<longleftrightarrow> True"

lemma no_lt_dash_tl: "no_lt_dash (c # cs) \<Longrightarrow> no_lt_dash cs"
  by (cases cs) simp_all

text \<open>What the loop has read of an opening or closing bracket, by its counters.\<close>

inductive comment_read :: "nat \<Rightarrow> int \<Rightarrow> code_point list \<Rightarrow> bool" where
  "comment_read 0 (-1) []"
| "comment_read 1 (-1) [c_minus]"
| "comment_read (Suc (Suc d)) (-1) [c_minus, c_minus]"
| "comment_read 0 0 [c_lt]"
| "comment_read 0 1 [c_lt, c_bang]"
| "comment_read 1 1 [c_lt, c_bang, c_minus]"

definition comment_answer :: "code_point list option \<Rightarrow> bool \<times> cfml_token lexer \<Rightarrow> bool" where
  "comment_answer r p \<longleftrightarrow>
     (case r of
        None \<Rightarrow> \<not> fst p
      | Some cs \<Rightarrow> fst p \<and> text_ahead (snd p) = cs \<and> tok_end (snd p) = Some (pos (snd p)) \<and>
          result_symbol (snd p) = Some CFML_COMMENT)"

lemma comment_rest_skip:
  "take 4 cs \<noteq> codes ''<!--'' \<Longrightarrow> take 3 cs \<noteq> codes ''-->'' \<Longrightarrow> comment_rest n cs = comment_rest n (tl cs)"
proof (cases cs)
  case (Cons c u)
  assume "take 4 cs \<noteq> codes ''<!--''" and "take 3 cs \<noteq> codes ''-->''"
  with Cons show ?thesis
    by (subst comment_rest.simps) (simp only: list.simps if_False list.sel)
qed simp

lemma comment_rest_open: "comment_rest n (c_lt # c_bang # c_minus # c_minus # cs) = comment_rest (Suc n) cs"
  by (subst comment_rest.simps) simp

lemma comment_rest_close:
  "comment_rest n (c_minus # c_minus # c_gt # cs) = (if n = 1 then Some cs else comment_rest (n - 1) cs)"
  by (subst comment_rest.simps) simp

lemma comment_rest_other: "c \<noteq> c_lt \<Longrightarrow> c \<noteq> c_minus \<Longrightarrow> comment_rest n (c # cs) = comment_rest n cs"
  by (subst comment_rest_skip) simp_all

lemma comment_rest_dash:
  "c \<noteq> c_minus \<Longrightarrow> comment_rest n (c_minus # c # cs) = comment_rest n (c # cs)"
  "c \<noteq> c_gt \<Longrightarrow> comment_rest n (c_minus # c_minus # c # cs) = comment_rest n (c_minus # c # cs)"
  by (subst comment_rest_skip; simp)+

lemma comment_rest_lt:
  "c \<noteq> c_bang \<Longrightarrow> comment_rest n (c_lt # c # cs) = comment_rest n (c # cs)"
  "c \<noteq> c_minus \<Longrightarrow> comment_rest n (c_lt # c_bang # c # cs) = comment_rest n (c # cs)"
  "c \<noteq> c_minus \<Longrightarrow> comment_rest n (c_lt # c_bang # c_minus # c # cs) = comment_rest n (c # cs)"
    apply (subst comment_rest_skip; simp)
   apply (subst comment_rest_skip; simp add: comment_rest_other)
  apply (subst comment_rest_skip; simp add: comment_rest_other comment_rest_dash)
  done

lemma comment_rest_part: "comment_read d dir p \<Longrightarrow> comment_rest n p = None"
  by (induction rule: comment_read.induct)
    (simp_all add: comment_rest_skip [of "[c_minus]"] comment_rest_skip [of "[c_minus, c_minus]"] comment_rest_skip [of "[c_lt]"]
      comment_rest_skip [of "[c_lt, c_bang]"] comment_rest_skip [of "[c_lt, c_bang, c_minus]"] comment_rest_other)

lemmas comment_rest_simps =
  comment_rest_open comment_rest_close comment_rest_other comment_rest_dash comment_rest_lt

inductive_cases comment_readE: "comment_read d dir p"

text \<open>One character, by the branches of the loop.\<close>

lemma read_open:
  "comment_read d dir p \<Longrightarrow> dir = 1 \<Longrightarrow> d + 1 \<ge> 2 \<Longrightarrow>
    comment_rest n (p @ c_minus # cs) = comment_rest (n + 1) cs"
  by (erule comment_readE) (simp_all add: comment_rest_simps)

lemma read_dash:
  "comment_read d dir p \<Longrightarrow> \<not> (dir = 1 \<and> d + 1 \<ge> 2) \<Longrightarrow> no_lt_dash (p @ c_minus # cs) \<Longrightarrow>
    \<exists>p'. comment_read (d + 1) dir p' \<and> comment_rest n (p @ c_minus # cs) = comment_rest n (p' @ cs) \<and>
      no_lt_dash (p' @ cs)"
proof (induction rule: comment_read.induct)
  case 1
  then show ?case using comment_read.intros(2) by (intro exI [of _ "[c_minus]"]) auto
next
  case 2
  then show ?case using comment_read.intros(3) [of 0] by (intro exI [of _ "[c_minus, c_minus]"]) auto
next
  case (3 d)
  then show ?case
    using comment_read.intros(3) [of "Suc d"]
    by (intro exI [of _ "[c_minus, c_minus]"]) (auto simp: comment_rest_simps)
next
  case 5
  then show ?case
    using comment_read.intros(6) by (intro exI [of _ "[c_lt, c_bang, c_minus]"]) auto
qed simp_all

lemma read_close:
  "comment_read d dir p \<Longrightarrow> 2 \<le> d \<Longrightarrow>
    comment_rest n (p @ c_gt # cs) = (if n = 1 then Some cs else comment_rest (n - 1) cs)"
  by (erule comment_readE) (simp_all add: comment_rest_simps)

lemma read_lt: "comment_read d dir p \<Longrightarrow> comment_rest n (p @ c_lt # cs) = comment_rest n (c_lt # cs)"
  by (erule comment_readE) (simp_all add: comment_rest_simps)

lemma read_bang: "comment_read d 0 p \<Longrightarrow> d = 0 \<and> p = [c_lt]"
  by (erule comment_readE) simp_all

lemma read_other:
  "comment_read d dir p \<Longrightarrow> c \<noteq> c_minus \<Longrightarrow> c \<noteq> c_lt \<Longrightarrow> \<not> (c = c_gt \<and> 2 \<le> d) \<Longrightarrow> \<not> (c = c_bang \<and> dir = 0) \<Longrightarrow>
    comment_rest n (p @ c # cs) = comment_rest n cs"
  by (erule comment_readE) (simp_all add: comment_rest_simps)

lemma no_lt_dash_append: "no_lt_dash (p @ cs) \<Longrightarrow> no_lt_dash cs"
  by (induction p) (auto dest: no_lt_dash_tl)

lemma nested_comment_rest:
  "comment_read d dir p \<Longrightarrow> 0 < n \<Longrightarrow> 0 \<notin> set (text_ahead l) \<Longrightarrow> no_lt_dash (p @ text_ahead l) \<Longrightarrow>
    comment_answer (comment_rest n (p @ text_ahead l)) (nested_comment d dir n l)"
proof (induction d dir n l arbitrary: p rule: nested_comment.induct)
  case (1 d dir n l)
  show ?case
  proof (cases "text_ahead l")
    case Nil
    then show ?thesis using comment_rest_part [OF 1(7), of n]
      by (subst nested_comment.simps) (simp add: comment_answer_def lookahead_text)
  next
    case (Cons c cs)
    then have la: "lookahead l = c" "lookahead l \<noteq> 0" and t: "text_ahead (advance l) = cs"
      using 1(9) by (auto simp: lookahead_Cons map_tl)
    have "0 \<notin> set (text_ahead (advance l))" using 1(9) Cons t by simp
    then have nul: "0 \<notin> cp ` set (tl (ahead l))" by simp
    have cs: "no_lt_dash (c # cs)" "no_lt_dash cs"
      using 1(10) Cons no_lt_dash_append [of p "c # cs"] no_lt_dash_tl by auto
    note rd = 1(7) and n = 1(8) and nld = 1(10) [unfolded Cons]
    show ?thesis
    proof (cases "c = c_minus")
      case minus: True
      show ?thesis
      proof (cases "dir = 1 \<and> d + 1 \<ge> 2")
        case True
        then show ?thesis
          using 1(1) [OF la(2) _ True comment_read.intros(1)] la minus t nul cs read_open [OF rd, of n cs] Cons
          by (subst nested_comment.simps) simp
      next
        case False
        obtain p' where p': "comment_read (d + 1) dir p'" "comment_rest n (p @ c_minus # cs) = comment_rest n (p' @ cs)"
          "no_lt_dash (p' @ cs)" using read_dash [OF rd False] nld minus by blast
        then show ?thesis
          using 1(2) [OF la(2) _ False p'(1) n] la minus t nul Cons False
          by (subst nested_comment.simps) auto
      qed
    next
      case minus: False
      show ?thesis
      proof (cases "c = c_gt \<and> 2 \<le> d")
        case gt: True
        let ?l = "mark_end (advance (set_result CFML_COMMENT l))"
        have tl: "text_ahead ?l = cs" using t by simp
        show ?thesis
        proof (cases "n = 1")
          case True
          then show ?thesis
            using gt la minus tl read_close [OF rd, of n cs] Cons
            by (subst nested_comment.simps) (simp add: comment_answer_def Let_def)
        next
          case False
          then have "n - 1 \<noteq> 0" "0 < n - 1" using n by auto
          then show ?thesis
            using 1(3) [OF la(2) _ _ refl, of "[]"] comment_read.intros(1) gt la minus tl nul cs
              read_close [OF rd, of n cs] Cons False
            by (subst nested_comment.simps) (simp add: Let_def)
        qed
      next
        case gt: False
        show ?thesis
        proof (cases "c = c_lt")
          case True
          then show ?thesis
            using 1(4) [OF la(2) _ _ _ comment_read.intros(4) n] la gt minus t nul cs read_lt [OF rd] Cons
            by (subst nested_comment.simps) auto
        next
          case lt: False
          show ?thesis
          proof (cases "c = c_bang \<and> dir = 0")
            case True
            then have "d = 0" "p = [c_lt]" using read_bang rd by auto
            then show ?thesis
              using 1(5) [OF la(2) _ _ _ True [folded la(1)], of "[c_lt, c_bang]"] comment_read.intros(5)
                True la gt minus lt t nul n nld Cons
              by (subst nested_comment.simps) simp
          next
            case False
            then show ?thesis
              using 1(6) [OF la(2) _ _ _ _ comment_read.intros(1) n] la gt minus lt t nul cs
                read_other [OF rd minus lt gt False] Cons
              by (subst nested_comment.simps) auto
          qed
        qed
      qed
    qed
  qed
qed


text \<open>The scan in front of an opening bracket, where text of a script cannot follow.\<close>

definition comment_request :: "cfml_scanner \<Rightarrow> (cfml_token \<Rightarrow> bool) \<Rightarrow> bool" where
  "comment_request s v \<longleftrightarrow>
     v CFML_COMMENT \<and> \<not> v RAW_TEXT \<and> \<not> v CF_COMPONENT_CONTENT \<and> \<not> list_ex v content_tokens \<and>
     \<not> (v HTML_TEXT \<and> in_script_style s)"

lemma scan_html_text_at_tag:
  "\<not> in_script_style s \<Longrightarrow> lookahead l = c_lt \<Longrightarrow> scan_html_text s l = (False, set_result HTML_TEXT l)"
  by (simp add: scan_html_text_def html_loop.simps [of _ l] html_stop_def)

lemma cfml_scan_at_comment:
  assumes "comment_request s v" and "text_ahead l = codes ''<!--'' @ u" and "hd0 u \<noteq> c_lbrack" and "hd0 u \<noteq> c_lt"
  shows "\<exists>m. text_ahead m = u \<and> runs l m \<and> cfml_scan s l v = (let (b, l') = nested_comment 0 (-1) 1 m in (b, s, l'))"
proof -
  have no: "\<not> v CF_XML_CONTENT" "\<not> v CF_QUERY_CONTENT" "\<not> v CF_SCRIPT_CONTENT" "\<not> v CF_SAVECONTENT_CONTENT"
    "\<not> savecontent_body_valid v" "\<not> v RAW_TEXT" "\<not> v CF_COMPONENT_CONTENT" "v CFML_COMMENT"
    using assms(1) by (auto simp: comment_request_def content_tokens_def savecontent_body_valid_def)
  have la: "lookahead l = c_lt" using assms(2) by (simp add: lookahead_Cons)
  define h where "h = (if v HTML_TEXT then set_result HTML_TEXT l else l)"
  have c: "scan_content s l v False = (None, h)"
    using no assms(1) scan_html_text_at_tag [of s l] la
    by (simp add: scan_content_def comment_request_def h_def)
  have w: "advance_while iswspace True l = l" using la by (intro advance_while_stop) (simp add: iswspace_def)
  have h: "lookahead h = c_lt" using la by (simp add: h_def)
  have s1: "cfml_scan s l v = scan_less s h v"
    unfolding cfml_scan_def external_scanner_scan_def VS_all
    by (simp add: w la c h scan_markup_def)
  define m where "m = advance (advance (advance (advance (mark_end h))))"
  have t: "text_ahead h = codes ''<!--'' @ u" using assms(2) by (simp add: h_def)
  then have "lookahead (advance (mark_end h)) = c_bang" "lookahead (advance (advance (mark_end h))) = c_minus"
    "lookahead (advance (advance (advance (mark_end h)))) = c_minus" and u: "text_ahead m = u"
    by (simp_all add: lookahead_text map_tl m_def)
  moreover from u have "lookahead m = hd0 u" by (simp add: lookahead_hd0)
  ultimately have "scan_less s h v = (let (b, l') = nested_comment 0 (-1) 1 m in (b, s, l'))"
    using no(8) assms(3,4) by (simp add: scan_less_def cfml_scan_comment_def m_def)
  moreover have "runs l m" by (simp add: m_def h_def)
  ultimately show ?thesis using s1 u by metis
qed

text \<open>C18. A comment nests: at \<open><!--\<close>, where the parser can use a comment and not the content of a tag, the scan
succeeds exactly when the reference finds the end of the comment, the token ends there, and the state is as
before. The text behind the bracket is any that does not make it a conditional comment and in which no angle
bracket is followed by a dash: the code takes \<open><-!-\<close> for an opening bracket, too.\<close>

theorem cfml_comment_nests:
  assumes "comment_request s v" and "text_ahead l = codes ''<!--'' @ u" and "hd0 u \<noteq> c_lbrack" and "hd0 u \<noteq> c_lt"
    and "0 \<notin> set u" and "no_lt_dash u"
  shows "case cfml_scan s l v of (b, s', l') \<Rightarrow>
    s' = s \<and> b = (comment_rest 1 u \<noteq> None) \<and>
    (b \<longrightarrow> result_symbol l' = Some CFML_COMMENT \<and>
      token_end l' + length (the (comment_rest 1 u)) = pos l + remaining l)"
proof -
  obtain m where m: "text_ahead m = u" "runs l m"
    "cfml_scan s l v = (let (b, l') = nested_comment 0 (-1) 1 m in (b, s, l'))"
    using cfml_scan_at_comment assms(1-4) by blast
  obtain b l' where n: "nested_comment 0 (-1) 1 m = (b, l')" by (metis surj_pair)
  have "comment_answer (comment_rest 1 ([] @ text_ahead m)) (nested_comment 0 (-1) 1 m)"
    using m(1) assms(5,6) by (intro nested_comment_rest comment_read.intros) simp_all
  then have a: "comment_answer (comment_rest 1 u) (b, l')" using m(1) n by simp
  have "runs l l'" using fwd_nested_comment [OF m(2), of 0 "-1" 1] n by (simp add: fwd_simps)
  then have "pos l' + length (text_ahead l') = pos l + remaining l" using runs_conserves by simp
  then show ?thesis
    using a m(3) n by (auto simp: comment_answer_def token_end_def split: option.splits)
qed

theorem cfml_comment_nests_witness:
  "case cfml_scan cfml_create (lexer_on (codes ''<!---a<!--b-->c--->d'')) (\<lambda>k. k = CFML_COMMENT) of (b, s', l') \<Rightarrow>
    b \<and> token_end l' = 19"
proof -
  let ?l = "lexer_on (codes ''<!---a<!--b-->c--->d'') :: cfml_token lexer"
  let ?u = "codes ''-a<!--b-->c--->d''"
  have r: "comment_rest 1 ?u = Some (codes ''d'')" by code_simp
  have "comment_request cfml_create (\<lambda>k. k = CFML_COMMENT)" by (simp add: comment_request_def content_tokens_def)
  then have "case cfml_scan cfml_create ?l (\<lambda>k. k = CFML_COMMENT) of (b, s', l') \<Rightarrow>
    s' = cfml_create \<and> b = (comment_rest 1 ?u \<noteq> None) \<and>
    (b \<longrightarrow> result_symbol l' = Some CFML_COMMENT \<and>
      token_end l' + length (the (comment_rest 1 ?u)) = pos ?l + remaining ?l)"
    by (rule cfml_comment_nests) simp_all
  then show ?thesis unfolding r by (simp add: lexer_on_def start_lexer_def split: prod.splits)
qed

section \<open>The two dialects\<close>

text \<open>A request that names only tokens that the scanner of CFQuery looks for.\<close>

definition cfquery_request :: "(cfml_token \<Rightarrow> bool) \<Rightarrow> bool" where
  "cfquery_request v \<longleftrightarrow> \<not> list_ex v (drop cfquery_count cfml_tokens)"

lemma VS_cfquery: "cfquery_request v \<Longrightarrow> VS v cfquery_count = v"
proof -
  assume "cfquery_request v"
  then have "v k \<Longrightarrow> k \<in> set (take cfquery_count cfml_tokens)" for k
    using all_tokens [of k] unfolding cfquery_request_def list_ex_iff
    by (metis Un_iff append_take_drop_id set_append)
  then show ?thesis by (auto simp: VS_def)
qed

lemma scan_content_dialect: "\<not> vs RAW_TEXT \<Longrightarrow> scan_content s l vs True = scan_content s l vs False"
  unfolding scan_content_def Let_def by (simp split: prod.split)

text \<open>A request that does not leave CFQuery is answered alike by both dialects, raw text aside.\<close>

theorem cfquery_is_cfml:
  "cfquery_request v \<Longrightarrow> \<not> v RAW_TEXT \<Longrightarrow> cfquery_scan s l v = cfml_scan s l v"
  unfolding cfquery_scan_def cfml_scan_def external_scanner_scan_def
  by (simp add: VS_cfquery VS_all scan_content_dialect Let_def)

text \<open>
  The tokens of CFQuery: the external tokens of its parser, the constants of the enumeration down to the
  comment on those that the dialect does not include. The last two, for the start of a return and of an
  output tag, are behind \<open>cfquery_count\<close>.
\<close>

definition cfquery_tokens :: "cfml_token list" where
  "cfquery_tokens =
     [AUTOMATIC_SEMICOLON, TERNARY_QMARK, ELVIS_OPERATOR, LOGICAL_OR, CF_START_TAG_NAME, CF_END_TAG_NAME,
      ERRONEOUS_CF_END_TAG_NAME, CF_SELF_CLOSING_TAG_DELIMITER, CF_SELF_CLOSING_VOID_TAG_DELIMITER,
      IMPLICIT_CF_END_TAG, RAW_TEXT, CFML_COMMENT, CLOSE_TAG_DELIM, CLOSE_CF_TAG_DELIM, HTML_TEXT,
      CF_VOID_START_TAG_NAME, CF_SET_START_TAG_NAME, CF_IF_START_TAG_NAME, CF_IF_END_TAG_NAME,
      CF_ELSEIF_TAG_NAME, CF_ELSE_TAG_NAME, CF_RETURN_START_TAG_NAME, CF_OUTPUT_START_TAG_NAME]"

text \<open>The names for which a start tag is reported as a token that CFQuery does not have.\<close>

definition foreign_names :: "(string \<times> cfml_token) list" where
  "foreign_names =
     [(''XML'', CF_XML_START_TAG_NAME), (''QUERY'', CF_QUERY_START_TAG_NAME),
      (''SCRIPT'', CF_SCRIPT_START_TAG_NAME), (''SAVECONTENT'', CF_SAVECONTENT_START_TAG_NAME),
      (''FUNCTION'', CF_FUNCTION_START_TAG_NAME), (''COMPONENT'', CF_COMPONENT_START_TAG_NAME)]"

lemma foreign_names_foreign: "(n, k) \<in> set foreign_names \<Longrightarrow> k \<notin> set cfquery_tokens"
  by (auto simp: foreign_names_def cfquery_tokens_def)

lemma cfquery_start:
  assumes "v CF_START_TAG_NAME" and "\<not> v HTML_TEXT" and "\<not> v RAW_TEXT"
    and "iswalpha (lookahead l)"
  shows "cfquery_scan s l v = scan_start_tag_name s l True"
proof -
  let ?vs = "VS v cfquery_count"
  have vs: "?vs CF_START_TAG_NAME" "\<not> ?vs HTML_TEXT" "\<not> ?vs RAW_TEXT" "\<not> hash_valid ?vs"
    "\<not> ?vs CF_COMPONENT_CONTENT" "\<not> ?vs CF_XML_CONTENT" "\<not> ?vs CF_QUERY_CONTENT" "\<not> ?vs CF_SCRIPT_CONTENT"
    "\<not> savecontent_body_valid ?vs" "\<not> ?vs CF_SAVECONTENT_CONTENT"
    using assms(1-3)
    by (simp_all add: VS_def cfml_tokens_def cfquery_count_def hash_valid_def savecontent_body_valid_def numeral_eq_Suc)
  have "advance_while iswspace True l = l"
    using assms(4) by (intro advance_while_stop) (auto simp: iswalpha_def iswspace_def)
  moreover have "lookahead l \<notin> {c_semi, c_lt, 0, c_slash}" using assms(4) by (auto simp: iswalpha_def)
  ultimately show ?thesis
    using vs
    by (simp add: cfquery_scan_def external_scanner_scan_def scan_content_def scan_markup_def scan_name_def
        valid_start_tag_name_def valid_cf_start_tag_name_def no_content_symbols_def)
qed


lemma scan_tag_name_word:
  assumes "text_ahead l = w @ rest" and "list_all tag_name_char w" and "\<not> tag_name_char (hd0 rest)"
    and "\<not> (towlower (hd0 w) = c_c \<and> towlower (hd0 (tl w)) = c_f)" and "w \<noteq> []"
  shows "\<exists>m. scan_tag_name l = ((List.map (to_char \<circ> towupper) w, False), m)"
proof -
  obtain c w' where w: "w = c # w'" using assms(5) by (cases w) auto
  then have c: "lookahead l = c" using assms(1) by (simp add: lookahead_Cons)
  have stop: "takeWhile tag_name_char (u @ rest) = u" if "list_all tag_name_char u" for u
    using that assms(3) by (cases rest) (auto simp: takeWhile_append2 list_all_iff takeWhile_tail)
  show ?thesis
  proof (cases "towlower c = c_c")
    case True
    have t: "text_ahead (advance l) = w' @ rest" using assms(1) w by (simp add: map_tl)
    have "towlower (lookahead (advance l)) \<noteq> c_f"
    proof (cases w')
      case Nil
      then have "lookahead (advance l) = hd0 rest" using t by (simp add: lookahead_hd0)
      then show ?thesis
        using assms(3) by (auto simp: tag_name_char_def iswalnum_def iswalpha_def towlower_def split: if_splits)
    next
      case (Cons d u)
      then show ?thesis using t True w assms(4) by (simp add: lookahead_Cons)
    qed
    then have "cf_prefix l = (([to_char (towupper c)], False), advance l)"
      using True c by (simp add: cf_prefix_def)
    then show ?thesis using t w assms(2) stop by (simp add: scan_tag_name_def)
  next
    case False
    then have "cf_prefix l = (([], False), l)" using c by (simp add: cf_prefix_def)
    then show ?thesis using assms(1,2) stop by (simp add: scan_tag_name_def)
  qed
qed

text \<open>The names are words of letters, none begins with CF, and each has its token.\<close>

lemma foreign_names_facts:
  "list_all (\<lambda>(n, k).
     list_all iswalpha (codes n) \<and> \<not> (hd0 (codes n) = 67 \<and> hd0 (tl (codes n)) = 70) \<and> n \<noteq> [] \<and>
     (if k = CF_COMPONENT_START_TAG_NAME then cf_type_for_name (List.map to_char (codes n)) = CF_VOID \<and> n = ''COMPONENT''
      else cf_type_for_name (List.map to_char (codes n)) \<notin> {CF_VOID, CF_SET, CF_RETURN, CF_ELSEIF, CF_ELSE} \<and>
        start_symbol True (cf_type_for_name (List.map to_char (codes n))) = k)) foreign_names"
  by code_simp

lemma start_tag_foreign:
  assumes "(n, k) \<in> set foreign_names"
  shows "\<exists>s' l'. start_tag True (cf_tag_for_name (List.map to_char (codes n))) s l = (True, s', set_result k l')"
proof -
  let ?t = "cf_tag_for_name (List.map to_char (codes n))"
  have kind: "tag_kind ?t = cf_type_for_name (List.map to_char (codes n))" "tag_name ?t = List.map to_char (codes n)"
    by (simp_all add: cf_tag_for_name_def tag_new_def)
  note facts = foreign_names_facts [unfolded list_all_iff, rule_format, OF assms, unfolded prod.case]
  show ?thesis
  proof (cases "k = CF_COMPONENT_START_TAG_NAME")
    case True
    then show ?thesis using facts kind by (auto simp: start_tag_def name_is_def split: if_splits)
  next
    case False
    then show ?thesis using facts kind start_tag_cf [of ?t s l] by auto
  qed
qed

text \<open>C39. The scanner of CFQuery reports tokens that its parser does not have: in any state, where the start
of a tag of ColdFusion is asked for and the text goes on with query, xml, script, savecontent, function or
component, in any case, the scan succeeds with the token of that name, which is none of the 23 external tokens
of CFQuery.\<close>

theorem cfquery_foreign_tokens:
  assumes "v CF_START_TAG_NAME" and "\<not> v HTML_TEXT" and "\<not> v RAW_TEXT"
    and "(n, k) \<in> set foreign_names" and "List.map towupper w = codes n"
    and "text_ahead l = w @ rest" and "\<not> tag_name_char (hd0 rest)"
  shows "\<exists>s' l'. cfquery_scan s l v = (True, s', l') \<and> result_symbol l' = Some k \<and>
    k \<notin> set cfquery_tokens"
proof -
  note facts = foreign_names_facts [unfolded list_all_iff, rule_format, OF assms(4), unfolded prod.case]
  have "length w = length n" using assms(5) by (metis length_codes length_map)
  then have ne: "w \<noteq> []" "codes n \<noteq> []" using facts by (auto simp flip: length_greater_0_conv)
  have upper: "iswalpha c = iswalpha (towupper c)" for c by (auto simp: iswalpha_def towupper_def)
  have "list_all iswalpha (List.map towupper w)" using facts assms(5) by (simp add: list_all_iff)
  then have alpha: "list_all iswalpha w" using upper by (simp add: list_all_iff)
  then have "list_all tag_name_char w" by (auto simp: list_all_iff tag_name_char_def iswalnum_def)
  moreover have "\<not> (towlower (hd0 w) = c_c \<and> towlower (hd0 (tl w)) = c_f)"
  proof -
    have h: "hd0 (List.map towupper u) = towupper (hd0 u)" for u by (cases u) (simp_all add: towupper_def)
    have "towlower c = c_c \<Longrightarrow> towupper c = 67" "towlower c = c_f \<Longrightarrow> towupper c = 70" for c
      by (auto simp: towlower_def towupper_def split: if_splits)
    then show ?thesis using facts assms(5) h [of w] h [of "tl w"] by (metis map_tl)
  qed
  ultimately obtain m where m: "scan_tag_name l = ((List.map (to_char \<circ> towupper) w, False), m)"
    using scan_tag_name_word assms(6,7) ne(1) by blast
  have name: "List.map (to_char \<circ> towupper) w = List.map to_char (codes n)"
    using assms(5) by (metis map_map)
  have "lookahead l = hd0 w" using assms(6) ne(1) by (cases w) (simp_all add: lookahead_hd0)
  then have "iswalpha (lookahead l)" using alpha ne(1) by (cases w) simp_all
  moreover from this have "lookahead l \<noteq> c_hash" by (auto simp: iswalpha_def)
  moreover obtain s' l' where
    "start_tag True (cf_tag_for_name (List.map to_char (codes n))) s m = (True, s', set_result k l')"
    using start_tag_foreign [OF assms(4)] by blast
  ultimately have "cfquery_scan s l v = (True, s', set_result k l')"
    using assms(1-3) ne m name cfquery_start by (simp add: scan_start_tag_name_def name_tag_def)
  then show ?thesis using foreign_names_foreign [OF assms(4)] by simp
qed


theorem cfquery_foreign_tokens_witness:
  "\<exists>s' l'. cfquery_scan cfml_create (lexer_on (codes ''Script >'')) (\<lambda>k. k = CF_START_TAG_NAME) = (True, s', l') \<and>
    result_symbol l' = Some CF_SCRIPT_START_TAG_NAME \<and>
    CF_SCRIPT_START_TAG_NAME \<notin> set cfquery_tokens"
  by (rule cfquery_foreign_tokens [where n = "''SCRIPT''" and w = "codes ''Script''" and rest = "codes '' >''"])
    (simp_all add: foreign_names_def towupper_def tag_name_char_def iswalnum_def iswalpha_def iswdigit_def)

theorem cfquery_is_cfml_witness:
  "cfquery_scan cfml_create (lexer_on (codes ''/>'')) (\<lambda>k. k = CF_SELF_CLOSING_TAG_DELIMITER) =
   cfml_scan cfml_create (lexer_on (codes ''/>'')) (\<lambda>k. k = CF_SELF_CLOSING_TAG_DELIMITER)"
  by (rule cfquery_is_cfml) (simp_all add: cfquery_request_def cfml_tokens_def cfquery_count_def numeral_eq_Suc)

end
