(* ===== verification/Spec2Isabelle.thy ===== *)
theory Spec2Isabelle
  imports Lua Lua_Lexer Dart Kotlin Terraform Vbnet Cobol Swift Arkts Cfscript Scala_Stack Cfml_Content
begin

text \<open>
  The external scanners of codegraph's native kernel.

  Codegraph indexes source code. Its kernel (\<^verbatim>\<open>codegraph-kernel/\<close>) parses many languages with
  tree-sitter grammars that are compiled into it from \<^verbatim>\<open>codegraph-kernel/grammars/\<close>. A grammar is a
  generated table, \<^verbatim>\<open>parser.c\<close>, and, where the language needs more than a context free lexer, a hand
  written external scanner, \<^verbatim>\<open>scanner.c\<close>: block comments that nest, strings that remember how they
  were opened, semicolons that a line break implies, heredocs, embedded XML. The scanners are the part
  of the C code that keeps state and takes decisions, and they are what this library models, file by
  file, from the C source.

  \<^bold>\<open>How the parts interact.\<close> The runtime calls \<open>create\<close> once, and for every token \<open>deserialize\<close>, \<open>scan\<close>
  and \<open>serialize\<close>: the state of a scanner lives in a buffer of 1024 bytes between two tokens. A scan
  reads characters through a cursor (\<open>TSLexer\<close>: \<open>lookahead\<close>, \<open>advance\<close>, \<open>mark_end\<close>, \<open>get_column\<close>, \<open>eof\<close>,
  \<open>is_at_included_range_start\<close>), is told which tokens the parser can use, and answers with a token or
  with failure. The cursor's implementation is not in the repository; it is a parameter of the model.

  \<^bold>\<open>The library.\<close>
  \<^item> \<open>Prelude\<close>: the character classes of the "C" locale, the narrowing conversions of C (\<open>char\<close> is signed,
    integers are stored little endian), the named characters.
  \<^item> \<open>Lexer\<close>: the cursor as a record of the characters, columns and range starts the runtime will show,
    with the interface's contract as a locale; loops over character classes; \<open>runs l l'\<close>, the relation
    that says that \<open>l'\<close> is \<open>l\<close> some characters further on. A NUL in the input and the end of the input
    both show the code point 0, and only \<open>eof\<close> tells them apart, as in the runtime.
  \<^item> \<open>Scanner_Interface\<close>: the contract between the runtime and a scanner, as locales that extend each
    other: \<open>scanner_codec\<close> (what is serialized comes back), \<open>storing_scanner\<close> (and every scan only moves
    the cursor forward), \<open>external_scanner\<close> (and every state that arises can be stored),
    \<open>resetting_scanner\<close> (and an empty buffer gives the initial state). The theorem they give: a parse
    that stores and restores the state around every token answers like one that keeps a live state.
  \<^item> \<open>Nested_Comments\<close>: the reference reader of block comments that nest, and a locale for the loop that
    four of the scanners have in this or that form.
  \<^item> \<open>Script_Text\<close>: references and locales for the loops that the two ECMAScript-like scanners share:
    template text, block comments, the language of white space and comments.
  \<^item> \<open>Generated_Lexer\<close>: the macros that the generated lexers (\<open>ts_lex\<close> in every \<^verbatim>\<open>parser.c\<close>) are made of, with
    the binary search in tables of characters; a table of cases read as an automaton. \<open>Lua_Tables\<close> has the two
    lexers of \<^verbatim>\<open>lua/parser.c\<close>, case by case, and \<open>Lua_Lexer\<close> what they read.
  \<^item> One theory for each scanner: \<open>Lua\<close>, \<open>Dart\<close>, \<open>Kotlin\<close>,
    \<open>Terraform\<close>, \<open>Vbnet\<close>, \<open>Cobol\<close>, \<open>Swift\<close>,
    \<open>Arkts\<close> (with \<^verbatim>\<open>arkts-common/scanner.h\<close>),
    \<open>Cfscript\<close>, and for Scala \<open>Scala_Text\<close> (its readers), \<open>Scala\<close>
    (the scan, one definition for each attempt of the C function) and \<open>Scala_Stack\<close> (what a
    scan answers). CFML and CFQuery share \<^verbatim>\<open>cfml-common/\<close>: \<open>Cfml_Tags\<close> has the types of tags (\<^verbatim>\<open>tag.h\<close>),
    \<open>Cfml_Text\<close> the readers, \<open>Cfml\<close> the stacks of open tags and the scan with its entry in both dialects,
    \<open>Cfml_State\<close> the buffer, \<open>Cfml_Protocol\<close> what a token does to the stacks, as a step relation,
    \<open>Cfml_Restore\<close> what the buffer brings back of states that do not fit and the states of a parse, and
    \<open>Cfml_Content\<close> comments, the end of unparsed content and what tells the dialects apart. Each has the tokens as a datatype in the order of the C enumeration, the state as the
    C struct (a record, or the stack itself as a list), one definition for each C function, with its
    loops as functions of their own, and interprets the locales above for these definitions. A scan
    returns whether it succeeded, the new state and the cursor.

  \<^bold>\<open>Conventions.\<close> Names are those of the C source; where two files use the same name, the language comes
  first. A pointer that a function writes through is a component of its result. Where C has no meaning or
  stops (\<open>abort\<close>, an assertion, a read behind the end of a string), the scan is \<open>None\<close>; in \<open>Cfscript\<close>
  \<open>None\<close> is also a loop that never ends, which is a partial function there. All other loops are total
  functions whose termination is proved, with the number of characters ahead as the measure, so that no
  fuel is needed. The loop of the generated lexers may run forever on some table; it is a partial function, too,
  and is proved to return on the tables at hand. Counters that C keeps at a width where the code can reach it are words of that width
  (the level of a Lua bracket, the hashes of a Swift string, \<open>char\<close> stacks); nesting depths of comments,
  which are bounded by the length of the input, are natural numbers. Allocation, \<open>destroy\<close> and the growth
  of arrays are not modelled: an array is a list.

  \<^bold>\<open>What the theorems show.\<close>
  \<^item> Equivalence with a reference on the text: nested comments (Dart, Kotlin, Swift, Scala, CFML), inserted semicolons
    (Kotlin, ArkTS, CFScript), continued queries and XML literals (VB.NET), the longest operator and raw
    strings (Swift), EXEC blocks and comment entries (COBOL), template text (Dart, ArkTS, CFScript). Where a
    comment in the source says what is meant, the reference follows the comment, and the inputs on which the code
    does otherwise are excluded by a predicate of their own (\<open>misread\<close>, \<open>arkts_misread\<close>, \<open>cfscript_misread\<close>) and
    shown to be answered otherwise by a theorem beside it.
  \<^item> Lua's generated lexers return with the longest token of the text: a keyword, an operator, a number, a name,
    an escape sequence.
  \<^item> Token protocols: Lua's long brackets, Kotlin's strings, Terraform's heredocs are read as start, body
    and end with the state pushed and popped; Terraform's stack of contexts follows the tokens.
  \<^item> Layout: Scala's stack of indentations follows the tokens and stays sorted by width, and a line closes
    exactly the blocks it stands left of. The answers of its scans are derived by rules that follow the code,
    with one relation for the steps that only look ahead (\<open>peeks\<close> in \<open>Lexer\<close>).
  \<^item> Tags: every scan of CFML and CFQuery is a step of a relation on the two stacks of open tags or fails and
    keeps the state, every state of a parse is well typed up to the new tags that stand for those that did not
    fit into the buffer, and at the end of the input as many scans as
    tags are open close them all.
  \<^item> State: Kotlin's stack holds only delimiters and never outgrows the buffer; Terraform's contexts,
    Scala's indentations and CFML's tags survive the buffer when they fit; the sessions of Lua refine a run with a live state.
  \<^item> Errors, each with the theorem that exhibits it: counters that wrap, characters narrowed to a byte, a
    loop without an end, a misspelt table entry, a table or a buffer read behind its end, tokens of another dialect, a search that
    does not go back.

  \<^bold>\<open>Not modelled.\<close> The generated parse tables (\<^verbatim>\<open>parser.c\<close>) and the generated lexers of the languages other than
  Lua; the headers that the tree-sitter generator ships (\<^verbatim>\<open>parser.h\<close> apart from \<open>TSLexer\<close> and the macros of the
  lexers, \<^verbatim>\<open>alloc.h\<close>, \<^verbatim>\<open>array.h\<close>); Objective-C and Solidity, which have no
  scanner; \<^verbatim>\<open>cfscript/tag.h\<close>, which no file includes; the functions of \<^verbatim>\<open>cfml-common/scanner.h\<close> that are
  copies of those of \<^verbatim>\<open>cfscript/scanner.c\<close> are those of \<open>Cfscript\<close>; the Rust and TypeScript parts of codegraph.
\<close>

end
